(* ===== verification/Gateway_Prelude.thy ===== *)
theory Gateway_Prelude
  imports Main "HOL-Library.Word" "HOL-Library.List_Lexorder" "HOL-Library.Char_ord"
    "HOL-Library.Product_Lexorder" "HOL-Library.Code_Target_Nat"
begin

text \<open>
  Shared vocabulary of the gateway development: results of fallible operations, the
  fixed-width integer operations the sources use, durations, clock readings, and ordered maps
  (\<open>std::collections::BTreeMap\<close>) as association lists sorted by key, with the interface
  the components rely on stated as the locale \<open>ordered_map\<close>.
\<close>

unbundle bit_operations_syntax

named_theorems arith_defs \<open>unfolding rules for the checked integer operations\<close>
named_theorems map_laws \<open>lookup laws of the ordered maps\<close>

section \<open>Results\<close>

text \<open>\<open>Result<T, E>\<close> is the sum \<open>'e + 'a\<close>: \<open>Err\<close> on the left, \<open>Ok\<close> on the right.\<close>

abbreviation Err :: "'e \<Rightarrow> 'e + 'a" where "Err \<equiv> Inl"
abbreviation Ok :: "'a \<Rightarrow> 'e + 'a" where "Ok \<equiv> Inr"

text \<open>\<open>Result::map_err\<close> and \<open>Option::ok_or\<close>.\<close>

definition map_err :: "('e \<Rightarrow> 'f) \<Rightarrow> 'e + 'a \<Rightarrow> 'f + 'a" where
  "map_err f r = (case r of Inl e \<Rightarrow> Err (f e) | Inr x \<Rightarrow> Ok x)"

definition ok_or :: "'e \<Rightarrow> 'a option \<Rightarrow> 'e + 'a" where
  "ok_or e x = (case x of None \<Rightarrow> Err e | Some v \<Rightarrow> Ok v)"

lemma map_err_simps [simp]:
  "map_err f (Inl e) = Inl (f e)" "map_err f (Inr x) = Inr x"
  by (simp_all add: map_err_def)

lemma ok_or_simps [simp]: "ok_or e None = Inl e" "ok_or e (Some v) = Inr v"
  by (simp_all add: ok_or_def)

lemma ok_or_eq_Inr [simp]: "ok_or e x = Inr v \<longleftrightarrow> x = Some v"
  by (cases x) auto

section \<open>Fixed-width integers\<close>

text \<open>
  \<open>i64\<close> values are \<open>int\<close>, \<open>u64\<close> and \<open>usize\<close> values (64-bit targets) are \<open>nat\<close>; every
  operation that can leave the range is written with its check. Wrapping counters are
  \<open>64 word\<close> and stay so in the components that use them.
\<close>

type_synonym i64 = int
type_synonym u64 = nat
type_synonym usize = nat

definition in_i64 :: "int \<Rightarrow> bool" where
  "in_i64 x \<longleftrightarrow> - (2 ^ 63) \<le> x \<and> x < 2 ^ 63"

definition checked_add_i64 :: "i64 \<Rightarrow> i64 \<Rightarrow> i64 option" where
  "checked_add_i64 a b = (if in_i64 (a + b) then Some (a + b) else None)"

definition checked_sub_i64 :: "i64 \<Rightarrow> i64 \<Rightarrow> i64 option" where
  "checked_sub_i64 a b = (if in_i64 (a - b) then Some (a - b) else None)"

definition checked_add_u64 :: "u64 \<Rightarrow> u64 \<Rightarrow> u64 option" where
  "checked_add_u64 a b = (if a + b < 2 ^ 64 then Some (a + b) else None)"

text \<open>\<open>usize::try_from(i64)\<close>, \<open>u64::try_from(i64)\<close> and \<open>i64::try_from\<close> of an unsigned value.\<close>

definition unsigned_of_i64 :: "i64 \<Rightarrow> nat option" where
  "unsigned_of_i64 x = (if x < 0 then None else Some (nat x))"

definition i64_of_unsigned :: "nat \<Rightarrow> i64 option" where
  "i64_of_unsigned n = (if n < 2 ^ 63 then Some (int n) else None)"

declare checked_add_i64_def [arith_defs] checked_sub_i64_def [arith_defs]
  checked_add_u64_def [arith_defs] unsigned_of_i64_def [arith_defs]
  i64_of_unsigned_def [arith_defs] in_i64_def [arith_defs]

lemma checked_add_i64_Some [simp]:
  "checked_add_i64 a b = Some c \<longleftrightarrow> in_i64 (a + b) \<and> c = a + b"
  by (auto simp: checked_add_i64_def)

lemma checked_sub_i64_Some [simp]:
  "checked_sub_i64 a b = Some c \<longleftrightarrow> in_i64 (a - b) \<and> c = a - b"
  by (auto simp: checked_sub_i64_def)

lemma checked_add_u64_Some [simp]:
  "checked_add_u64 a b = Some c \<longleftrightarrow> a + b < 2 ^ 64 \<and> c = a + b"
  by (auto simp: checked_add_u64_def)

lemma unsigned_of_i64_Some [simp]: "unsigned_of_i64 x = Some n \<longleftrightarrow> 0 \<le> x \<and> n = nat x"
  by (auto simp: unsigned_of_i64_def)

lemma i64_of_unsigned_Some [simp]: "i64_of_unsigned n = Some x \<longleftrightarrow> n < 2 ^ 63 \<and> x = int n"
  by (auto simp: i64_of_unsigned_def)

section \<open>Durations and clock readings\<close>

text \<open>
  A \<open>std::time::Duration\<close> is its number of nanoseconds; its largest value has \<open>u64::MAX\<close>
  whole seconds. A clock read returns a Unix-millisecond instant or the unavailability error
  (\<open>None\<close>); successive reads need not be monotone.
\<close>

type_synonym duration = nat
type_synonym clock_reading = "i64 option"

definition duration_max :: duration where
  "duration_max = (2 ^ 64 - 1) * 1000000000 + 999999999"

definition from_millis :: "nat \<Rightarrow> duration" where
  "from_millis ms = ms * 1000000"

definition from_secs :: "nat \<Rightarrow> duration" where
  "from_secs s = s * 1000000000"

definition as_millis :: "duration \<Rightarrow> nat" where
  "as_millis d = d div 1000000"

definition duration_saturating_add :: "duration \<Rightarrow> duration \<Rightarrow> duration" where
  "duration_saturating_add a b = min (a + b) duration_max"

lemma as_millis_from_millis [simp]: "as_millis (from_millis ms) = ms"
  by (simp add: as_millis_def from_millis_def)

section \<open>Ordered maps\<close>

text \<open>
  What the components use of a \<open>BTreeMap\<close>: exact lookup, insertion with replacement, removal,
  \<open>retain\<close>, the number of entries and the keys in ascending order.
\<close>

locale ordered_map =
  fixes empty :: 'm
    and get :: "'m \<Rightarrow> 'k::linorder \<Rightarrow> 'v option"
    and put :: "'k \<Rightarrow> 'v \<Rightarrow> 'm \<Rightarrow> 'm"
    and del :: "'k \<Rightarrow> 'm \<Rightarrow> 'm"
    and keep :: "('k \<Rightarrow> 'v \<Rightarrow> bool) \<Rightarrow> 'm \<Rightarrow> 'm"
    and len :: "'m \<Rightarrow> nat"
    and keys :: "'m \<Rightarrow> 'k list"
    and invar :: "'m \<Rightarrow> bool"
  assumes invar_empty: "invar empty"
    and invar_put: "invar m \<Longrightarrow> invar (put k v m)"
    and invar_del: "invar m \<Longrightarrow> invar (del k m)"
    and invar_keep: "invar m \<Longrightarrow> invar (keep P m)"
    and get_empty: "get empty j = None"
    and get_put: "get (put k v m) j = (if j = k then Some v else get m j)"
    and get_del: "get (del k m) j = (if j = k then None else get m j)"
    and get_keep: "invar m \<Longrightarrow>
      get (keep P m) j = (case get m j of None \<Rightarrow> None | Some v \<Rightarrow> if P j v then Some v else None)"
    and keys_sorted: "invar m \<Longrightarrow> sorted_wrt (<) (keys m)"
    and keys_get: "set (keys m) = dom (get m)"
    and len_keys: "len m = length (keys m)"
begin

lemma len_card: "invar m \<Longrightarrow> len m = card (dom (get m))"
  using keys_sorted [of m] strict_sorted_iff [of "keys m"]
  by (simp add: len_keys keys_get [symmetric] distinct_card)

lemma finite_keys: "finite (dom (get m))"
  by (simp flip: keys_get)

lemma len_put_new:
  assumes "invar m" "get m k = None"
  shows "len (put k v m) = Suc (len m)"
proof -
  have "dom (get (put k v m)) = insert k (dom (get m))"
    by (auto simp: get_put split: if_splits)
  moreover have "k \<notin> dom (get m)" using assms(2) by auto
  ultimately show ?thesis
    using assms(1) by (simp add: len_card invar_put finite_keys)
qed

lemma len_put_old:
  assumes "invar m" "get m k \<noteq> None"
  shows "len (put k v m) = len m"
proof -
  have "dom (get (put k v m)) = dom (get m)"
    using assms(2) by (auto simp: get_put split: if_splits)
  with assms(1) show ?thesis
    by (simp add: len_card invar_put)
qed

lemma len_del_le:
  assumes "invar m"
  shows "len (del k m) \<le> len m"
proof -
  have "dom (get (del k m)) \<subseteq> dom (get m)"
    by (auto simp: get_del split: if_splits)
  with assms show ?thesis
    by (simp add: len_card invar_del card_mono finite_keys)
qed

lemma len_keep_le:
  assumes "invar m"
  shows "len (keep P m) \<le> len m"
proof -
  have "dom (get (keep P m)) \<subseteq> dom (get m)"
    using assms by (auto simp: get_keep split: option.splits)
  with assms show ?thesis
    by (simp add: len_card invar_keep card_mono finite_keys)
qed

lemma len_put_le: "invar m \<Longrightarrow> len (put k v m) \<le> Suc (len m)"
  using len_put_new [of m k v] len_put_old [of m k v] by (cases "get m k = None") auto

lemma len_empty: "len empty = 0"
proof -
  have "dom (get empty) = {}" by (auto simp: get_empty)
  then show ?thesis by (simp add: len_card invar_empty)
qed

text \<open>Insertion guarded by a capacity test keeps the number of entries bounded.\<close>

lemma len_put_bounded:
  assumes "invar m" "get m k = None \<Longrightarrow> len m < c" "len m \<le> c"
  shows "len (put k v m) \<le> c"
  using assms len_put_new [of m k v] len_put_old [of m k v] by (cases "get m k = None") auto

end

text \<open>The implementation: association lists sorted strictly by key.\<close>

type_synonym ('k, 'v) bmap = "('k \<times> 'v) list"

abbreviation bm_get :: "('k, 'v) bmap \<Rightarrow> 'k \<Rightarrow> 'v option" where
  "bm_get \<equiv> map_of"

fun bm_insert :: "'k::linorder \<Rightarrow> 'v \<Rightarrow> ('k, 'v) bmap \<Rightarrow> ('k, 'v) bmap" where
  "bm_insert k v [] = [(k, v)]"
| "bm_insert k v (e # m) =
     (if k < fst e then (k, v) # e # m
      else if fst e = k then (k, v) # m
      else e # bm_insert k v m)"

definition bm_remove :: "'k \<Rightarrow> ('k, 'v) bmap \<Rightarrow> ('k, 'v) bmap" where
  "bm_remove k m = filter (\<lambda>e. fst e \<noteq> k) m"

definition bm_retain :: "('k \<Rightarrow> 'v \<Rightarrow> bool) \<Rightarrow> ('k, 'v) bmap \<Rightarrow> ('k, 'v) bmap" where
  "bm_retain P m = filter (\<lambda>e. P (fst e) (snd e)) m"

definition bm_ok :: "('k::linorder, 'v) bmap \<Rightarrow> bool" where
  "bm_ok m \<longleftrightarrow> sorted_wrt (<) (map fst m)"

lemma bm_insert_fst: "fst ` set (bm_insert k v m) = insert k (fst ` set m)"
  by (induction m) auto

lemma bm_ok_insert: "bm_ok m \<Longrightarrow> bm_ok (bm_insert k v m)"
proof (induction m)
  case Nil
  then show ?case by (simp add: bm_ok_def)
next
  case (Cons e m)
  then have IH: "bm_ok (bm_insert k v m)" and e: "\<forall>x \<in> fst ` set m. fst e < x"
    and m: "sorted_wrt (<) (map fst m)"
    by (auto simp: bm_ok_def)
  consider "k < fst e" | "fst e = k" | "fst e < k" by fastforce
  then show ?case
  proof cases
    case 1
    with e m show ?thesis by (auto simp: bm_ok_def intro: less_trans)
  next
    case 2
    with e m show ?thesis by (auto simp: bm_ok_def)
  next
    case 3
    then have "\<forall>x \<in> fst ` set (bm_insert k v m). fst e < x"
      using e by (simp add: bm_insert_fst)
    with 3 IH show ?thesis by (auto simp: bm_ok_def)
  qed
qed

lemma bm_ok_filter: "bm_ok m \<Longrightarrow> bm_ok (filter P m)"
  by (induction m) (auto simp: bm_ok_def)

lemma bm_get_insert: "bm_get (bm_insert k v m) j = (if j = k then Some v else bm_get m j)"
  by (induction m) auto

lemma bm_get_remove: "bm_get (bm_remove k m) j = (if j = k then None else bm_get m j)"
  by (induction m) (auto simp: bm_remove_def)

lemma bm_ok_Cons_notin: "bm_ok (e # m) \<Longrightarrow> bm_get m (fst e) = None"
  by (fastforce simp: bm_ok_def map_of_eq_None_iff)

lemma bm_get_retain:
  "bm_ok m \<Longrightarrow> bm_get (bm_retain P m) j =
     (case bm_get m j of None \<Rightarrow> None | Some v \<Rightarrow> if P j v then Some v else None)"
proof (induction m)
  case Nil
  then show ?case by (simp add: bm_retain_def)
next
  case (Cons e m)
  then have IH: "bm_get (bm_retain P m) j =
      (case bm_get m j of None \<Rightarrow> None | Some v \<Rightarrow> if P j v then Some v else None)"
    by (simp add: bm_ok_def)
  have "bm_get m (fst e) = None" using Cons.prems by (rule bm_ok_Cons_notin)
  then show ?case using IH by (cases e) (auto simp: bm_retain_def)
qed

interpretation bm: ordered_map "[]" bm_get bm_insert bm_remove bm_retain length "map fst" bm_ok
proof unfold_locales
  show "set (map fst m) = dom (bm_get m)" for m :: "('a \<times> 'b) list"
    by (simp add: dom_map_of_conv_image_fst)
  show "bm_ok (bm_remove k m)" if "bm_ok m" for k and m :: "('a \<times> 'b) list"
    using that by (simp add: bm_remove_def bm_ok_filter)
  show "bm_ok (bm_retain P m)" if "bm_ok m" for P and m :: "('a \<times> 'b) list"
    using that by (simp add: bm_retain_def bm_ok_filter)
qed (simp_all add: bm_ok_insert bm_get_insert bm_get_remove bm_get_retain, simp_all add: bm_ok_def)

declare bm.get_put [map_laws] bm.get_del [map_laws] bm.get_keep [map_laws]

lemmas bm_invars [simp, intro] = bm.invar_empty bm.invar_put bm.invar_del bm.invar_keep

lemma count_list_distinct: "distinct xs \<Longrightarrow> count_list xs x = (if x \<in> set xs then 1 else 0)"
  by (induction xs) auto

lemma bm_get_insert_upd: "bm_get (bm_insert k v m) = (bm_get m)(k \<mapsto> v)"
  by (rule ext) (simp add: bm_get_insert)

lemma bm_ok_get: "bm_ok m \<Longrightarrow> (k, v) \<in> set m \<Longrightarrow> bm_get m k = Some v"
  by (simp add: bm_ok_def strict_sorted_iff)

end
