(* ===== verification/Gateway_Core.thy ===== *)
theory Gateway_Core
  imports Gateway_Prelude
begin

text \<open>
  The gateway core crate (\<open>src/crates/gateway-core\<close>) without its event stream: error
  categories and scopes (\<open>error.rs\<close>), opaque identifiers and the derivation of Attempt
  identities (\<open>id.rs\<close>), raw extension namespaces (\<open>raw_extension.rs\<close>) and the retry gate
  (\<open>retry_gate.rs\<close>). Strings are byte strings, as the UTF-8 text of the source is compared
  and measured.
\<close>

section \<open>Errors\<close>

datatype gateway_error_code =
    ClientRequestError | ClientUnauthorized | RouteNotFound | CredentialUnavailable
  | CredentialUnauthorizedCode | CredentialForbidden | CredentialQuotaExceeded | EgressRejected
  | EgressUnavailable | ProviderRateLimited | ProviderTransient | ProviderPermanent
  | TokenCountUnsupported | UpstreamProtocolError | StreamTruncated | InternalError | CancelledCode

datatype error_scope =
    RequestScope | CredentialScope | AccountScope | ModelScope | QuotaWindowScope
  | EgressSessionScope | EgressScope | ProviderScope | StreamScope | InternalScope

record gateway_error =
  ge_code :: gateway_error_code
  ge_scope :: error_scope

definition gateway_error_new :: "gateway_error_code \<Rightarrow> error_scope \<Rightarrow> gateway_error" where
  "gateway_error_new c s = \<lparr>ge_code = c, ge_scope = s\<rparr>"

fun code_as_str :: "gateway_error_code \<Rightarrow> string" where
  "code_as_str ClientRequestError = ''ClientRequestError''"
| "code_as_str ClientUnauthorized = ''ClientUnauthorized''"
| "code_as_str RouteNotFound = ''RouteNotFound''"
| "code_as_str CredentialUnavailable = ''CredentialUnavailable''"
| "code_as_str CredentialUnauthorizedCode = ''CredentialUnauthorized''"
| "code_as_str CredentialForbidden = ''CredentialForbidden''"
| "code_as_str CredentialQuotaExceeded = ''CredentialQuotaExceeded''"
| "code_as_str EgressRejected = ''EgressRejected''"
| "code_as_str EgressUnavailable = ''EgressUnavailable''"
| "code_as_str ProviderRateLimited = ''ProviderRateLimited''"
| "code_as_str ProviderTransient = ''ProviderTransient''"
| "code_as_str ProviderPermanent = ''ProviderPermanent''"
| "code_as_str TokenCountUnsupported = ''TokenCountUnsupported''"
| "code_as_str UpstreamProtocolError = ''UpstreamProtocolError''"
| "code_as_str StreamTruncated = ''StreamTruncated''"
| "code_as_str InternalError = ''InternalError''"
| "code_as_str CancelledCode = ''Cancelled''"

fun scope_as_str :: "error_scope \<Rightarrow> string" where
  "scope_as_str RequestScope = ''request''"
| "scope_as_str CredentialScope = ''credential''"
| "scope_as_str AccountScope = ''account''"
| "scope_as_str ModelScope = ''model''"
| "scope_as_str QuotaWindowScope = ''quota_window''"
| "scope_as_str EgressSessionScope = ''egress_session''"
| "scope_as_str EgressScope = ''egress''"
| "scope_as_str ProviderScope = ''provider''"
| "scope_as_str StreamScope = ''stream''"
| "scope_as_str InternalScope = ''internal''"

text \<open>\<open>impl Display for GatewayError\<close>: the code, then the scope in parentheses.\<close>

definition gateway_error_display :: "gateway_error \<Rightarrow> string" where
  "gateway_error_display e = code_as_str (ge_code e) @ '' ('' @ scope_as_str (ge_scope e) @ '')''"

text \<open>The error constants several modules build with \<open>GatewayError::new\<close>.\<close>

definition stream_protocol_error :: gateway_error where
  "stream_protocol_error = gateway_error_new UpstreamProtocolError StreamScope"

definition stream_truncated_error :: gateway_error where
  "stream_truncated_error = gateway_error_new StreamTruncated StreamScope"

definition request_cancelled_error :: gateway_error where
  "request_cancelled_error = gateway_error_new CancelledCode RequestScope"

lemma code_as_str_inject: "code_as_str c = code_as_str d \<longleftrightarrow> c = d"
  by (cases c; cases d) simp_all

lemma scope_as_str_inject: "scope_as_str c = scope_as_str d \<longleftrightarrow> c = d"
  by (cases c; cases d) simp_all

section \<open>Opaque identifiers\<close>

text \<open>
  The macro \<open>opaque_identifier!\<close> makes one newtype over \<open>String\<close> per identifier, all with the
  same constructor; the model keeps the strings and the constructor's check.
\<close>

datatype invalid_identifier = EmptyIdentifier

definition id_try_new :: "string \<Rightarrow> invalid_identifier + string" where
  "id_try_new value = (if value = [] then Err EmptyIdentifier else Ok value)"

text \<open>Decimal rendering of an unsigned integer, as \<open>format!\<close> prints it.\<close>

definition digit_char :: "nat \<Rightarrow> char" where
  "digit_char d = char_of (48 + d)"

fun show_nat :: "nat \<Rightarrow> string" where
  "show_nat n = (if n < 10 then [digit_char n] else show_nat (n div 10) @ [digit_char (n mod 10)])"

declare show_nat.simps [simp del]

definition attempt_id_from_request_sequence :: "string \<Rightarrow> u64 \<Rightarrow> string" where
  "attempt_id_from_request_sequence request_id attempt_number =
     ''attempt:'' @ show_nat (length request_id) @ '':'' @ request_id @ '':'' @ show_nat attempt_number"

fun read_nat :: "string \<Rightarrow> nat" where
  "read_nat s = foldl (\<lambda>acc c. acc * 10 + (of_char c - 48)) 0 s"

lemma of_digit_char: "d < 10 \<Longrightarrow> of_char (digit_char d) = (48 + d :: nat)"
  by (simp add: digit_char_def)

lemma read_show_nat: "read_nat (show_nat n) = n"
proof (induction n rule: show_nat.induct)
  case (1 n)
  show ?case
  proof (cases "n < 10")
    case True
    then show ?thesis by (simp add: show_nat.simps [of n] of_digit_char)
  next
    case False
    with 1 have IH: "read_nat (show_nat (n div 10)) = n div 10" by simp
    have "read_nat (show_nat n) = read_nat (show_nat (n div 10)) * 10 + n mod 10"
      using False by (simp add: show_nat.simps [of n] of_digit_char)
    then show ?thesis using IH by simp
  qed
qed

lemma show_nat_inject: "show_nat m = show_nat n \<longleftrightarrow> m = n"
  by (metis read_show_nat)

lemma show_nat_digits: "set (show_nat n) \<subseteq> digit_char ` {0..<10}"
proof (induction n rule: show_nat.induct)
  case (1 n)
  show ?case
  proof (cases "n < 10")
    case True
    then show ?thesis by (simp add: show_nat.simps [of n])
  next
    case False
    with 1 have "set (show_nat (n div 10)) \<subseteq> digit_char ` {0..<10}" by simp
    then show ?thesis using False by (auto simp: show_nat.simps [of n])
  qed
qed

lemma digit_char_not_colon: "d < 10 \<Longrightarrow> digit_char d \<noteq> CHR '':''"
proof
  assume d: "d < 10" and "digit_char d = CHR '':''"
  then have "of_char (digit_char d) = (of_char (CHR '':'') :: nat)" by simp
  with d show False by (simp add: of_digit_char)
qed

lemma colon_notin_show_nat: "CHR '':'' \<notin> set (show_nat n)"
  using show_nat_digits [of n] digit_char_not_colon by fastforce

text \<open>A separator that does not occur in the first part determines the split.\<close>

lemma append_separator_inject:
  "c \<notin> set xs \<Longrightarrow> c \<notin> set ys \<Longrightarrow> xs @ c # us = ys @ c # vs \<longleftrightarrow> xs = ys \<and> us = vs"
proof (induction xs arbitrary: ys)
  case Nil
  then show ?case by (cases ys) auto
next
  case (Cons x xs)
  then show ?case by (cases ys) auto
qed

text \<open>
  \<open>AttemptId::from_request_sequence\<close> is collision-free: two Attempts get the same durable
  identity only if they are the same Attempt number of the same Request, whatever bytes
  (colons and digits included) the opaque Request identifiers contain.
\<close>

lemma attempt_id_collision_free:
  "attempt_id_from_request_sequence r1 n1 = attempt_id_from_request_sequence r2 n2
     \<longleftrightarrow> r1 = r2 \<and> n1 = n2"
proof
  assume "attempt_id_from_request_sequence r1 n1 = attempt_id_from_request_sequence r2 n2"
  then have "show_nat (length r1) @ CHR '':'' # (r1 @ CHR '':'' # show_nat n1)
      = show_nat (length r2) @ CHR '':'' # (r2 @ CHR '':'' # show_nat n2)"
    by (simp add: attempt_id_from_request_sequence_def)
  then have len: "length r1 = length r2"
    and rest: "r1 @ CHR '':'' # show_nat n1 = r2 @ CHR '':'' # show_nat n2"
    by (simp_all add: append_separator_inject colon_notin_show_nat show_nat_inject)
  from len rest show "r1 = r2 \<and> n1 = n2"
    by (simp add: show_nat_inject)
qed simp

section \<open>Raw extensions\<close>

text \<open>
  A \<open>RawJson\<close> value is its retained text; a \<open>RawExtensions\<close> namespace is an ordered map of
  such texts that never replaces a field.
\<close>

type_synonym raw_json = string
type_synonym raw_extensions = "(string, raw_json) bmap"

datatype raw_extension_error = DuplicateName

definition raw_extensions_try_insert ::
  "string \<Rightarrow> raw_json \<Rightarrow> raw_extensions \<Rightarrow> (raw_extension_error + unit) \<times> raw_extensions" where
  "raw_extensions_try_insert name val xs =
     (case bm_get xs name of
        None \<Rightarrow> (Ok (), bm_insert name val xs)
      | Some _ \<Rightarrow> (Err DuplicateName, xs))"

text \<open>The visitor of the deserializer, over the entries in document order.\<close>

fun raw_extensions_visit_map ::
  "raw_extensions \<Rightarrow> (string \<times> raw_json) list \<Rightarrow> raw_extension_error + raw_extensions" where
  "raw_extensions_visit_map vs [] = Ok vs"
| "raw_extensions_visit_map vs ((name, val) # es) =
     (if bm_get vs name \<noteq> None then Err DuplicateName
      else raw_extensions_visit_map (bm_insert name val vs) es)"

lemma raw_extensions_try_insert_ok:
  "raw_extensions_try_insert name val xs = (Ok (), ys) \<Longrightarrow>
     bm_get xs name = None \<and> bm_get ys name = Some val \<and> (\<forall>n. n \<noteq> name \<longrightarrow> bm_get ys n = bm_get xs n)"
  by (auto simp: raw_extensions_try_insert_def bm_get_insert split: option.splits)

lemma raw_extensions_visit_map_exact:
  "raw_extensions_visit_map vs es = Ok xs \<Longrightarrow> bm_ok vs \<Longrightarrow>
     distinct (map fst es) \<and> bm_ok xs \<and>
     (\<forall>n. bm_get xs n = (case bm_get es n of Some v \<Rightarrow> Some v | None \<Rightarrow> bm_get vs n)) \<and>
     (\<forall>n \<in> fst ` set es. bm_get vs n = None)"
proof (induction vs es rule: raw_extensions_visit_map.induct)
  case (1 vs)
  then show ?case by simp
next
  case (2 vs name val es)
  then have new: "bm_get vs name = None"
    and rec: "raw_extensions_visit_map (bm_insert name val vs) es = Ok xs"
    by (auto split: if_splits)
  from "2.IH" [OF _ rec] new "2.prems"(2)
  have IH: "distinct (map fst es)" "bm_ok xs"
    "\<forall>n. bm_get xs n = (case bm_get es n of Some v \<Rightarrow> Some v | None \<Rightarrow> bm_get (bm_insert name val vs) n)"
    "\<forall>n \<in> fst ` set es. bm_get (bm_insert name val vs) n = None"
    by auto
  then have fresh: "name \<notin> fst ` set es"
    by (auto simp: bm_get_insert)
  then have "bm_get es name = None"
    by (simp add: map_of_eq_None_iff)
  with IH fresh new show ?case
    by (auto simp: bm_get_insert split: option.splits if_splits)
qed

section \<open>The retry gate\<close>

text \<open>
  \<open>TransparentRetryGate\<close> is polled; each poll may return another val. A gate is the
  sequence of its answers, indexed by the number of polls made before.
\<close>

record retry_gate =
  gate_cancelled :: "nat \<Rightarrow> bool"
  gate_allows_transparent_retry :: "nat \<Rightarrow> bool"

end
