(* ===== verification/Client_Key.thy ===== *)
theory Client_Key
  imports Gateway_Core
begin

text \<open>
  Client keys (\<open>src/crates/gateway-auth/src/client_key.rs\<close>): issuance, the public prefix of a
  presented key and verification against a stored record; and the in-memory authenticator of
  \<open>src/crates/gateway-auth/src/lib.rs\<close>. HMAC-SHA-256 is a parameter \<open>hmac\<close> that maps a pepper and a
  message to a digest (\<open>None\<close>: it could not be initialised); randomness is the bytes handed to
  \<open>issue_from_random_bytes\<close>. Reading the pepper file and wiping memory are not modelled.
\<close>

unbundle bit_operations_syntax

section \<open>Strings\<close>

text \<open>\<open>str::strip_prefix\<close> and \<open>str::split_once\<close>.\<close>

fun strip_prefix :: "string \<Rightarrow> string \<Rightarrow> string option" where
  "strip_prefix [] s = Some s"
| "strip_prefix (p # ps) (c # s) = (if p = c then strip_prefix ps s else None)"
| "strip_prefix (p # ps) [] = None"

fun split_once :: "char \<Rightarrow> string \<Rightarrow> (string \<times> string) option" where
  "split_once d [] = None"
| "split_once d (c # s) =
     (if c = d then Some ([], s)
      else map_option (\<lambda>(a, b). (c # a, b)) (split_once d s))"

lemma strip_prefix_iff: "strip_prefix p s = Some r \<longleftrightarrow> s = p @ r"
  by (induction p s rule: strip_prefix.induct) auto

lemma split_once_iff: "split_once d s = Some (a, b) \<longleftrightarrow> d \<notin> set a \<and> s = a @ d # b"
proof (induction s arbitrary: a b)
  case (Cons c s)
  then show ?case by (cases a) (auto split: option.splits)
qed auto

section \<open>Data\<close>

type_synonym bytes = "8 word list"
type_synonym mac = "bytes \<Rightarrow> string \<Rightarrow> bytes option"

datatype client_key_error =
    InvalidPepperLength usize
  | InvalidPepperFile
  | PepperLoadIo
  | InvalidClientKeyPrefix
  | InvalidDigestLength usize
  | InvalidExpiryTimestamp
  | InvalidCurrentTimestamp
  | RandomnessUnavailable
  | HmacInitializationFailed

datatype client_key_status = KeyActive | KeyDisabled | KeyRevoked

record client_key_record =
  ck_client_key_id :: string
  ck_access_group_id :: string
  ck_prefix :: string
  ck_secret_digest :: bytes
  ck_status :: client_key_status
  ck_expires_at_ms :: "i64 option"

record issued_client_key =
  ik_record :: client_key_record
  ik_presented_key :: string

definition client_key_pepper_try_from_bytes :: "bytes \<Rightarrow> client_key_error + bytes" where
  "client_key_pepper_try_from_bytes bs =
     (if length bs \<noteq> 32 then Err (InvalidPepperLength (length bs)) else Ok bs)"

definition client_key_digest_try_from_persisted :: "bytes \<Rightarrow> client_key_error + bytes" where
  "client_key_digest_try_from_persisted bs =
     (if length bs \<noteq> 32 then Err (InvalidDigestLength (length bs)) else Ok bs)"

section \<open>Prefixes and hexadecimal segments\<close>

definition hex_digit :: "8 word \<Rightarrow> char" where
  "hex_digit n = ''0123456789abcdef'' ! unat n"

definition encode_lower_hex :: "bytes \<Rightarrow> string" where
  "encode_lower_hex bs = concat (map (\<lambda>b. [hex_digit (drop_bit 4 b), hex_digit (b AND 0x0F)]) bs)"

definition is_lower_hex_char :: "char \<Rightarrow> bool" where
  "is_lower_hex_char c \<longleftrightarrow> (CHR ''0'' \<le> c \<and> c \<le> CHR ''9'') \<or> (CHR ''a'' \<le> c \<and> c \<le> CHR ''f'')"

definition is_lower_hex :: "string \<Rightarrow> usize \<Rightarrow> bool" where
  "is_lower_hex s expected \<longleftrightarrow> length s = expected \<and> list_all is_lower_hex_char s"

definition client_key_prefix_try_new :: "string \<Rightarrow> client_key_error + string" where
  "client_key_prefix_try_new val =
     (case strip_prefix ''rgw'' val of
        None \<Rightarrow> Err InvalidClientKeyPrefix
      | Some segment \<Rightarrow>
          (case strip_prefix ''_'' segment of
             None \<Rightarrow> Err InvalidClientKeyPrefix
           | Some segment' \<Rightarrow>
               if \<not> is_lower_hex segment' 16 then Err InvalidClientKeyPrefix else Ok val))"

definition client_key_prefix_from_segment :: "string \<Rightarrow> client_key_error + string" where
  "client_key_prefix_from_segment segment = client_key_prefix_try_new (''rgw'' @ ''_'' @ segment)"

definition parse_presented_key_prefix :: "string \<Rightarrow> client_key_error + string" where
  "parse_presented_key_prefix presented =
     (case strip_prefix ''rgw'' presented of
        None \<Rightarrow> Err InvalidClientKeyPrefix
      | Some remainder \<Rightarrow>
     (case strip_prefix ''_'' remainder of
        None \<Rightarrow> Err InvalidClientKeyPrefix
      | Some remainder' \<Rightarrow>
     (case split_once CHR ''_'' remainder' of
        None \<Rightarrow> Err InvalidClientKeyPrefix
      | Some (prefix_segment, secret_segment) \<Rightarrow>
          if CHR ''_'' \<in> set secret_segment \<or> \<not> is_lower_hex prefix_segment 16
             \<or> \<not> is_lower_hex secret_segment 64
          then Err InvalidClientKeyPrefix
          else client_key_prefix_from_segment prefix_segment)))"

section \<open>Records, issuance and verification\<close>

definition validate_expiry :: "i64 option \<Rightarrow> client_key_error + unit" where
  "validate_expiry e =
     (case e of
        Some x \<Rightarrow> if x < 0 then Err InvalidExpiryTimestamp else Ok ()
      | None \<Rightarrow> Ok ())"

definition validate_now :: "i64 \<Rightarrow> client_key_error + unit" where
  "validate_now now = (if now < 0 then Err InvalidCurrentTimestamp else Ok ())"

definition client_key_record_try_new ::
  "string \<Rightarrow> string \<Rightarrow> string \<Rightarrow> bytes \<Rightarrow> client_key_status \<Rightarrow> i64 option \<Rightarrow>
     client_key_error + client_key_record" where
  "client_key_record_try_new key_id access_group prefix digest status expires =
     (case validate_expiry expires of
        Inl e \<Rightarrow> Err e
      | Inr _ \<Rightarrow>
          Ok \<lparr>ck_client_key_id = key_id, ck_access_group_id = access_group, ck_prefix = prefix,
              ck_secret_digest = digest, ck_status = status, ck_expires_at_ms = expires\<rparr>)"

definition set_status :: "client_key_status \<Rightarrow> client_key_record \<Rightarrow> client_key_record" where
  "set_status status r = r\<lparr>ck_status := status\<rparr>"

definition permits_at :: "client_key_record \<Rightarrow> i64 \<Rightarrow> bool" where
  "permits_at r now \<longleftrightarrow>
     ck_status r = KeyActive \<and> (case ck_expires_at_ms r of Some x \<Rightarrow> now < x | None \<Rightarrow> True)"

definition key_digest :: "mac \<Rightarrow> bytes \<Rightarrow> string \<Rightarrow> client_key_error + bytes" where
  "key_digest hmac pepper presented = ok_or HmacInitializationFailed (hmac pepper presented)"

definition issue_from_random_bytes ::
  "mac \<Rightarrow> bytes \<Rightarrow> string \<Rightarrow> string \<Rightarrow> i64 option \<Rightarrow> bytes \<Rightarrow> bytes \<Rightarrow>
     client_key_error + issued_client_key" where
  "issue_from_random_bytes hmac pepper key_id access_group expires prefix_bytes secret_bytes =
     (case client_key_prefix_from_segment (encode_lower_hex prefix_bytes) of
        Inl e \<Rightarrow> Err e
      | Inr prefix \<Rightarrow>
     (let presented = ''rgw'' @ ''_'' @ encode_lower_hex prefix_bytes @ ''_'' @ encode_lower_hex secret_bytes in
      case key_digest hmac pepper presented of
        Inl e \<Rightarrow> Err e
      | Inr digest \<Rightarrow>
     (case client_key_record_try_new key_id access_group prefix digest KeyActive expires of
        Inl e \<Rightarrow> Err e
      | Inr r \<Rightarrow> Ok \<lparr>ik_record = r, ik_presented_key = presented\<rparr>)))"

text \<open>\<open>ClientKeyService::issue\<close>; the two draws of random bytes are arguments (\<open>None\<close>: unavailable).\<close>

definition client_key_issue ::
  "mac \<Rightarrow> bytes \<Rightarrow> string \<Rightarrow> string \<Rightarrow> i64 option \<Rightarrow> bytes option \<Rightarrow> bytes option \<Rightarrow>
     client_key_error + issued_client_key" where
  "client_key_issue hmac pepper key_id access_group expires random8 random32 =
     (case validate_expiry expires of
        Inl e \<Rightarrow> Err e
      | Inr _ \<Rightarrow>
     (case random8 of
        None \<Rightarrow> Err RandomnessUnavailable
      | Some prefix_bytes \<Rightarrow>
     (case random32 of
        None \<Rightarrow> Err RandomnessUnavailable
      | Some secret_bytes \<Rightarrow>
          issue_from_random_bytes hmac pepper key_id access_group expires prefix_bytes secret_bytes)))"

definition client_key_verify ::
  "mac \<Rightarrow> bytes \<Rightarrow> string \<Rightarrow> client_key_record \<Rightarrow> i64 \<Rightarrow> client_key_error + bool" where
  "client_key_verify hmac pepper presented r now =
     (case validate_now now of
        Inl e \<Rightarrow> Err e
      | Inr _ \<Rightarrow>
     (case parse_presented_key_prefix presented of
        Inl _ \<Rightarrow> Ok False
      | Inr parsed \<Rightarrow>
          if parsed \<noteq> ck_prefix r then Ok False
          else (case key_digest hmac pepper presented of
                  Inl e \<Rightarrow> Err e
                | Inr digest \<Rightarrow> Ok (digest = ck_secret_digest r \<and> permits_at r now))))"

section \<open>The in-memory authenticator\<close>

record authenticated_client =
  ac_client_key_id :: string
  ac_access_group_id :: "string option"

record in_memory_client_key =
  mk_presented_key :: string
  mk_client_key_id :: string
  mk_enabled :: bool

datatype in_memory_client_key_config_error = EmptyPresentedKey | DuplicatePresentedKey

definition in_memory_client_key_try_new ::
  "string \<Rightarrow> string \<Rightarrow> bool \<Rightarrow> in_memory_client_key_config_error + in_memory_client_key" where
  "in_memory_client_key_try_new presented key_id enabled =
     (if presented = [] then Err EmptyPresentedKey
      else Ok \<lparr>mk_presented_key = presented, mk_client_key_id = key_id, mk_enabled = enabled\<rparr>)"

fun in_memory_insert_all ::
  "in_memory_client_key list \<Rightarrow> (string, string \<times> bool) bmap \<Rightarrow>
     in_memory_client_key_config_error + (string, string \<times> bool) bmap" where
  "in_memory_insert_all [] entries = Ok entries"
| "in_memory_insert_all (k # ks) entries =
     (if bm_get entries (mk_presented_key k) \<noteq> None then Err DuplicatePresentedKey
      else in_memory_insert_all ks
             (bm_insert (mk_presented_key k) (mk_client_key_id k, mk_enabled k) entries))"

definition in_memory_authenticator_try_new ::
  "in_memory_client_key list \<Rightarrow>
     in_memory_client_key_config_error + (string, string \<times> bool) bmap" where
  "in_memory_authenticator_try_new ks = in_memory_insert_all ks []"

definition client_unauthorized_error :: gateway_error where
  "client_unauthorized_error = gateway_error_new ClientUnauthorized RequestScope"

definition in_memory_authenticate ::
  "(string, string \<times> bool) bmap \<Rightarrow> string \<Rightarrow> gateway_error + authenticated_client" where
  "in_memory_authenticate entries presented =
     (case bm_get entries presented of
        None \<Rightarrow> Err client_unauthorized_error
      | Some (key_id, enabled) \<Rightarrow>
          if \<not> enabled then Err client_unauthorized_error
          else Ok \<lparr>ac_client_key_id = key_id, ac_access_group_id = None\<rparr>)"

section \<open>Hexadecimal segments\<close>

lemma hex_table:
  assumes "n < 16"
  shows "is_lower_hex_char (''0123456789abcdef'' ! n)"
    and "m < 16 \<Longrightarrow> ''0123456789abcdef'' ! m = ''0123456789abcdef'' ! n \<Longrightarrow> m = n"
proof -
  have "list_all is_lower_hex_char ''0123456789abcdef''" by code_simp
  then show "is_lower_hex_char (''0123456789abcdef'' ! n)"
    using assms by (simp only: list_all_length) simp
  have "distinct ''0123456789abcdef''" and "length ''0123456789abcdef'' = 16" by simp_all
  then show "m < 16 \<Longrightarrow> ''0123456789abcdef'' ! m = ''0123456789abcdef'' ! n \<Longrightarrow> m = n"
    using assms nth_eq_iff_index_eq [of "''0123456789abcdef''" m n] by metis
qed

lemma nibbles: "unat (drop_bit 4 (b :: 8 word)) = unat b div 16" "unat (b AND 0x0F) = unat b mod 16"
proof -
  show "unat (drop_bit 4 b) = unat b div 16" by (simp add: drop_bit_eq_div unat_div_distrib)
  have "b AND 0x0F = take_bit 4 b" by (simp add: take_bit_eq_mask mask_eq_exp_minus_1)
  then show "unat (b AND 0x0F) = unat b mod 16" by (simp add: take_bit_eq_mod unat_mod_distrib)
qed

lemma nibble_bounds: "unat (drop_bit 4 (b :: 8 word)) < 16" "unat (b AND 0x0F) < 16"
proof -
  have "unat b < 2 ^ LENGTH(8)" by (rule unsigned_less)
  then have "unat b < 256" by simp
  then show "unat (drop_bit 4 b) < 16" "unat (b AND 0x0F) < 16" unfolding nibbles by simp_all
qed

lemma hex_digits_inj:
  assumes "hex_digit (drop_bit 4 a) = hex_digit (drop_bit 4 b)"
    and "hex_digit (a AND 0x0F) = hex_digit (b AND 0x0F)"
  shows "a = (b :: 8 word)"
proof -
  have "unat (drop_bit 4 a) = unat (drop_bit 4 b)" "unat (a AND 0x0F) = unat (b AND 0x0F)"
    using assms nibble_bounds hex_table(2) unfolding hex_digit_def by blast+
  then have "unat a = unat b" unfolding nibbles by (metis div_mult_mod_eq)
  then show ?thesis by (simp add: word_unat_eq_iff)
qed

lemma encode_lower_hex_is_hex: "is_lower_hex (encode_lower_hex bs) (2 * length bs)"
  by (induction bs)
    (auto simp: encode_lower_hex_def is_lower_hex_def hex_digit_def hex_table(1) nibble_bounds)

lemma encode_lower_hex_inj: "encode_lower_hex xs = encode_lower_hex ys \<Longrightarrow> xs = ys"
proof (induction xs arbitrary: ys)
  case Nil
  then show ?case by (cases ys) (auto simp: encode_lower_hex_def)
next
  case (Cons x xs)
  then show ?case
    by (cases ys) (auto simp: encode_lower_hex_def dest: hex_digits_inj)
qed

lemma lower_hex_no_separator: "is_lower_hex s n \<Longrightarrow> CHR ''_'' \<notin> set s"
proof -
  assume "is_lower_hex s n"
  moreover have "\<not> is_lower_hex_char CHR ''_''" by code_simp
  ultimately show ?thesis by (auto simp: is_lower_hex_def list_all_iff)
qed

section \<open>What a presented key is\<close>

lemma client_key_prefix_iff:
  "client_key_prefix_try_new v = Inr p \<longleftrightarrow> p = v \<and> (\<exists>h. v = ''rgw_'' @ h \<and> is_lower_hex h 16)"
proof (cases "strip_prefix ''rgw'' v")
  case None
  then show ?thesis using strip_prefix_iff [of "''rgw''" v] by (auto simp: client_key_prefix_try_new_def)
next
  case (Some r)
  then have v: "v = ''rgw'' @ r" by (simp only: strip_prefix_iff)
  show ?thesis
  proof (cases "strip_prefix ''_'' r")
    case None
    then show ?thesis using Some strip_prefix_iff [of "''_''" r]
      by (auto simp: client_key_prefix_try_new_def v simp del: strip_prefix.simps)
  next
    case (Some h)
    then have "r = ''_'' @ h" by (simp only: strip_prefix_iff)
    then show ?thesis using \<open>strip_prefix ''rgw'' v = Some r\<close> Some
      by (auto simp: client_key_prefix_try_new_def v simp del: strip_prefix.simps)
  qed
qed

lemma client_key_prefix_from_segment_iff:
  "client_key_prefix_from_segment h = Inr p \<longleftrightarrow> p = ''rgw_'' @ h \<and> is_lower_hex h 16"
  by (auto simp: client_key_prefix_from_segment_def client_key_prefix_iff)

lemma parse_presented_key_iff:
  "parse_presented_key_prefix v = Inr p \<longleftrightarrow>
     (\<exists>h s. v = ''rgw_'' @ h @ ''_'' @ s \<and> is_lower_hex h 16 \<and> is_lower_hex s 64 \<and> p = ''rgw_'' @ h)"
proof
  assume "parse_presented_key_prefix v = Inr p"
  then show "\<exists>h s. v = ''rgw_'' @ h @ ''_'' @ s \<and> is_lower_hex h 16 \<and> is_lower_hex s 64 \<and> p = ''rgw_'' @ h"
    by (auto simp: parse_presented_key_prefix_def strip_prefix_iff split_once_iff
        client_key_prefix_from_segment_iff split: option.splits if_splits)
next
  assume "\<exists>h s. v = ''rgw_'' @ h @ ''_'' @ s \<and> is_lower_hex h 16 \<and> is_lower_hex s 64 \<and> p = ''rgw_'' @ h"
  then obtain h s where v: "v = ''rgw_'' @ h @ ''_'' @ s" "is_lower_hex h 16" "is_lower_hex s 64" "p = ''rgw_'' @ h"
    by blast
  have "strip_prefix ''rgw'' v = Some (''_'' @ h @ ''_'' @ s)" "strip_prefix ''_'' (''_'' @ h @ ''_'' @ s) = Some (h @ ''_'' @ s)"
    "split_once CHR ''_'' (h @ ''_'' @ s) = Some (h, s)"
    using v lower_hex_no_separator by (simp_all add: split_once_iff)
  then show "parse_presented_key_prefix v = Inr p"
    using v lower_hex_no_separator
    by (simp add: parse_presented_key_prefix_def client_key_prefix_from_segment_iff del: strip_prefix.simps)
qed

section \<open>Properties of client keys\<close>

lemma issue_iff:
  assumes "length prefix_bytes = 8" "length secret_bytes = 32"
  shows "issue_from_random_bytes hmac pepper key_id access_group expires prefix_bytes secret_bytes = Inr ik \<longleftrightarrow>
    (\<exists>d. hmac pepper (ik_presented_key ik) = Some d \<and> validate_expiry expires = Inr () \<and>
      ik_presented_key ik = ''rgw_'' @ encode_lower_hex prefix_bytes @ ''_'' @ encode_lower_hex secret_bytes \<and>
      ik_record ik = \<lparr>ck_client_key_id = key_id, ck_access_group_id = access_group,
        ck_prefix = ''rgw_'' @ encode_lower_hex prefix_bytes, ck_secret_digest = d, ck_status = KeyActive,
        ck_expires_at_ms = expires\<rparr>)"
proof -
  have "client_key_prefix_from_segment (encode_lower_hex prefix_bytes) = Inr (''rgw_'' @ encode_lower_hex prefix_bytes)"
    using encode_lower_hex_is_hex [of prefix_bytes] assms(1) by (simp add: client_key_prefix_from_segment_iff)
  then show ?thesis
    by (cases ik) (auto simp: issue_from_random_bytes_def key_digest_def client_key_record_try_new_def Let_def
        split: sum.splits option.splits)
qed

lemma issued_key_parses:
  assumes "length prefix_bytes = 8" "length secret_bytes = 32"
  shows "parse_presented_key_prefix
      (''rgw_'' @ encode_lower_hex prefix_bytes @ ''_'' @ encode_lower_hex secret_bytes)
    = Inr (''rgw_'' @ encode_lower_hex prefix_bytes)"
  using encode_lower_hex_is_hex [of prefix_bytes] encode_lower_hex_is_hex [of secret_bytes] assms
  by (subst parse_presented_key_iff) auto

text \<open>
  C40: A key issued from 8 and 32 random bytes round-trips: its public prefix parses back to the
  prefix of its record, and verifying the presented key against the record at a non-negative time
  succeeds exactly until the expiry; different random bytes give different presented keys.
\<close>

theorem issued_client_key_verifies:
  assumes "length prefix_bytes = 8" "length secret_bytes = 32" "0 \<le> now"
    and "issue_from_random_bytes hmac pepper key_id access_group expires prefix_bytes secret_bytes = Inr ik"
  shows "parse_presented_key_prefix (ik_presented_key ik) = Inr (ck_prefix (ik_record ik)) \<and>
    client_key_verify hmac pepper (ik_presented_key ik) (ik_record ik) now
      = Inr (case expires of None \<Rightarrow> True | Some x \<Rightarrow> now < x) \<and>
    (\<forall>pb sb ik' key_id' access_group' expires'. length pb = 8 \<longrightarrow> length sb = 32 \<longrightarrow>
      issue_from_random_bytes hmac pepper key_id' access_group' expires' pb sb = Inr ik' \<longrightarrow>
      ik_presented_key ik' = ik_presented_key ik \<longrightarrow> pb = prefix_bytes \<and> sb = secret_bytes)"
proof (intro conjI allI impI)
  obtain d where d: "hmac pepper (ik_presented_key ik) = Some d"
    "ik_presented_key ik = ''rgw_'' @ encode_lower_hex prefix_bytes @ ''_'' @ encode_lower_hex secret_bytes"
    "ik_record ik = \<lparr>ck_client_key_id = key_id, ck_access_group_id = access_group,
        ck_prefix = ''rgw_'' @ encode_lower_hex prefix_bytes, ck_secret_digest = d, ck_status = KeyActive,
        ck_expires_at_ms = expires\<rparr>"
    using assms(4) unfolding issue_iff [OF assms(1,2)] by blast
  show parse: "parse_presented_key_prefix (ik_presented_key ik) = Inr (ck_prefix (ik_record ik))"
    using issued_key_parses [OF assms(1,2)] by (simp add: d)
  show "client_key_verify hmac pepper (ik_presented_key ik) (ik_record ik) now
      = Inr (case expires of None \<Rightarrow> True | Some x \<Rightarrow> now < x)"
    using parse assms(3) d(1) by (simp add: client_key_verify_def validate_now_def key_digest_def permits_at_def d(3))
  fix pb sb ik' key_id' access_group' expires'
  assume "length pb = 8" "length sb = 32" "ik_presented_key ik' = ik_presented_key ik"
    "issue_from_random_bytes hmac pepper key_id' access_group' expires' pb sb = Inr ik'"
  then have "encode_lower_hex pb @ ''_'' @ encode_lower_hex sb
      = encode_lower_hex prefix_bytes @ ''_'' @ encode_lower_hex secret_bytes"
    using d(2) issue_iff [of pb sb] by auto
  moreover have "length (encode_lower_hex pb) = length (encode_lower_hex prefix_bytes)"
    using encode_lower_hex_is_hex [of pb] encode_lower_hex_is_hex [of prefix_bytes] assms(1) \<open>length pb = 8\<close>
    by (simp add: is_lower_hex_def)
  ultimately show "pb = prefix_bytes" "sb = secret_bytes" by (auto dest: encode_lower_hex_inj)
qed

definition sample_hmac :: mac where
  "sample_hmac pepper message = Some (take 32 (pepper @ map (\<lambda>c. word_of_nat (of_char c)) (rev message)))"

theorem issued_client_key_verifies_witness:
  "client_key_verify sample_hmac [1]
     (ik_presented_key (projr (issue_from_random_bytes sample_hmac [1] ''k'' ''g'' (Some 100) (replicate 8 7) (replicate 32 255))))
     (ik_record (projr (issue_from_random_bytes sample_hmac [1] ''k'' ''g'' (Some 100) (replicate 8 7) (replicate 32 255)))) 99
   = Inr True"
proof -
  let ?r = "issue_from_random_bytes sample_hmac [1] ''k'' ''g'' (Some 100) (replicate 8 7) (replicate 32 255)"
  have len: "length (replicate 8 (7 :: 8 word)) = 8" "length (replicate 32 (255 :: 8 word)) = 32" "(0 :: int) \<le> 99"
    by simp_all
  have "\<exists>ik. ?r = Inr ik"
    unfolding issue_iff [OF len(1,2)]
    by (rule exI [of _ "\<lparr>ik_record = \<lparr>ck_client_key_id = ''k'', ck_access_group_id = ''g'',
        ck_prefix = ''rgw_'' @ encode_lower_hex (replicate 8 7),
        ck_secret_digest = the (sample_hmac [1] (''rgw_'' @ encode_lower_hex (replicate 8 7) @ ''_'' @ encode_lower_hex (replicate 32 255))),
        ck_status = KeyActive, ck_expires_at_ms = Some 100\<rparr>,
        ik_presented_key = ''rgw_'' @ encode_lower_hex (replicate 8 7) @ ''_'' @ encode_lower_hex (replicate 32 255)\<rparr>"])
      (simp add: sample_hmac_def validate_expiry_def)
  then obtain ik where ik: "?r = Inr ik" by blast
  from issued_client_key_verifies [OF len ik] ik show ?thesis by simp
qed

text \<open>
  C22: Verification accepts a presented key exactly when the clock is valid, the key has the canonical
  form \<open>rgw_\<close>, 16 hexadecimal digits, \<open>_\<close>, 64 hexadecimal digits with the record's own prefix, its
  HMAC equals the stored digest and the record is active and unexpired; a disabled, revoked or expired
  record is never accepted, and a malformed key is refused without an error.
\<close>

theorem client_key_verify_accepts_exactly:
  "client_key_verify hmac pepper presented r now = Inr True \<longleftrightarrow>
     0 \<le> now \<and>
     (\<exists>h s. presented = ''rgw_'' @ h @ ''_'' @ s \<and> is_lower_hex h 16 \<and> is_lower_hex s 64 \<and>
        ck_prefix r = ''rgw_'' @ h) \<and>
     hmac pepper presented = Some (ck_secret_digest r) \<and>
     ck_status r = KeyActive \<and> (case ck_expires_at_ms r of None \<Rightarrow> True | Some x \<Rightarrow> now < x)"
proof (cases "parse_presented_key_prefix presented")
  case (Inl e)
  then have "\<nexists>h s. presented = ''rgw_'' @ h @ ''_'' @ s \<and> is_lower_hex h 16 \<and> is_lower_hex s 64"
    using parse_presented_key_iff [of presented] by auto
  then show ?thesis using Inl by (auto simp: client_key_verify_def validate_now_def)
next
  case (Inr p)
  have form: "(\<exists>h s. presented = ''rgw_'' @ h @ ''_'' @ s \<and> is_lower_hex h 16 \<and> is_lower_hex s 64 \<and>
      ck_prefix r = ''rgw_'' @ h) \<longleftrightarrow> p = ck_prefix r"
    unfolding parse_presented_key_iff [symmetric] using Inr by auto
  show ?thesis unfolding form using Inr
    by (auto simp: client_key_verify_def validate_now_def key_digest_def permits_at_def ok_or_def
        split: option.splits)
qed

end
