(* ===== verification/Sharded_Registry.thy ===== *)
theory Sharded_Registry
  imports Gateway_Prelude
begin

text \<open>
  The sharded stores the runtime registries are built on: a fixed power-of-two number of
  independently locked ordered maps, chosen by the hash of the key
  (\<open>build_shards\<close>, \<open>validate_shard_count\<close>, \<open>shard_index\<close>, \<open>read_shard\<close> and \<open>write_shard\<close> of
  \<open>runtime_health.rs\<close>, \<open>runtime_quota.rs\<close> and \<open>runtime_probe.rs\<close> under
  \<open>src/crates/gateway-router/src/\<close>, which are the same code at three types). A lock is the flag
  that says whether a panic has poisoned it; \<open>DefaultHasher\<close> is a function of the key. The locale
  \<open>blocking_registry\<close> carries the argument that a block survives every sequence of operations that does not lift it.
\<close>

section \<open>Shards\<close>

record ('k, 'v) shard =
  sh_map :: "('k, 'v) bmap"
  sh_poisoned :: bool

type_synonym ('k, 'v) shards = "('k, 'v) shard list"
type_synonym 'k hasher = "'k \<Rightarrow> 64 word"

datatype shard_count_error = ZeroShardCount | NonPowerOfTwoShardCount | TooManyShards

definition is_power_of_two :: "usize \<Rightarrow> bool" where
  "is_power_of_two n \<longleftrightarrow> n \<in> set (map (\<lambda>e. 2 ^ e) [0..<64])"

definition validate_shard_count :: "usize \<Rightarrow> usize \<Rightarrow> shard_count_error + unit" where
  "validate_shard_count maximum n =
     (if n = 0 then Err ZeroShardCount
      else if \<not> is_power_of_two n then Err NonPowerOfTwoShardCount
      else if maximum < n then Err TooManyShards
      else Ok ())"

definition build_shards :: "usize \<Rightarrow> ('k, 'v) shards" where
  "build_shards n = replicate n \<lparr>sh_map = [], sh_poisoned = False\<rparr>"

definition shard_index :: "'k hasher \<Rightarrow> ('k, 'v) shards \<Rightarrow> 'k \<Rightarrow> usize" where
  "shard_index hash shards k = unat (hash k AND of_nat (length shards - 1))"

text \<open>Taking the lock of a key's shard (\<open>None\<close> when it is poisoned) and writing the guarded map back.\<close>

definition lock_shard :: "'k hasher \<Rightarrow> ('k, 'v) shards \<Rightarrow> 'k \<Rightarrow> ('k, 'v) bmap option" where
  "lock_shard hash shards k =
     (let sh = shards ! shard_index hash shards k in if sh_poisoned sh then None else Some (sh_map sh))"

definition store_shard :: "'k hasher \<Rightarrow> 'k \<Rightarrow> ('k, 'v) bmap \<Rightarrow> ('k, 'v) shards \<Rightarrow> ('k, 'v) shards" where
  "store_shard hash k states shards =
     (let i = shard_index hash shards k in shards[i := (shards ! i)\<lparr>sh_map := states\<rparr>])"

text \<open>\<open>entry_count\<close>: reads every shard, saturating.\<close>

fun count_entries :: "('k, 'v) shards \<Rightarrow> nat \<Rightarrow> nat option" where
  "count_entries [] count = Some count"
| "count_entries (sh # shards) count =
     (if sh_poisoned sh then None
      else count_entries shards (min (count + length (sh_map sh)) (2 ^ 64 - 1)))"

section \<open>The view of a sharded store as one map\<close>

definition shards_get :: "'k hasher \<Rightarrow> ('k, 'v) shards \<Rightarrow> 'k \<Rightarrow> 'v option" where
  "shards_get hash shards k = bm_get (sh_map (shards ! shard_index hash shards k)) k"

text \<open>
  The store invariant: a power-of-two number of shards, each an ordered map of bounded size that
  holds only keys that hash to it.
\<close>

definition shards_ok :: "usize \<Rightarrow> 'k::linorder hasher \<Rightarrow> ('k, 'v) shards \<Rightarrow> bool" where
  "shards_ok capacity hash shards \<longleftrightarrow>
     is_power_of_two (length shards) \<and>
     (\<forall>i < length shards. bm_ok (sh_map (shards ! i)) \<and> length (sh_map (shards ! i)) \<le> capacity \<and>
        (\<forall>k \<in> fst ` set (sh_map (shards ! i)). shard_index hash shards k = i))"

lemma is_power_of_two_iff: "is_power_of_two n \<longleftrightarrow> (\<exists>e < 64. n = 2 ^ e)"
  by (auto simp: is_power_of_two_def image_iff Bex_def)

lemma shard_index_lt:
  assumes "is_power_of_two (length shards)"
  shows "shard_index hash shards k < length shards"
proof -
  have pos: "0 < length shards" using assms by (auto simp: is_power_of_two_iff)
  have small: "unat (of_nat n :: 64 word) \<le> n" for n by (simp add: unat_of_nat)
  have "unat (hash k AND of_nat (length shards - 1)) \<le> unat (of_nat (length shards - 1) :: 64 word)"
    using word_and_le1 word_le_nat_alt by blast
  also have "\<dots> \<le> length shards - 1" by (rule small)
  finally show ?thesis unfolding shard_index_def using pos by linarith
qed

lemma shard_index_store [simp]: "shard_index hash (store_shard hash j m shards) k = shard_index hash shards k"
  by (simp add: shard_index_def store_shard_def Let_def)

lemma length_store [simp]: "length (store_shard hash j m shards) = length shards"
  by (simp add: store_shard_def Let_def)

lemma store_shard_poisoned: "map sh_poisoned (store_shard hash k m shards) = map sh_poisoned shards"
proof (rule nth_equalityI)
  fix i assume "i < length (map sh_poisoned (store_shard hash k m shards))"
  then show "map sh_poisoned (store_shard hash k m shards) ! i = map sh_poisoned shards ! i"
    by (cases "i = shard_index hash shards k") (simp_all add: store_shard_def Let_def)
qed simp

lemma lock_shard_Some:
  "lock_shard hash shards k = Some m \<Longrightarrow> m = sh_map (shards ! shard_index hash shards k)"
  by (simp add: lock_shard_def Let_def split: if_splits)

lemma lock_shard_get: "lock_shard hash shards k = Some m \<Longrightarrow> bm_get m k = shards_get hash shards k"
  by (auto dest: lock_shard_Some simp: shards_get_def)

lemma shards_get_store:
  assumes "shards_ok capacity hash shards"
  shows "shards_get hash (store_shard hash k m shards) j =
    (if shard_index hash shards j = shard_index hash shards k then bm_get m j else shards_get hash shards j)"
  using shard_index_lt [of shards hash k] assms
  by (simp add: shards_get_def shards_ok_def) (simp add: store_shard_def Let_def nth_list_update)

lemma shards_ok_lock:
  assumes "shards_ok capacity hash shards" "lock_shard hash shards k = Some m"
  shows "bm_ok m" "length m \<le> capacity" "bm_get m j \<noteq> None \<Longrightarrow> shard_index hash shards j = shard_index hash shards k"
    "shard_index hash shards j = shard_index hash shards k \<Longrightarrow> bm_get m j = shards_get hash shards j"
proof -
  have i: "shard_index hash shards k < length shards" using assms(1) by (intro shard_index_lt) (simp add: shards_ok_def)
  have m: "m = sh_map (shards ! shard_index hash shards k)" using assms(2) by (rule lock_shard_Some)
  show "bm_ok m" "length m \<le> capacity" using assms(1) i by (auto simp: shards_ok_def m)
  show "shard_index hash shards j = shard_index hash shards k" if "bm_get m j \<noteq> None"
  proof -
    have "j \<in> fst ` set m" using that by (force dest: map_of_SomeD)
    then show ?thesis using assms(1) i unfolding m shards_ok_def by blast
  qed
  show "bm_get m j = shards_get hash shards j" if "shard_index hash shards j = shard_index hash shards k"
    using that by (simp add: shards_get_def m)
qed

text \<open>Writing back a map of the same shard, no larger than the capacity, keeps the invariant.\<close>

lemma shards_ok_store:
  assumes ok: "shards_ok capacity hash shards" and m: "bm_ok m" "length m \<le> capacity"
    and here: "\<And>j. bm_get m j \<noteq> None \<Longrightarrow> shard_index hash shards j = shard_index hash shards k"
  shows "shards_ok capacity hash (store_shard hash k m shards)"
proof -
  let ?i = "shard_index hash shards k"
  have "shard_index hash shards j = ?i" if "j \<in> fst ` set m" for j
  proof -
    have "bm_get m j \<noteq> None" using that by (auto simp: map_of_eq_None_iff)
    then show ?thesis by (rule here)
  qed
  moreover have "store_shard hash k m shards ! i = (if i = ?i then (shards ! i)\<lparr>sh_map := m\<rparr> else shards ! i)"
    if "i < length shards" for i using that by (simp add: store_shard_def Let_def nth_list_update)
  ultimately show ?thesis using ok m by (simp add: shards_ok_def)
qed

lemma build_shards_ok:
  assumes "validate_shard_count maximum n = Inr ()"
  shows "shards_ok capacity hash (build_shards n :: ('k::linorder, 'v) shards)"
  using assms by (auto simp: shards_ok_def build_shards_def validate_shard_count_def split: if_splits)

lemma shards_get_build:
  assumes "validate_shard_count maximum n = Inr ()"
  shows "shards_get hash (build_shards n :: ('k, 'v) shards) k = None"
proof -
  have "is_power_of_two (length (build_shards n :: ('k, 'v) shards))"
    using assms by (simp add: validate_shard_count_def build_shards_def split: if_splits)
  from shard_index_lt [OF this, of hash k] show ?thesis
    by (simp add: shards_get_def build_shards_def)
qed

lemma count_entries_le:
  assumes "count_entries shards n = Some c" "\<forall>sh \<in> set shards. length (sh_map sh) \<le> capacity"
  shows "c \<le> n + length shards * capacity"
  using assms
proof (induction shards arbitrary: n)
  case (Cons sh shards)
  then have "c \<le> min (n + length (sh_map sh)) (2 ^ 64 - 1) + length shards * capacity"
    by (auto split: if_splits)
  also have "\<dots> \<le> n + length (sh_map sh) + length shards * capacity" by simp
  finally show ?case using Cons.prems(2) by auto
qed simp

section \<open>The effect of one registry operation\<close>

text \<open>
  A successful write to one key sets that key's entry; making room for a new entry may also evict
  entries that \<open>droppable\<close> holds of. Every other key keeps its entry.
\<close>

definition entry_effect ::
  "('v \<Rightarrow> bool) \<Rightarrow> 'k \<Rightarrow> 'v option \<Rightarrow> ('k \<Rightarrow> 'v option) \<Rightarrow> ('k \<Rightarrow> 'v option) \<Rightarrow> bool" where
  "entry_effect droppable k v g g' \<longleftrightarrow>
     g' k = v \<and> (\<forall>j. j \<noteq> k \<longrightarrow> g' j = g j \<or> (\<exists>x. g j = Some x \<and> droppable x \<and> g' j = None))"

lemma entry_effect_refl: "entry_effect droppable k (g k) g g"
  by (simp add: entry_effect_def)

lemma store_insert:
  assumes ok: "shards_ok capacity hash shards" and m: "lock_shard hash shards k = Some m"
    and room: "shards_get hash shards k \<noteq> None \<or> length m < capacity"
  shows "shards_ok capacity hash (store_shard hash k (bm_insert k v m) shards)"
    "entry_effect droppable k (Some v) (shards_get hash shards)
       (shards_get hash (store_shard hash k (bm_insert k v m) shards))"
proof -
  note l = shards_ok_lock [OF ok m]
  have "length (bm_insert k v m) \<le> capacity"
    using room l(2) lock_shard_get [OF m] by (intro bm.len_put_bounded) (auto simp: l(1))
  then show "shards_ok capacity hash (store_shard hash k (bm_insert k v m) shards)"
    using l(1,3) by (intro shards_ok_store [OF ok]) (auto simp: bm_get_insert split: if_splits)
  show "entry_effect droppable k (Some v) (shards_get hash shards)
       (shards_get hash (store_shard hash k (bm_insert k v m) shards))"
    unfolding entry_effect_def shards_get_store [OF ok] by (simp add: bm_get_insert l(4))
qed

lemma store_remove:
  assumes ok: "shards_ok capacity hash shards" and m: "lock_shard hash shards k = Some m"
  shows "shards_ok capacity hash (store_shard hash k (bm_remove k m) shards)"
    "entry_effect droppable k None (shards_get hash shards)
       (shards_get hash (store_shard hash k (bm_remove k m) shards))"
proof -
  note l = shards_ok_lock [OF ok m]
  have "length (bm_remove k m) \<le> capacity" using bm.len_del_le [OF l(1), of k] l(2) by simp
  then show "shards_ok capacity hash (store_shard hash k (bm_remove k m) shards)"
    using l(1,3) by (intro shards_ok_store [OF ok]) (auto simp: bm_get_remove split: if_splits)
  show "entry_effect droppable k None (shards_get hash shards)
       (shards_get hash (store_shard hash k (bm_remove k m) shards))"
    unfolding entry_effect_def shards_get_store [OF ok] by (simp add: bm_get_remove l(4))
qed

text \<open>Reclaiming the droppable entries of the shard, alone or before an insertion.\<close>

lemma store_retain:
  assumes ok: "shards_ok capacity hash shards" and m: "lock_shard hash shards k = Some m"
    and new: "shards_get hash shards k = None" and keep: "\<And>j x. keep j x \<longleftrightarrow> \<not> droppable x"
  shows "shards_ok capacity hash (store_shard hash k (bm_retain keep m) shards)"
    "entry_effect droppable k None (shards_get hash shards)
       (shards_get hash (store_shard hash k (bm_retain keep m) shards))"
    "length (bm_retain keep m) < capacity \<Longrightarrow>
       shards_ok capacity hash (store_shard hash k (bm_insert k v (bm_retain keep m)) shards)"
    "entry_effect droppable k (Some v) (shards_get hash shards)
       (shards_get hash (store_shard hash k (bm_insert k v (bm_retain keep m)) shards))"
proof -
  note l = shards_ok_lock [OF ok m]
  have kept: "bm_get (bm_retain keep m) j = (case bm_get m j of None \<Rightarrow> None | Some x \<Rightarrow> if droppable x then None else Some x)"
    for j using keep by (simp add: bm_get_retain [OF l(1)] split: option.splits)
  have here: "bm_get (bm_retain keep m) j \<noteq> None \<Longrightarrow> shard_index hash shards j = shard_index hash shards k" for j
    using l(3) [of j] by (auto simp: kept split: option.splits)
  have len: "length (bm_retain keep m) \<le> length m" by (simp add: bm_retain_def)
  have inv: "bm_ok (bm_retain keep m)" using l(1) by simp
  show "shards_ok capacity hash (store_shard hash k (bm_retain keep m) shards)"
    using len l(2) inv here by (intro shards_ok_store [OF ok]) auto
  have k: "bm_get m k = None" using new lock_shard_get [OF m] by simp
  show "entry_effect droppable k None (shards_get hash shards)
       (shards_get hash (store_shard hash k (bm_retain keep m) shards))"
    unfolding entry_effect_def shards_get_store [OF ok] using l(4) k by (auto simp: kept split: option.splits)
  show "shards_ok capacity hash (store_shard hash k (bm_insert k v (bm_retain keep m)) shards)"
    if "length (bm_retain keep m) < capacity"
  proof (rule shards_ok_store [OF ok])
    show "length (bm_insert k v (bm_retain keep m)) \<le> capacity"
      using bm.len_put_le [OF inv, of k v] that by simp
  qed (use inv here in \<open>auto simp: bm_get_insert split: if_splits\<close>)
  show "entry_effect droppable k (Some v) (shards_get hash shards)
       (shards_get hash (store_shard hash k (bm_insert k v (bm_retain keep m)) shards))"
    unfolding entry_effect_def shards_get_store [OF ok] using l(4)
    by (auto simp: bm_get_insert kept split: option.splits)
qed

section \<open>Runs of operations\<close>

text \<open>A block that only some operations lift survives every run without such an operation.\<close>

locale blocking_registry =
  fixes exec :: "'op \<Rightarrow> 's \<Rightarrow> 's"
    and inv :: "'s \<Rightarrow> bool"
    and blocked :: "'s \<Rightarrow> bool"
    and lifts :: "'op \<Rightarrow> bool"
  assumes inv_exec: "inv s \<Longrightarrow> inv (exec op s)"
    and blocked_exec: "inv s \<Longrightarrow> blocked s \<Longrightarrow> \<not> lifts op \<Longrightarrow> blocked (exec op s)"
begin

lemma inv_run: "inv s \<Longrightarrow> inv (fold exec ops s)"
  by (induction ops arbitrary: s) (auto intro: inv_exec)

lemma blocked_run:
  "inv s \<Longrightarrow> blocked s \<Longrightarrow> list_all (\<lambda>op. \<not> lifts op) ops \<Longrightarrow> blocked (fold exec ops s)"
  by (induction ops arbitrary: s) (auto intro: inv_exec blocked_exec)

end

end
