(* ===== verification/Runtime_Health.thy ===== *)
theory Runtime_Health
  imports Sharded_Registry Gateway_Core
begin

text \<open>
  The runtime health registry (\<open>src/crates/gateway-router/src/runtime_health.rs\<close>): cooldowns,
  circuits with half-open probes and account blocks with recovery tickets, per endpoint, binding or
  model. Every operation takes the reading of the registry's clock as an argument and returns its
  result with the registry after it.
\<close>

section \<open>Keys and states\<close>

datatype runtime_health_key =
    EndpointKey string
  | EndpointCredentialKey string string
  | EndpointCredentialModelKey string string string

text \<open>The derived order compares the variant first, then the fields.\<close>

fun health_key_rank :: "runtime_health_key \<Rightarrow> nat \<times> string \<times> string \<times> string" where
  "health_key_rank (EndpointKey e) = (0, e, [], [])"
| "health_key_rank (EndpointCredentialKey e c) = (1, e, c, [])"
| "health_key_rank (EndpointCredentialModelKey e c m) = (2, e, c, m)"

lemma health_key_rank_inj: "health_key_rank a = health_key_rank b \<Longrightarrow> a = b"
  by (cases a; cases b) auto

instantiation runtime_health_key :: linorder
begin

definition less_eq_runtime_health_key :: "runtime_health_key \<Rightarrow> runtime_health_key \<Rightarrow> bool" where
  "less_eq_runtime_health_key a b \<longleftrightarrow> health_key_rank a \<le> health_key_rank b"

definition less_runtime_health_key :: "runtime_health_key \<Rightarrow> runtime_health_key \<Rightarrow> bool" where
  "less_runtime_health_key a b \<longleftrightarrow> health_key_rank a < health_key_rank b"

instance
  by standard (auto simp: less_eq_runtime_health_key_def less_runtime_health_key_def less_le_not_le
      dest: health_key_rank_inj)

end

fun health_key_endpoint_id :: "runtime_health_key \<Rightarrow> string" where
  "health_key_endpoint_id (EndpointKey e) = e"
| "health_key_endpoint_id (EndpointCredentialKey e _) = e"
| "health_key_endpoint_id (EndpointCredentialModelKey e _ _) = e"

fun health_key_credential_id :: "runtime_health_key \<Rightarrow> string option" where
  "health_key_credential_id (EndpointKey _) = None"
| "health_key_credential_id (EndpointCredentialKey _ c) = Some c"
| "health_key_credential_id (EndpointCredentialModelKey _ c _) = Some c"

fun health_key_upstream_model :: "runtime_health_key \<Rightarrow> string option" where
  "health_key_upstream_model (EndpointCredentialModelKey _ _ m) = Some m"
| "health_key_upstream_model _ = None"

datatype runtime_health_availability =
    HealthAvailable
  | HealthCoolingDown i64
  | HealthCircuitOpen i64
  | HealthAccountForbidden
  | HealthCredentialUnauthorized
  | HealthAccountRecoveryInFlight i64

definition health_is_available :: "runtime_health_availability \<Rightarrow> bool" where
  "health_is_available a \<longleftrightarrow> a = HealthAvailable"

datatype runtime_credential_account_status =
    StatusAvailable
  | StatusForbidden
  | StatusUnauthorized
  | StatusRecoveryInFlight i64

record health_probe =
  hp_key :: runtime_health_key
  hp_probe_id :: u64
  hp_expires_at_ms :: i64

text \<open>\<open>RuntimeHealthCircuitProbe\<close> and \<open>RuntimeHealthAccountRecoveryProbe\<close> have the same fields.\<close>

type_synonym circuit_probe = health_probe
type_synonym account_recovery_probe = health_probe

datatype circuit_probe_result = Healthy | Unhealthy i64

datatype account_recovery_result = Allowed | Forbidden

datatype runtime_health_error =
    HealthClockUnavailable
  | DeadlineNotInFuture
  | HealthShardLockPoisoned
  | HealthShardCapacityExceeded
  | CircuitProbeIdOverflow
  | StaleCircuitProbe
  | AccountRecoveryProbeIdOverflow
  | StaleAccountRecoveryProbe

datatype runtime_health_state =
    CoolingDown i64
  | CircuitOpen i64
  | CircuitHalfOpen i64 u64 i64
  | AccountForbidden
  | CredentialUnauthorized
  | AccountRecoveryInFlight u64 i64

fun health_state_availability_at :: "runtime_health_state \<Rightarrow> i64 \<Rightarrow> runtime_health_availability" where
  "health_state_availability_at (CoolingDown until_ms) now =
     (if now < until_ms then HealthCoolingDown until_ms else HealthAvailable)"
| "health_state_availability_at (CircuitOpen retry_after) now = HealthCircuitOpen retry_after"
| "health_state_availability_at (CircuitHalfOpen retry_after _ _) now = HealthCircuitOpen retry_after"
| "health_state_availability_at (AccountRecoveryInFlight _ expires) now =
     (if now < expires then HealthAccountRecoveryInFlight expires else HealthAccountForbidden)"
| "health_state_availability_at CredentialUnauthorized now = HealthCredentialUnauthorized"
| "health_state_availability_at AccountForbidden now = HealthAccountForbidden"

fun account_status_at :: "runtime_health_state \<Rightarrow> i64 \<Rightarrow> runtime_credential_account_status" where
  "account_status_at (AccountRecoveryInFlight _ expires) now =
     (if now < expires then StatusRecoveryInFlight expires else StatusForbidden)"
| "account_status_at CredentialUnauthorized now = StatusUnauthorized"
| "account_status_at AccountForbidden now = StatusForbidden"
| "account_status_at (CoolingDown _) now = StatusAvailable"
| "account_status_at (CircuitOpen _) now = StatusAvailable"
| "account_status_at (CircuitHalfOpen _ _ _) now = StatusAvailable"

fun is_expired_cooldown :: "i64 \<Rightarrow> runtime_health_state \<Rightarrow> bool" where
  "is_expired_cooldown now (CoolingDown until_ms) \<longleftrightarrow> until_ms \<le> now"
| "is_expired_cooldown now _ \<longleftrightarrow> False"

fun state_retry_after_ms :: "runtime_health_state \<Rightarrow> i64" where
  "state_retry_after_ms (CircuitOpen retry_after) = retry_after"
| "state_retry_after_ms (CircuitHalfOpen retry_after _ _) = retry_after"
| "state_retry_after_ms (CoolingDown until_ms) = until_ms"
| "state_retry_after_ms AccountForbidden = 0"
| "state_retry_after_ms CredentialUnauthorized = 0"
| "state_retry_after_ms (AccountRecoveryInFlight _ expires) = expires"

section \<open>The registry\<close>

type_synonym health_states = "(runtime_health_key, runtime_health_state) bmap"

record runtime_health_registry =
  hr_shards :: "(runtime_health_key, runtime_health_state) shards"
  hr_next_circuit_probe_id :: u64
  hr_next_account_recovery_probe_id :: u64

definition default_runtime_health_shard_count :: usize where
  "default_runtime_health_shard_count = 64"

definition max_runtime_health_shard_count :: usize where
  "max_runtime_health_shard_count = 1024"

definition max_runtime_health_entries_per_shard :: usize where
  "max_runtime_health_entries_per_shard = 1024"

definition health_registry_new :: runtime_health_registry where
  "health_registry_new =
     \<lparr>hr_shards = build_shards default_runtime_health_shard_count, hr_next_circuit_probe_id = 1,
      hr_next_account_recovery_probe_id = 1\<rparr>"

definition health_registry_try_with_shards :: "usize \<Rightarrow> shard_count_error + runtime_health_registry" where
  "health_registry_try_with_shards n =
     (case validate_shard_count max_runtime_health_shard_count n of
        Inl e \<Rightarrow> Err e
      | Inr _ \<Rightarrow> Ok \<lparr>hr_shards = build_shards n, hr_next_circuit_probe_id = 1,
                    hr_next_account_recovery_probe_id = 1\<rparr>)"

text \<open>Writing the guarded map of a key's shard back.\<close>

definition health_store ::
  "runtime_health_key hasher \<Rightarrow> runtime_health_key \<Rightarrow> health_states \<Rightarrow> runtime_health_registry \<Rightarrow>
     runtime_health_registry" where
  "health_store hash k states reg = reg\<lparr>hr_shards := store_shard hash k states (hr_shards reg)\<rparr>"

definition validate_deadline :: "i64 \<Rightarrow> i64 \<Rightarrow> runtime_health_error + unit" where
  "validate_deadline until_ms now = (if until_ms \<le> now then Err DeadlineNotInFuture else Ok ())"

definition health_ensure_insert_capacity ::
  "health_states \<Rightarrow> i64 \<Rightarrow> (runtime_health_error + unit) \<times> health_states" where
  "health_ensure_insert_capacity states now =
     (if length states < max_runtime_health_entries_per_shard then (Ok (), states)
      else (let states' = bm_retain (\<lambda>_ st. \<not> is_expired_cooldown now st) states in
            if max_runtime_health_entries_per_shard \<le> length states' then (Err HealthShardCapacityExceeded, states')
            else (Ok (), states')))"

subsection \<open>Queries\<close>

definition health_availability_at ::
  "runtime_health_key hasher \<Rightarrow> runtime_health_registry \<Rightarrow> runtime_health_key \<Rightarrow> i64 \<Rightarrow>
     runtime_health_error + runtime_health_availability" where
  "health_availability_at hash reg k now =
     (case lock_shard hash (hr_shards reg) k of
        None \<Rightarrow> Err HealthShardLockPoisoned
      | Some states \<Rightarrow>
          Ok (case bm_get states k of None \<Rightarrow> HealthAvailable | Some st \<Rightarrow> health_state_availability_at st now))"

definition health_availability ::
  "runtime_health_key hasher \<Rightarrow> runtime_health_registry \<Rightarrow> runtime_health_key \<Rightarrow> clock_reading \<Rightarrow>
     runtime_health_error + runtime_health_availability" where
  "health_availability hash reg k clock =
     (case clock of None \<Rightarrow> Err HealthClockUnavailable | Some now \<Rightarrow> health_availability_at hash reg k now)"

definition health_available ::
  "runtime_health_key hasher \<Rightarrow> runtime_health_registry \<Rightarrow> runtime_health_key \<Rightarrow> clock_reading \<Rightarrow> bool" where
  "health_available hash reg k clock =
     (case health_availability hash reg k clock of Inl _ \<Rightarrow> False | Inr a \<Rightarrow> health_is_available a)"

definition endpoint_is_available ::
  "runtime_health_key hasher \<Rightarrow> runtime_health_registry \<Rightarrow> string \<Rightarrow> clock_reading \<Rightarrow> bool" where
  "endpoint_is_available hash reg e clock = health_available hash reg (EndpointKey e) clock"

definition endpoint_credential_is_available ::
  "runtime_health_key hasher \<Rightarrow> runtime_health_registry \<Rightarrow> string \<Rightarrow> string \<Rightarrow> clock_reading \<Rightarrow> bool" where
  "endpoint_credential_is_available hash reg e c clock =
     health_available hash reg (EndpointCredentialKey e c) clock"

definition endpoint_credential_model_is_available ::
  "runtime_health_key hasher \<Rightarrow> runtime_health_registry \<Rightarrow> string \<Rightarrow> string \<Rightarrow> string \<Rightarrow> clock_reading \<Rightarrow> bool" where
  "endpoint_credential_model_is_available hash reg e c m clock =
     health_available hash reg (EndpointCredentialModelKey e c m) clock"

definition credential_account_status_at ::
  "runtime_health_key hasher \<Rightarrow> runtime_health_registry \<Rightarrow> string \<Rightarrow> string \<Rightarrow> i64 \<Rightarrow>
     runtime_health_error + runtime_credential_account_status" where
  "credential_account_status_at hash reg e c now =
     (case lock_shard hash (hr_shards reg) (EndpointCredentialKey e c) of
        None \<Rightarrow> Err HealthShardLockPoisoned
      | Some states \<Rightarrow>
          Ok (case bm_get states (EndpointCredentialKey e c) of
                None \<Rightarrow> StatusAvailable
              | Some st \<Rightarrow> account_status_at st now))"

definition health_entry_count :: "runtime_health_registry \<Rightarrow> runtime_health_error + usize" where
  "health_entry_count reg = ok_or HealthShardLockPoisoned (count_entries (hr_shards reg) 0)"

subsection \<open>Account blocks\<close>

text \<open>
  \<open>mark_credential_forbidden\<close> and \<open>mark_credential_unauthorized\<close> are the same code with another
  state.
\<close>

definition mark_account ::
  "runtime_health_state \<Rightarrow> runtime_health_key hasher \<Rightarrow> clock_reading \<Rightarrow> string \<Rightarrow> string \<Rightarrow>
     runtime_health_registry \<Rightarrow> (runtime_health_error + unit) \<times> runtime_health_registry" where
  "mark_account st hash clock e c reg =
     (let key = EndpointCredentialKey e c in
      case clock of
        None \<Rightarrow> (Err HealthClockUnavailable, reg)
      | Some now \<Rightarrow>
     (case lock_shard hash (hr_shards reg) key of
        None \<Rightarrow> (Err HealthShardLockPoisoned, reg)
      | Some states \<Rightarrow>
     (case bm_get states key of
        Some _ \<Rightarrow> (Ok (), health_store hash key (bm_insert key st states) reg)
      | None \<Rightarrow>
     (case health_ensure_insert_capacity states now of
        (Inl err, states') \<Rightarrow> (Err err, health_store hash key states' reg)
      | (Inr _, states') \<Rightarrow> (Ok (), health_store hash key (bm_insert key st states') reg)))))"

definition mark_credential_forbidden ::
  "runtime_health_key hasher \<Rightarrow> clock_reading \<Rightarrow> string \<Rightarrow> string \<Rightarrow>
     runtime_health_registry \<Rightarrow> (runtime_health_error + unit) \<times> runtime_health_registry" where
  "mark_credential_forbidden = mark_account AccountForbidden"

definition mark_credential_unauthorized ::
  "runtime_health_key hasher \<Rightarrow> clock_reading \<Rightarrow> string \<Rightarrow> string \<Rightarrow>
     runtime_health_registry \<Rightarrow> (runtime_health_error + unit) \<times> runtime_health_registry" where
  "mark_credential_unauthorized = mark_account CredentialUnauthorized"

fun due_for_recovery :: "i64 \<Rightarrow> runtime_health_state \<Rightarrow> bool" where
  "due_for_recovery now AccountForbidden \<longleftrightarrow> True"
| "due_for_recovery now CredentialUnauthorized \<longleftrightarrow> True"
| "due_for_recovery now (AccountRecoveryInFlight _ expires) \<longleftrightarrow> expires \<le> now"
| "due_for_recovery now _ \<longleftrightarrow> False"

definition begin_account_recovery ::
  "runtime_health_key hasher \<Rightarrow> clock_reading \<Rightarrow> string \<Rightarrow> string \<Rightarrow> i64 \<Rightarrow>
     runtime_health_registry \<Rightarrow>
     (runtime_health_error + account_recovery_probe option) \<times> runtime_health_registry" where
  "begin_account_recovery hash clock e c expires reg =
     (let key = EndpointCredentialKey e c in
      case clock of
        None \<Rightarrow> (Err HealthClockUnavailable, reg)
      | Some now \<Rightarrow>
     (case validate_deadline expires now of
        Inl err \<Rightarrow> (Err err, reg)
      | Inr _ \<Rightarrow>
     (case lock_shard hash (hr_shards reg) key of
        None \<Rightarrow> (Err HealthShardLockPoisoned, reg)
      | Some states \<Rightarrow>
     (case bm_get states key of
        None \<Rightarrow> (Ok None, reg)
      | Some st \<Rightarrow>
          if \<not> due_for_recovery now st then (Ok None, reg)
          else
     (case checked_add_u64 (hr_next_account_recovery_probe_id reg) 1 of
        None \<Rightarrow> (Err AccountRecoveryProbeIdOverflow, reg)
      | Some next \<Rightarrow>
          (let probe_id = hr_next_account_recovery_probe_id reg in
           (Ok (Some \<lparr>hp_key = key, hp_probe_id = probe_id, hp_expires_at_ms = expires\<rparr>),
            health_store hash key (bm_insert key (AccountRecoveryInFlight probe_id expires) states)
              (reg\<lparr>hr_next_account_recovery_probe_id := next\<rparr>))))))))"

definition complete_account_recovery ::
  "runtime_health_key hasher \<Rightarrow> clock_reading \<Rightarrow> account_recovery_probe \<Rightarrow> account_recovery_result \<Rightarrow>
     runtime_health_registry \<Rightarrow> (runtime_health_error + unit) \<times> runtime_health_registry" where
  "complete_account_recovery hash clock probe result reg =
     (case clock of
        None \<Rightarrow> (Err HealthClockUnavailable, reg)
      | Some now \<Rightarrow>
     (case lock_shard hash (hr_shards reg) (hp_key probe) of
        None \<Rightarrow> (Err HealthShardLockPoisoned, reg)
      | Some states \<Rightarrow>
     (case bm_get states (hp_key probe) of
        Some (AccountRecoveryInFlight probe_id expires) \<Rightarrow>
          if probe_id \<noteq> hp_probe_id probe \<or> expires \<noteq> hp_expires_at_ms probe \<or> expires \<le> now
          then (Err StaleAccountRecoveryProbe, reg)
          else (case result of
                  Allowed \<Rightarrow> (Ok (), health_store hash (hp_key probe) (bm_remove (hp_key probe) states) reg)
                | Forbidden \<Rightarrow>
                    (Ok (), health_store hash (hp_key probe) (bm_insert (hp_key probe) AccountForbidden states) reg))
      | _ \<Rightarrow> (Err StaleAccountRecoveryProbe, reg))))"

subsection \<open>Cooldowns and circuits\<close>

definition cool_down_until ::
  "runtime_health_key hasher \<Rightarrow> clock_reading \<Rightarrow> runtime_health_key \<Rightarrow> i64 \<Rightarrow>
     runtime_health_registry \<Rightarrow> (runtime_health_error + unit) \<times> runtime_health_registry" where
  "cool_down_until hash clock key until_ms reg =
     (case clock of
        None \<Rightarrow> (Err HealthClockUnavailable, reg)
      | Some now \<Rightarrow>
     (case validate_deadline until_ms now of
        Inl err \<Rightarrow> (Err err, reg)
      | Inr _ \<Rightarrow>
     (case lock_shard hash (hr_shards reg) key of
        None \<Rightarrow> (Err HealthShardLockPoisoned, reg)
      | Some states \<Rightarrow>
     (case bm_get states key of
        Some (CoolingDown existing) \<Rightarrow>
          (Ok (), health_store hash key (bm_insert key (CoolingDown (max existing until_ms)) states) reg)
      | Some _ \<Rightarrow> (Ok (), reg)
      | None \<Rightarrow>
     (case health_ensure_insert_capacity states now of
        (Inl err, states') \<Rightarrow> (Err err, health_store hash key states' reg)
      | (Inr _, states') \<Rightarrow> (Ok (), health_store hash key (bm_insert key (CoolingDown until_ms) states') reg))))))"

definition open_circuit_until ::
  "runtime_health_key hasher \<Rightarrow> clock_reading \<Rightarrow> runtime_health_key \<Rightarrow> i64 \<Rightarrow>
     runtime_health_registry \<Rightarrow> (runtime_health_error + unit) \<times> runtime_health_registry" where
  "open_circuit_until hash clock key retry_after reg =
     (case clock of
        None \<Rightarrow> (Err HealthClockUnavailable, reg)
      | Some now \<Rightarrow>
     (case validate_deadline retry_after now of
        Inl err \<Rightarrow> (Err err, reg)
      | Inr _ \<Rightarrow>
     (case lock_shard hash (hr_shards reg) key of
        None \<Rightarrow> (Err HealthShardLockPoisoned, reg)
      | Some states \<Rightarrow>
     (case bm_get states key of
        Some (CircuitOpen existing) \<Rightarrow>
          (Ok (), health_store hash key (bm_insert key (CircuitOpen (max existing retry_after)) states) reg)
      | Some (CircuitHalfOpen existing _ _) \<Rightarrow>
          (Ok (), health_store hash key (bm_insert key (CircuitOpen (max existing retry_after)) states) reg)
      | Some (CoolingDown _) \<Rightarrow>
          (Ok (), health_store hash key (bm_insert key (CircuitOpen retry_after) states) reg)
      | Some _ \<Rightarrow> (Ok (), reg)
      | None \<Rightarrow>
     (case health_ensure_insert_capacity states now of
        (Inl err, states') \<Rightarrow> (Err err, health_store hash key states' reg)
      | (Inr _, states') \<Rightarrow> (Ok (), health_store hash key (bm_insert key (CircuitOpen retry_after) states') reg))))))"

fun is_account_state :: "runtime_health_state \<Rightarrow> bool" where
  "is_account_state AccountForbidden \<longleftrightarrow> True"
| "is_account_state CredentialUnauthorized \<longleftrightarrow> True"
| "is_account_state (AccountRecoveryInFlight _ _) \<longleftrightarrow> True"
| "is_account_state _ \<longleftrightarrow> False"

definition mark_healthy ::
  "runtime_health_key hasher \<Rightarrow> runtime_health_key \<Rightarrow> runtime_health_registry \<Rightarrow>
     (runtime_health_error + unit) \<times> runtime_health_registry" where
  "mark_healthy hash key reg =
     (case lock_shard hash (hr_shards reg) key of
        None \<Rightarrow> (Err HealthShardLockPoisoned, reg)
      | Some states \<Rightarrow>
          if (case bm_get states key of None \<Rightarrow> False | Some st \<Rightarrow> is_account_state st) then (Ok (), reg)
          else (Ok (), health_store hash key (bm_remove key states) reg))"

fun due_for_probe :: "i64 \<Rightarrow> runtime_health_state \<Rightarrow> bool" where
  "due_for_probe now (CircuitOpen retry_after) \<longleftrightarrow> retry_after \<le> now"
| "due_for_probe now (CircuitHalfOpen _ _ expires) \<longleftrightarrow> expires \<le> now"
| "due_for_probe now _ \<longleftrightarrow> False"

definition begin_circuit_probe ::
  "runtime_health_key hasher \<Rightarrow> clock_reading \<Rightarrow> runtime_health_key \<Rightarrow> i64 \<Rightarrow>
     runtime_health_registry \<Rightarrow> (runtime_health_error + circuit_probe option) \<times> runtime_health_registry" where
  "begin_circuit_probe hash clock key expires reg =
     (case clock of
        None \<Rightarrow> (Err HealthClockUnavailable, reg)
      | Some now \<Rightarrow>
     (case validate_deadline expires now of
        Inl err \<Rightarrow> (Err err, reg)
      | Inr _ \<Rightarrow>
     (case lock_shard hash (hr_shards reg) key of
        None \<Rightarrow> (Err HealthShardLockPoisoned, reg)
      | Some states \<Rightarrow>
     (case bm_get states key of
        None \<Rightarrow> (Ok None, reg)
      | Some st \<Rightarrow>
          if \<not> due_for_probe now st then (Ok None, reg)
          else
     (case checked_add_u64 (hr_next_circuit_probe_id reg) 1 of
        None \<Rightarrow> (Err CircuitProbeIdOverflow, reg)
      | Some next \<Rightarrow>
          (let probe_id = hr_next_circuit_probe_id reg in
           (Ok (Some \<lparr>hp_key = key, hp_probe_id = probe_id, hp_expires_at_ms = expires\<rparr>),
            health_store hash key
              (bm_insert key (CircuitHalfOpen (state_retry_after_ms st) probe_id expires) states)
              (reg\<lparr>hr_next_circuit_probe_id := next\<rparr>))))))))"

definition complete_circuit_probe ::
  "runtime_health_key hasher \<Rightarrow> clock_reading \<Rightarrow> circuit_probe \<Rightarrow> circuit_probe_result \<Rightarrow>
     runtime_health_registry \<Rightarrow> (runtime_health_error + unit) \<times> runtime_health_registry" where
  "complete_circuit_probe hash clock probe result reg =
     (case clock of
        None \<Rightarrow> (Err HealthClockUnavailable, reg)
      | Some now \<Rightarrow>
     (case lock_shard hash (hr_shards reg) (hp_key probe) of
        None \<Rightarrow> (Err HealthShardLockPoisoned, reg)
      | Some states \<Rightarrow>
     (case bm_get states (hp_key probe) of
        Some (CircuitHalfOpen _ probe_id expires) \<Rightarrow>
          if probe_id \<noteq> hp_probe_id probe \<or> expires \<noteq> hp_expires_at_ms probe \<or> expires \<le> now
          then (Err StaleCircuitProbe, reg)
          else (case result of
                  Healthy \<Rightarrow> (Ok (), health_store hash (hp_key probe) (bm_remove (hp_key probe) states) reg)
                | Unhealthy retry_after \<Rightarrow>
                    (case validate_deadline retry_after now of
                       Inl err \<Rightarrow> (Err err, reg)
                     | Inr _ \<Rightarrow>
                         (Ok (), health_store hash (hp_key probe)
                            (bm_insert (hp_key probe) (CircuitOpen retry_after) states) reg)))
      | _ \<Rightarrow> (Err StaleCircuitProbe, reg))))"

section \<open>One operation seen from one key\<close>

datatype health_op =
    OpForbidden string string
  | OpUnauthorized string string
  | OpBeginRecovery string string i64
  | OpCompleteRecovery account_recovery_probe account_recovery_result
  | OpCoolDown runtime_health_key i64
  | OpOpenCircuit runtime_health_key i64
  | OpMarkHealthy runtime_health_key
  | OpBeginProbe runtime_health_key i64
  | OpCompleteProbe circuit_probe circuit_probe_result

text \<open>An operation with the reading of the clock it sees.\<close>

fun health_exec ::
  "runtime_health_key hasher \<Rightarrow> clock_reading \<times> health_op \<Rightarrow> runtime_health_registry \<Rightarrow> runtime_health_registry" where
  "health_exec hash (clock, OpForbidden e c) reg = snd (mark_credential_forbidden hash clock e c reg)"
| "health_exec hash (clock, OpUnauthorized e c) reg = snd (mark_credential_unauthorized hash clock e c reg)"
| "health_exec hash (clock, OpBeginRecovery e c x) reg = snd (begin_account_recovery hash clock e c x reg)"
| "health_exec hash (clock, OpCompleteRecovery p r) reg = snd (complete_account_recovery hash clock p r reg)"
| "health_exec hash (clock, OpCoolDown k u) reg = snd (cool_down_until hash clock k u reg)"
| "health_exec hash (clock, OpOpenCircuit k r) reg = snd (open_circuit_until hash clock k r reg)"
| "health_exec hash (clock, OpMarkHealthy k) reg = snd (mark_healthy hash k reg)"
| "health_exec hash (clock, OpBeginProbe k x) reg = snd (begin_circuit_probe hash clock k x reg)"
| "health_exec hash (clock, OpCompleteProbe p r) reg = snd (complete_circuit_probe hash clock p r reg)"

fun health_op_key :: "health_op \<Rightarrow> runtime_health_key" where
  "health_op_key (OpForbidden e c) = EndpointCredentialKey e c"
| "health_op_key (OpUnauthorized e c) = EndpointCredentialKey e c"
| "health_op_key (OpBeginRecovery e c _) = EndpointCredentialKey e c"
| "health_op_key (OpCompleteRecovery p _) = hp_key p"
| "health_op_key (OpCoolDown k _) = k"
| "health_op_key (OpOpenCircuit k _) = k"
| "health_op_key (OpMarkHealthy k) = k"
| "health_op_key (OpBeginProbe k _) = k"
| "health_op_key (OpCompleteProbe p _) = hp_key p"

text \<open>
  The specification of a successful operation on the entry of its key: what the entry becomes, given
  the identifiers the next account ticket and the next circuit ticket would get.
\<close>

fun health_transition ::
  "u64 \<Rightarrow> u64 \<Rightarrow> health_op \<Rightarrow> runtime_health_state option \<Rightarrow> runtime_health_state option" where
  "health_transition na nc (OpForbidden _ _) s = Some AccountForbidden"
| "health_transition na nc (OpUnauthorized _ _) s = Some CredentialUnauthorized"
| "health_transition na nc (OpBeginRecovery _ _ x) s =
     (case s of Some st \<Rightarrow> if is_account_state st then Some (AccountRecoveryInFlight na x) else s | None \<Rightarrow> None)"
| "health_transition na nc (OpCompleteRecovery p r) s =
     (if s = Some (AccountRecoveryInFlight (hp_probe_id p) (hp_expires_at_ms p))
      then (case r of Allowed \<Rightarrow> None | Forbidden \<Rightarrow> Some AccountForbidden) else s)"
| "health_transition na nc (OpCoolDown _ u) s =
     (case s of None \<Rightarrow> Some (CoolingDown u) | Some (CoolingDown v) \<Rightarrow> Some (CoolingDown (max v u)) | _ \<Rightarrow> s)"
| "health_transition na nc (OpOpenCircuit _ r) s =
     (case s of
        None \<Rightarrow> Some (CircuitOpen r)
      | Some (CoolingDown _) \<Rightarrow> Some (CircuitOpen r)
      | Some (CircuitOpen v) \<Rightarrow> Some (CircuitOpen (max v r))
      | Some (CircuitHalfOpen v _ _) \<Rightarrow> Some (CircuitOpen (max v r))
      | _ \<Rightarrow> s)"
| "health_transition na nc (OpMarkHealthy _) s =
     (case s of Some st \<Rightarrow> if is_account_state st then s else None | None \<Rightarrow> None)"
| "health_transition na nc (OpBeginProbe _ x) s =
     (case s of
        Some (CircuitOpen v) \<Rightarrow> Some (CircuitHalfOpen v nc x)
      | Some (CircuitHalfOpen v _ _) \<Rightarrow> Some (CircuitHalfOpen v nc x)
      | _ \<Rightarrow> s)"
| "health_transition na nc (OpCompleteProbe p r) s =
     (case s of
        Some (CircuitHalfOpen v i x) \<Rightarrow>
          if i = hp_probe_id p \<and> x = hp_expires_at_ms p
          then (case r of Healthy \<Rightarrow> None | Unhealthy retry \<Rightarrow> Some (CircuitOpen retry)) else s
      | _ \<Rightarrow> s)"

definition health_get ::
  "runtime_health_key hasher \<Rightarrow> runtime_health_registry \<Rightarrow> runtime_health_key \<Rightarrow> runtime_health_state option" where
  "health_get hash reg = shards_get hash (hr_shards reg)"

definition health_shards_ok :: "runtime_health_key hasher \<Rightarrow> runtime_health_registry \<Rightarrow> bool" where
  "health_shards_ok hash reg \<longleftrightarrow> shards_ok max_runtime_health_entries_per_shard hash (hr_shards reg)"

text \<open>An entry that making room may reclaim.\<close>

definition reclaimable :: "clock_reading \<Rightarrow> runtime_health_state \<Rightarrow> bool" where
  "reclaimable clock st \<longleftrightarrow> (case clock of None \<Rightarrow> False | Some now \<Rightarrow> is_expired_cooldown now st)"

text \<open>
  What the registry after an operation is to the registry before it: the entry of the operation's key
  is unchanged or as specified, other keys lose at most reclaimable entries, and ticket identifiers
  only advance.
\<close>

definition op_begins_recovery :: "health_op \<Rightarrow> nat" where
  "op_begins_recovery op = (case op of OpBeginRecovery _ _ _ \<Rightarrow> 1 | _ \<Rightarrow> 0)"

definition op_begins_probe :: "health_op \<Rightarrow> nat" where
  "op_begins_probe op = (case op of OpBeginProbe _ _ \<Rightarrow> 1 | _ \<Rightarrow> 0)"

definition health_spec ::
  "runtime_health_key hasher \<Rightarrow> health_op \<Rightarrow> runtime_health_registry \<Rightarrow> runtime_health_state option" where
  "health_spec hash op reg =
     health_transition (hr_next_account_recovery_probe_id reg) (hr_next_circuit_probe_id reg) op
       (health_get hash reg (health_op_key op))"

definition health_effect ::
  "runtime_health_key hasher \<Rightarrow> clock_reading \<Rightarrow> health_op \<Rightarrow> runtime_health_registry \<Rightarrow>
     runtime_health_registry \<Rightarrow> bool" where
  "health_effect hash clock op reg reg' \<longleftrightarrow>
     health_shards_ok hash reg' \<and>
     (hr_next_account_recovery_probe_id reg' = hr_next_account_recovery_probe_id reg \<and>
      hr_next_circuit_probe_id reg' = hr_next_circuit_probe_id reg \<and>
      entry_effect (reclaimable clock) (health_op_key op) (health_get hash reg (health_op_key op))
        (health_get hash reg) (health_get hash reg') \<or>
      hr_next_account_recovery_probe_id reg' = hr_next_account_recovery_probe_id reg + op_begins_recovery op \<and>
      hr_next_circuit_probe_id reg' = hr_next_circuit_probe_id reg + op_begins_probe op \<and>
      entry_effect (reclaimable clock) (health_op_key op) (health_spec hash op reg)
        (health_get hash reg) (health_get hash reg'))"

lemma health_effect_same: "health_shards_ok hash reg \<Longrightarrow> health_effect hash clock op reg reg"
  by (simp add: health_effect_def entry_effect_refl)

text \<open>The ways an operation writes the entry of its key.\<close>

lemma health_effect_put:
  assumes ok: "health_shards_ok hash reg" and m: "lock_shard hash (hr_shards reg) k = Some m"
    and k: "health_op_key op = k" and old: "health_get hash reg k \<noteq> None" and v: "health_spec hash op reg = Some v"
    and r: "hr_shards r = hr_shards reg"
      "hr_next_account_recovery_probe_id r = hr_next_account_recovery_probe_id reg + op_begins_recovery op"
      "hr_next_circuit_probe_id r = hr_next_circuit_probe_id reg + op_begins_probe op"
  shows "health_effect hash clock op reg (health_store hash k (bm_insert k v m) r)"
proof -
  have room: "shards_get hash (hr_shards reg) k \<noteq> None \<or> length m < max_runtime_health_entries_per_shard"
    using old by (simp add: health_get_def)
  note ok' = ok [unfolded health_shards_ok_def]
  show ?thesis unfolding health_effect_def k v
    using store_insert(1) [OF ok' m room] store_insert(2) [OF ok' m room] r
    by (simp add: health_shards_ok_def health_store_def health_get_def)
qed

lemma health_effect_del:
  assumes ok: "health_shards_ok hash reg" and m: "lock_shard hash (hr_shards reg) k = Some m"
    and k: "health_op_key op = k" and v: "health_spec hash op reg = None"
    and "op_begins_recovery op = 0" "op_begins_probe op = 0"
  shows "health_effect hash clock op reg (health_store hash k (bm_remove k m) reg)"
proof -
  note ok' = ok [unfolded health_shards_ok_def]
  show ?thesis unfolding health_effect_def k v
    using store_remove(1) [OF ok' m] store_remove(2) [OF ok' m] assms(5,6)
    by (simp add: health_shards_ok_def health_store_def health_get_def)
qed

lemma health_effect_new:
  assumes ok: "health_shards_ok hash reg" and m: "lock_shard hash (hr_shards reg) k = Some m"
    and k: "health_op_key op = k" and new: "health_get hash reg k = None" and v: "health_spec hash op reg = Some v"
    and cap: "health_ensure_insert_capacity m now = (r, m')"
    and ops: "op_begins_recovery op = 0" "op_begins_probe op = 0"
  shows "health_effect hash (Some now) op reg
    (health_store hash k (case r of Inl _ \<Rightarrow> m' | Inr _ \<Rightarrow> bm_insert k v m') reg)"
proof -
  have none: "shards_get hash (hr_shards reg) k = None" using new by (simp add: health_get_def)
  note ok' = ok [unfolded health_shards_ok_def]
  show ?thesis
  proof (cases "length m < max_runtime_health_entries_per_shard")
    case True
    then have r: "r = Inr ()" "m' = m" using cap by (simp_all add: health_ensure_insert_capacity_def)
    show ?thesis unfolding health_effect_def k v
      using store_insert(1) [OF ok' m] store_insert(2) [OF ok' m] True r ops
      by (simp add: health_shards_ok_def health_store_def health_get_def)
  next
    case False
    let ?keep = "\<lambda>_ st. \<not> is_expired_cooldown now st"
    have m': "m' = bm_retain ?keep m"
      using cap False by (auto simp: health_ensure_insert_capacity_def Let_def split: if_splits)
    have keep: "?keep j x \<longleftrightarrow> \<not> reclaimable (Some now) x" for j :: runtime_health_key and x by (simp add: reclaimable_def)
    note st = store_retain [OF ok' m none keep]
    show ?thesis
    proof (cases r)
      case (Inl e)
      then show ?thesis unfolding health_effect_def k v using st(1,2) ops new m'
        by (simp add: health_shards_ok_def health_store_def health_get_def)
    next
      case (Inr u)
      then have "length (bm_retain ?keep m) < max_runtime_health_entries_per_shard"
        using cap False by (auto simp: health_ensure_insert_capacity_def Let_def split: if_splits)
      with Inr show ?thesis unfolding health_effect_def k v using st(3,4) ops m'
        by (simp add: health_shards_ok_def health_store_def health_get_def)
    qed
  qed
qed

lemmas op_counts = op_begins_recovery_def op_begins_probe_def

lemma lock_health_get: "lock_shard hash (hr_shards reg) k = Some m \<Longrightarrow> bm_get m k = health_get hash reg k"
  by (simp add: health_get_def lock_shard_get)

lemma mark_account_effect:
  assumes ok: "health_shards_ok hash reg" and k: "health_op_key op = EndpointCredentialKey e c"
    and v: "\<And>na nc s. health_transition na nc op s = Some st" and ops: "op_begins_recovery op = 0" "op_begins_probe op = 0"
  shows "health_effect hash clock op reg (snd (mark_account st hash clock e c reg))"
proof (cases "\<exists>now m. clock = Some now \<and> lock_shard hash (hr_shards reg) (EndpointCredentialKey e c) = Some m")
  case True
  then obtain now m where c: "clock = Some now" and m: "lock_shard hash (hr_shards reg) (EndpointCredentialKey e c) = Some m"
    by blast
  have v': "health_spec hash op reg = Some st" by (simp add: health_spec_def v)
  obtain r m' where cap: "health_ensure_insert_capacity m now = (r, m')" by fastforce
  show ?thesis
  proof (cases "health_get hash reg (EndpointCredentialKey e c)")
    case None
    then show ?thesis using health_effect_new [OF ok m k None v' cap ops]
      by (cases r) (simp_all add: mark_account_def Let_def c m lock_health_get [OF m] cap)
  next
    case (Some s)
    then show ?thesis using health_effect_put [OF ok m k _ v' refl] ops
      by (simp add: mark_account_def Let_def c m lock_health_get [OF m])
  qed
next
  case False
  then show ?thesis using health_effect_same [OF ok]
    by (auto simp: mark_account_def Let_def split: option.splits)
qed

lemma begin_recovery_effect:
  assumes ok: "health_shards_ok hash reg"
  shows "health_effect hash clock (OpBeginRecovery e c x) reg (snd (begin_account_recovery hash clock e c x reg))"
proof (cases "\<exists>now m st. clock = Some now \<and> \<not> x \<le> now \<and> due_for_recovery now st \<and>
    hr_next_account_recovery_probe_id reg + 1 < 2 ^ 64 \<and>
    lock_shard hash (hr_shards reg) (EndpointCredentialKey e c) = Some m \<and> bm_get m (EndpointCredentialKey e c) = Some st")
  case True
  then obtain now m st where h: "clock = Some now" "\<not> x \<le> now" "due_for_recovery now st"
    "hr_next_account_recovery_probe_id reg + 1 < 2 ^ 64"
    and m: "lock_shard hash (hr_shards reg) (EndpointCredentialKey e c) = Some m"
    and st: "bm_get m (EndpointCredentialKey e c) = Some st" by blast
  have old: "health_get hash reg (EndpointCredentialKey e c) = Some st" using lock_health_get [OF m] st by simp
  have acc: "is_account_state st" using h(3) by (cases st) auto
  have v: "health_spec hash (OpBeginRecovery e c x) reg = Some (AccountRecoveryInFlight (hr_next_account_recovery_probe_id reg) x)"
    by (simp add: health_spec_def old acc)
  have "health_effect hash clock (OpBeginRecovery e c x) reg (health_store hash (EndpointCredentialKey e c)
      (bm_insert (EndpointCredentialKey e c) (AccountRecoveryInFlight (hr_next_account_recovery_probe_id reg) x) m)
      (reg\<lparr>hr_next_account_recovery_probe_id := hr_next_account_recovery_probe_id reg + 1\<rparr>))"
    by (rule health_effect_put [OF ok m _ _ v]) (simp_all add: old op_counts)
  then show ?thesis using h by (simp add: begin_account_recovery_def validate_deadline_def m st checked_add_u64_def Let_def)
next
  case False
  then have "snd (begin_account_recovery hash clock e c x reg) = reg"
    by (auto simp: begin_account_recovery_def validate_deadline_def checked_add_u64_def Let_def split: option.splits)
  then show ?thesis using health_effect_same [OF ok] by simp
qed

lemma complete_recovery_effect:
  assumes ok: "health_shards_ok hash reg"
  shows "health_effect hash clock (OpCompleteRecovery p r) reg (snd (complete_account_recovery hash clock p r reg))"
proof (cases "\<exists>now m. clock = Some now \<and> \<not> hp_expires_at_ms p \<le> now \<and> lock_shard hash (hr_shards reg) (hp_key p) = Some m \<and>
    bm_get m (hp_key p) = Some (AccountRecoveryInFlight (hp_probe_id p) (hp_expires_at_ms p))")
  case True
  then obtain now m where h: "clock = Some now" "\<not> hp_expires_at_ms p \<le> now"
    and m: "lock_shard hash (hr_shards reg) (hp_key p) = Some m"
    and st: "bm_get m (hp_key p) = Some (AccountRecoveryInFlight (hp_probe_id p) (hp_expires_at_ms p))" by blast
  have old: "health_get hash reg (hp_key p) = Some (AccountRecoveryInFlight (hp_probe_id p) (hp_expires_at_ms p))"
    using lock_health_get [OF m] st by simp
  show ?thesis
  proof (cases r)
    case Allowed
    have "health_effect hash clock (OpCompleteRecovery p r) reg (health_store hash (hp_key p) (bm_remove (hp_key p) m) reg)"
      by (rule health_effect_del [OF ok m]) (simp_all add: health_spec_def old Allowed op_counts)
    then show ?thesis using h by (simp add: complete_account_recovery_def m st Allowed)
  next
    case Forbidden
    have v: "health_spec hash (OpCompleteRecovery p r) reg = Some AccountForbidden" by (simp add: health_spec_def old Forbidden)
    have "health_effect hash clock (OpCompleteRecovery p r) reg
        (health_store hash (hp_key p) (bm_insert (hp_key p) AccountForbidden m) reg)"
      by (rule health_effect_put [OF ok m _ _ v]) (simp_all add: old op_counts)
    then show ?thesis using h by (simp add: complete_account_recovery_def m st Forbidden)
  qed
next
  case False
  then have "snd (complete_account_recovery hash clock p r reg) = reg"
    by (auto simp: complete_account_recovery_def split: option.splits runtime_health_state.splits)
  then show ?thesis using health_effect_same [OF ok] by simp
qed

lemma cool_down_effect:
  assumes ok: "health_shards_ok hash reg"
  shows "health_effect hash clock (OpCoolDown k u) reg (snd (cool_down_until hash clock k u reg))"
proof (cases "\<exists>now m. clock = Some now \<and> \<not> u \<le> now \<and> lock_shard hash (hr_shards reg) k = Some m")
  case True
  then obtain now m where h: "clock = Some now" "\<not> u \<le> now" and m: "lock_shard hash (hr_shards reg) k = Some m" by blast
  obtain r m' where cap: "health_ensure_insert_capacity m now = (r, m')" by fastforce
  note get = lock_health_get [OF m]
  consider "health_get hash reg k = None" | v where "health_get hash reg k = Some (CoolingDown v)"
    | st where "health_get hash reg k = Some st" "\<forall>v. st \<noteq> CoolingDown v" by (cases "health_get hash reg k") auto
  then show ?thesis
  proof cases
    case 1
    have "health_effect hash (Some now) (OpCoolDown k u) reg
      (health_store hash k (case r of Inl _ \<Rightarrow> m' | Inr _ \<Rightarrow> bm_insert k (CoolingDown u) m') reg)"
      by (rule health_effect_new [OF ok m _ 1 _ cap]) (simp_all add: health_spec_def 1 op_counts)
    then show ?thesis using h by (cases r) (simp_all add: cool_down_until_def validate_deadline_def m get 1 cap)
  next
    case (2 v)
    have "health_effect hash clock (OpCoolDown k u) reg (health_store hash k (bm_insert k (CoolingDown (max v u)) m) reg)"
      by (rule health_effect_put [OF ok m]) (simp_all add: health_spec_def 2 op_counts)
    then show ?thesis using h by (simp add: cool_down_until_def validate_deadline_def m get 2)
  next
    case (3 st)
    then have "snd (cool_down_until hash clock k u reg) = reg"
      by (cases st) (simp_all add: cool_down_until_def validate_deadline_def m get h)
    then show ?thesis using health_effect_same [OF ok] by simp
  qed
next
  case False
  then have "snd (cool_down_until hash clock k u reg) = reg"
    by (auto simp: cool_down_until_def validate_deadline_def split: option.splits)
  then show ?thesis using health_effect_same [OF ok] by simp
qed

lemma open_circuit_effect:
  assumes ok: "health_shards_ok hash reg"
  shows "health_effect hash clock (OpOpenCircuit k u) reg (snd (open_circuit_until hash clock k u reg))"
proof (cases "\<exists>now m. clock = Some now \<and> \<not> u \<le> now \<and> lock_shard hash (hr_shards reg) k = Some m")
  case True
  then obtain now m where h: "clock = Some now" "\<not> u \<le> now" and m: "lock_shard hash (hr_shards reg) k = Some m" by blast
  obtain r m' where cap: "health_ensure_insert_capacity m now = (r, m')" by fastforce
  note get = lock_health_get [OF m]
  show ?thesis
  proof (cases "health_get hash reg k")
    case None
    have "health_effect hash (Some now) (OpOpenCircuit k u) reg
      (health_store hash k (case r of Inl _ \<Rightarrow> m' | Inr _ \<Rightarrow> bm_insert k (CircuitOpen u) m') reg)"
      by (rule health_effect_new [OF ok m _ None _ cap]) (simp_all add: health_spec_def None op_counts)
    then show ?thesis using h by (cases r) (simp_all add: open_circuit_until_def validate_deadline_def m get None cap)
  next
    case (Some st)
    show ?thesis
    proof (cases "is_account_state st")
      case True
      then have "snd (open_circuit_until hash clock k u reg) = reg"
        by (cases st) (simp_all add: open_circuit_until_def validate_deadline_def m get h Some)
      then show ?thesis using health_effect_same [OF ok] by simp
    next
      case False
      obtain v where v: "health_spec hash (OpOpenCircuit k u) reg = Some v"
        "snd (open_circuit_until hash clock k u reg) = health_store hash k (bm_insert k v m) reg"
        using False by (cases st) (simp_all add: open_circuit_until_def validate_deadline_def m get h Some health_spec_def)
      show ?thesis unfolding v(2)
        by (rule health_effect_put [OF ok m _ _ v(1)]) (simp_all add: Some op_counts)
    qed
  qed
next
  case False
  then have "snd (open_circuit_until hash clock k u reg) = reg"
    by (auto simp: open_circuit_until_def validate_deadline_def split: option.splits)
  then show ?thesis using health_effect_same [OF ok] by simp
qed

lemma mark_healthy_effect:
  assumes ok: "health_shards_ok hash reg"
  shows "health_effect hash clock (OpMarkHealthy k) reg (snd (mark_healthy hash k reg))"
proof (cases "\<exists>m. lock_shard hash (hr_shards reg) k = Some m \<and>
    \<not> (case bm_get m k of None \<Rightarrow> False | Some st \<Rightarrow> is_account_state st)")
  case True
  then obtain m where m: "lock_shard hash (hr_shards reg) k = Some m"
    and st: "\<not> (case bm_get m k of None \<Rightarrow> False | Some st \<Rightarrow> is_account_state st)" by blast
  have "health_effect hash clock (OpMarkHealthy k) reg (health_store hash k (bm_remove k m) reg)"
    using st by (intro health_effect_del [OF ok m])
      (auto simp: health_spec_def op_counts lock_health_get [OF m] split: option.splits)
  then show ?thesis using st by (simp add: mark_healthy_def m)
next
  case False
  then have "snd (mark_healthy hash k reg) = reg" by (auto simp: mark_healthy_def split: option.splits)
  then show ?thesis using health_effect_same [OF ok] by simp
qed

lemma begin_probe_effect:
  assumes ok: "health_shards_ok hash reg"
  shows "health_effect hash clock (OpBeginProbe k x) reg (snd (begin_circuit_probe hash clock k x reg))"
proof (cases "\<exists>now m st. clock = Some now \<and> \<not> x \<le> now \<and> due_for_probe now st \<and>
    hr_next_circuit_probe_id reg + 1 < 2 ^ 64 \<and> lock_shard hash (hr_shards reg) k = Some m \<and> bm_get m k = Some st")
  case True
  then obtain now m st where h: "clock = Some now" "\<not> x \<le> now" "due_for_probe now st"
    "hr_next_circuit_probe_id reg + 1 < 2 ^ 64"
    and m: "lock_shard hash (hr_shards reg) k = Some m" and st: "bm_get m k = Some st" by blast
  have old: "health_get hash reg k = Some st" using lock_health_get [OF m] st by simp
  have v: "health_spec hash (OpBeginProbe k x) reg
      = Some (CircuitHalfOpen (state_retry_after_ms st) (hr_next_circuit_probe_id reg) x)"
    using h(3) by (cases st) (simp_all add: health_spec_def old)
  have "health_effect hash clock (OpBeginProbe k x) reg (health_store hash k
      (bm_insert k (CircuitHalfOpen (state_retry_after_ms st) (hr_next_circuit_probe_id reg) x) m)
      (reg\<lparr>hr_next_circuit_probe_id := hr_next_circuit_probe_id reg + 1\<rparr>))"
    by (rule health_effect_put [OF ok m _ _ v]) (simp_all add: old op_counts)
  then show ?thesis using h by (simp add: begin_circuit_probe_def validate_deadline_def m st checked_add_u64_def Let_def)
next
  case False
  then have "snd (begin_circuit_probe hash clock k x reg) = reg"
    by (auto simp: begin_circuit_probe_def validate_deadline_def checked_add_u64_def split: option.splits)
  then show ?thesis using health_effect_same [OF ok] by simp
qed

lemma complete_probe_effect:
  assumes ok: "health_shards_ok hash reg"
  shows "health_effect hash clock (OpCompleteProbe p r) reg (snd (complete_circuit_probe hash clock p r reg))"
proof (cases "\<exists>now m v. clock = Some now \<and> \<not> hp_expires_at_ms p \<le> now \<and> lock_shard hash (hr_shards reg) (hp_key p) = Some m \<and>
    bm_get m (hp_key p) = Some (CircuitHalfOpen v (hp_probe_id p) (hp_expires_at_ms p)) \<and>
    (\<forall>retry. r = Unhealthy retry \<longrightarrow> \<not> retry \<le> now)")
  case True
  then obtain now m v where h: "clock = Some now" "\<not> hp_expires_at_ms p \<le> now"
      "\<forall>retry. r = Unhealthy retry \<longrightarrow> \<not> retry \<le> now"
    and m: "lock_shard hash (hr_shards reg) (hp_key p) = Some m"
    and st: "bm_get m (hp_key p) = Some (CircuitHalfOpen v (hp_probe_id p) (hp_expires_at_ms p))" by blast
  have old: "health_get hash reg (hp_key p) = Some (CircuitHalfOpen v (hp_probe_id p) (hp_expires_at_ms p))"
    using lock_health_get [OF m] st by simp
  show ?thesis
  proof (cases r)
    case Healthy
    have "health_effect hash clock (OpCompleteProbe p r) reg (health_store hash (hp_key p) (bm_remove (hp_key p) m) reg)"
      by (rule health_effect_del [OF ok m]) (simp_all add: health_spec_def old Healthy op_counts)
    then show ?thesis using h by (simp add: complete_circuit_probe_def m st Healthy)
  next
    case (Unhealthy retry)
    have w: "health_spec hash (OpCompleteProbe p r) reg = Some (CircuitOpen retry)"
      by (simp add: health_spec_def old Unhealthy)
    have "health_effect hash clock (OpCompleteProbe p r) reg
        (health_store hash (hp_key p) (bm_insert (hp_key p) (CircuitOpen retry) m) reg)"
      by (rule health_effect_put [OF ok m _ _ w]) (simp_all add: old op_counts)
    then show ?thesis using h by (simp add: complete_circuit_probe_def validate_deadline_def m st Unhealthy)
  qed
next
  case False
  then have "snd (complete_circuit_probe hash clock p r reg) = reg"
    by (auto simp: complete_circuit_probe_def validate_deadline_def
        split: option.splits runtime_health_state.splits circuit_probe_result.splits)
  then show ?thesis using health_effect_same [OF ok] by simp
qed

text \<open>Every operation implements its specification on the entry of its key.\<close>

lemma health_exec_effect:
  assumes "health_shards_ok hash reg"
  shows "health_effect hash clock op reg (health_exec hash (clock, op) reg)"
proof (cases op)
  case (OpForbidden e c)
  then show ?thesis using mark_account_effect [OF assms, of op e c AccountForbidden]
    by (simp add: mark_credential_forbidden_def op_counts)
next
  case (OpUnauthorized e c)
  then show ?thesis using mark_account_effect [OF assms, of op e c CredentialUnauthorized]
    by (simp add: mark_credential_unauthorized_def op_counts)
qed (simp_all add: assms begin_recovery_effect complete_recovery_effect cool_down_effect open_circuit_effect
    mark_healthy_effect begin_probe_effect complete_probe_effect)

section \<open>The registry invariant\<close>

text \<open>Tickets in flight have identifiers that were already handed out.\<close>

definition health_ok :: "runtime_health_key hasher \<Rightarrow> runtime_health_registry \<Rightarrow> bool" where
  "health_ok hash reg \<longleftrightarrow> health_shards_ok hash reg \<and>
     (\<forall>k i x. health_get hash reg k = Some (AccountRecoveryInFlight i x) \<longrightarrow> i < hr_next_account_recovery_probe_id reg) \<and>
     (\<forall>k v i x. health_get hash reg k = Some (CircuitHalfOpen v i x) \<longrightarrow> i < hr_next_circuit_probe_id reg)"

text \<open>Where an entry after an operation comes from.\<close>

lemma health_entry_origin:
  assumes "health_effect hash clock op reg reg'" "health_get hash reg' k = Some st"
  shows "health_get hash reg k = Some st \<or> k = health_op_key op \<and> health_spec hash op reg = Some st \<and>
    hr_next_account_recovery_probe_id reg' = hr_next_account_recovery_probe_id reg + op_begins_recovery op \<and>
    hr_next_circuit_probe_id reg' = hr_next_circuit_probe_id reg + op_begins_probe op"
  using assms unfolding health_effect_def entry_effect_def by (cases "k = health_op_key op") auto

text \<open>And what becomes of an entry: it stays, is reclaimed, or its key's operation transforms it.\<close>

lemma health_entry_fate:
  assumes "health_effect hash clock op reg reg'" "health_get hash reg k = Some st"
  shows "health_get hash reg' k = Some st \<or> health_get hash reg' k = None \<and> reclaimable clock st \<or>
    k = health_op_key op \<and> health_get hash reg' k = health_spec hash op reg"
  using assms unfolding health_effect_def entry_effect_def by (cases "k = health_op_key op") auto

lemma health_next_mono:
  assumes "health_effect hash clock op reg reg'"
  shows "hr_next_account_recovery_probe_id reg \<le> hr_next_account_recovery_probe_id reg'"
    "hr_next_circuit_probe_id reg \<le> hr_next_circuit_probe_id reg'"
  using assms by (auto simp: health_effect_def)

text \<open>Only the beginning of a recovery puts a ticket in flight, under the next identifier.\<close>

lemma spec_recovery_ticket:
  "health_spec hash op reg = Some (AccountRecoveryInFlight i x) \<Longrightarrow>
     health_get hash reg (health_op_key op) = Some (AccountRecoveryInFlight i x) \<or>
     i = hr_next_account_recovery_probe_id reg \<and> op_begins_recovery op = 1"
  unfolding health_spec_def
  by (cases op) (auto simp: op_counts split: option.splits runtime_health_state.splits if_splits
      account_recovery_result.splits circuit_probe_result.splits)

lemma spec_circuit_ticket:
  "health_spec hash op reg = Some (CircuitHalfOpen v i x) \<Longrightarrow>
     health_get hash reg (health_op_key op) = Some (CircuitHalfOpen v i x) \<or>
     i = hr_next_circuit_probe_id reg \<and> op_begins_probe op = 1"
  unfolding health_spec_def
  by (cases op) (auto simp: op_counts split: option.splits runtime_health_state.splits if_splits
      account_recovery_result.splits circuit_probe_result.splits)

lemma health_ok_effect:
  assumes ok: "health_ok hash reg" and eff: "health_effect hash clock op reg reg'"
  shows "health_ok hash reg'"
  unfolding health_ok_def
proof (intro conjI allI impI)
  show "health_shards_ok hash reg'" using eff by (simp add: health_effect_def)
  show "i < hr_next_account_recovery_probe_id reg'" if "health_get hash reg' k = Some (AccountRecoveryInFlight i x)" for k i x
  proof -
    have "i < hr_next_account_recovery_probe_id reg \<or>
        i = hr_next_account_recovery_probe_id reg \<and> hr_next_account_recovery_probe_id reg' = hr_next_account_recovery_probe_id reg + 1"
      using health_entry_origin [OF eff that] spec_recovery_ticket [of hash op reg i x] ok
      unfolding health_ok_def by metis
    then show ?thesis using health_next_mono(1) [OF eff] by linarith
  qed
  show "i < hr_next_circuit_probe_id reg'" if "health_get hash reg' k = Some (CircuitHalfOpen v i x)" for k v i x
  proof -
    have "i < hr_next_circuit_probe_id reg \<or>
        i = hr_next_circuit_probe_id reg \<and> hr_next_circuit_probe_id reg' = hr_next_circuit_probe_id reg + 1"
      using health_entry_origin [OF eff that] spec_circuit_ticket [of hash op reg v i x] ok
      unfolding health_ok_def by metis
    then show ?thesis using health_next_mono(2) [OF eff] by linarith
  qed
qed

lemma health_exec_effect': "health_ok hash reg \<Longrightarrow> health_effect hash (fst cop) (snd cop) reg (health_exec hash cop reg)"
  using health_exec_effect [of hash reg "fst cop" "snd cop"] by (simp add: health_ok_def)

lemma health_exec_ok: "health_ok hash reg \<Longrightarrow> health_ok hash (health_exec hash cop reg)"
  by (rule health_ok_effect [OF _ health_exec_effect'])

lemma health_registry_ok:
  assumes "health_registry_try_with_shards n = Inr reg"
  shows "health_ok hash reg" "length (hr_shards reg) = n"
proof -
  have n: "validate_shard_count max_runtime_health_shard_count n = Inr ()"
    and reg: "hr_shards reg = build_shards n"
    using assms by (auto simp: health_registry_try_with_shards_def split: sum.splits)
  show "health_ok hash reg" unfolding health_ok_def health_shards_ok_def health_get_def reg
    by (simp add: build_shards_ok [OF n] shards_get_build [OF n])
  show "length (hr_shards reg) = n" by (simp add: reg build_shards_def)
qed

section \<open>Blocks that survive\<close>

definition account_blocked :: "runtime_health_key hasher \<Rightarrow> runtime_health_key \<Rightarrow> runtime_health_registry \<Rightarrow> bool" where
  "account_blocked hash k reg \<longleftrightarrow>
     (case health_get hash reg k of None \<Rightarrow> False | Some st \<Rightarrow> is_account_state st)"

definition lifts_account :: "runtime_health_key \<Rightarrow> clock_reading \<times> health_op \<Rightarrow> bool" where
  "lifts_account k cop \<longleftrightarrow>
     (case snd cop of OpCompleteRecovery p Allowed \<Rightarrow> hp_key p = k | _ \<Rightarrow> False)"

fun is_circuit_or_account :: "runtime_health_state \<Rightarrow> bool" where
  "is_circuit_or_account (CoolingDown _) \<longleftrightarrow> False"
| "is_circuit_or_account _ \<longleftrightarrow> True"

definition circuit_blocked :: "runtime_health_key hasher \<Rightarrow> runtime_health_key \<Rightarrow> runtime_health_registry \<Rightarrow> bool" where
  "circuit_blocked hash k reg \<longleftrightarrow>
     (case health_get hash reg k of None \<Rightarrow> False | Some st \<Rightarrow> is_circuit_or_account st)"

definition lifts_circuit :: "runtime_health_key \<Rightarrow> clock_reading \<times> health_op \<Rightarrow> bool" where
  "lifts_circuit k cop \<longleftrightarrow>
     (case snd cop of
        OpCompleteRecovery p Allowed \<Rightarrow> hp_key p = k
      | OpCompleteProbe p Healthy \<Rightarrow> hp_key p = k
      | OpMarkHealthy j \<Rightarrow> j = k
      | _ \<Rightarrow> False)"

text \<open>A ticket that no longer is the one in flight for its key.\<close>

definition recovery_retired :: "runtime_health_key hasher \<Rightarrow> account_recovery_probe \<Rightarrow> runtime_health_registry \<Rightarrow> bool" where
  "recovery_retired hash p reg \<longleftrightarrow> hp_probe_id p < hr_next_account_recovery_probe_id reg \<and>
     (\<forall>x. health_get hash reg (hp_key p) \<noteq> Some (AccountRecoveryInFlight (hp_probe_id p) x))"

definition circuit_retired :: "runtime_health_key hasher \<Rightarrow> circuit_probe \<Rightarrow> runtime_health_registry \<Rightarrow> bool" where
  "circuit_retired hash p reg \<longleftrightarrow> hp_probe_id p < hr_next_circuit_probe_id reg \<and>
     (\<forall>v x. health_get hash reg (hp_key p) \<noteq> Some (CircuitHalfOpen v (hp_probe_id p) x))"

lemma account_spec:
  "health_get hash reg (health_op_key op) = Some st \<Longrightarrow> is_account_state st \<Longrightarrow> \<not> lifts_account (health_op_key op) (clock, op) \<Longrightarrow>
     \<exists>st'. health_spec hash op reg = Some st' \<and> is_account_state st'"
  unfolding health_spec_def lifts_account_def
  by (cases op; cases st) (auto split: account_recovery_result.splits)

lemma circuit_spec:
  "health_get hash reg (health_op_key op) = Some st \<Longrightarrow> is_circuit_or_account st \<Longrightarrow>
     \<not> lifts_circuit (health_op_key op) (clock, op) \<Longrightarrow>
     \<exists>st'. health_spec hash op reg = Some st' \<and> is_circuit_or_account st'"
  unfolding health_spec_def lifts_circuit_def
  by (cases op; cases st) (auto split: account_recovery_result.splits circuit_probe_result.splits)

lemma reclaimable_cooldown: "reclaimable clock st \<Longrightarrow> \<exists>u. st = CoolingDown u"
  by (cases st) (auto simp: reclaimable_def split: option.splits)

interpretation account_block: blocking_registry "health_exec hash" "health_ok hash" "account_blocked hash k" "lifts_account k"
  for hash k
proof unfold_locales
  fix s cop
  show "health_ok hash s \<Longrightarrow> health_ok hash (health_exec hash cop s)" by (rule health_exec_ok)
  assume ok: "health_ok hash s" and b: "account_blocked hash k s" and l: "\<not> lifts_account k cop"
  obtain clock op where cop: "cop = (clock, op)" by fastforce
  obtain st where st: "health_get hash s k = Some st" "is_account_state st"
    using b by (auto simp: account_blocked_def split: option.splits)
  have nr: "\<not> reclaimable clock st" using st(2) reclaimable_cooldown by fastforce
  consider "health_get hash (health_exec hash cop s) k = Some st"
    | "k = health_op_key op" "health_get hash (health_exec hash cop s) k = health_spec hash op s"
    using health_entry_fate [OF health_exec_effect' [OF ok] st(1), of cop] nr by (auto simp: cop)
  then show "account_blocked hash k (health_exec hash cop s)"
    using st account_spec [of hash s op st clock] l by cases (auto simp: account_blocked_def cop)
qed

interpretation circuit_block: blocking_registry "health_exec hash" "health_ok hash" "circuit_blocked hash k" "lifts_circuit k"
  for hash k
proof unfold_locales
  fix s cop
  show "health_ok hash s \<Longrightarrow> health_ok hash (health_exec hash cop s)" by (rule health_exec_ok)
  assume ok: "health_ok hash s" and b: "circuit_blocked hash k s" and l: "\<not> lifts_circuit k cop"
  obtain clock op where cop: "cop = (clock, op)" by fastforce
  obtain st where st: "health_get hash s k = Some st" "is_circuit_or_account st"
    using b by (auto simp: circuit_blocked_def split: option.splits)
  have nr: "\<not> reclaimable clock st" using st(2) reclaimable_cooldown by fastforce
  consider "health_get hash (health_exec hash cop s) k = Some st"
    | "k = health_op_key op" "health_get hash (health_exec hash cop s) k = health_spec hash op s"
    using health_entry_fate [OF health_exec_effect' [OF ok] st(1), of cop] nr by (auto simp: cop)
  then show "circuit_blocked hash k (health_exec hash cop s)"
    using st circuit_spec [of hash s op st clock] l by cases (auto simp: circuit_blocked_def cop)
qed

interpretation retired_recovery: blocking_registry "health_exec hash" "health_ok hash" "recovery_retired hash p" "\<lambda>_. False"
  for hash p
proof unfold_locales
  fix s cop
  show "health_ok hash s \<Longrightarrow> health_ok hash (health_exec hash cop s)" by (rule health_exec_ok)
  assume ok: "health_ok hash s" and r: "recovery_retired hash p s"
  note eff = health_exec_effect' [OF ok, of cop]
  have "health_get hash (health_exec hash cop s) (hp_key p) \<noteq> Some (AccountRecoveryInFlight (hp_probe_id p) x)" for x
    using health_entry_origin [OF eff, of "hp_key p" "AccountRecoveryInFlight (hp_probe_id p) x"]
      spec_recovery_ticket [of hash "snd cop" s "hp_probe_id p" x] r
    unfolding recovery_retired_def by fastforce
  then show "recovery_retired hash p (health_exec hash cop s)"
    using r health_next_mono(1) [OF eff] by (simp add: recovery_retired_def)
qed

interpretation retired_circuit: blocking_registry "health_exec hash" "health_ok hash" "circuit_retired hash p" "\<lambda>_. False"
  for hash p
proof unfold_locales
  fix s cop
  show "health_ok hash s \<Longrightarrow> health_ok hash (health_exec hash cop s)" by (rule health_exec_ok)
  assume ok: "health_ok hash s" and r: "circuit_retired hash p s"
  note eff = health_exec_effect' [OF ok, of cop]
  have "health_get hash (health_exec hash cop s) (hp_key p) \<noteq> Some (CircuitHalfOpen v (hp_probe_id p) x)" for v x
    using health_entry_origin [OF eff, of "hp_key p" "CircuitHalfOpen v (hp_probe_id p) x"]
      spec_circuit_ticket [of hash "snd cop" s v "hp_probe_id p" x] r
    unfolding circuit_retired_def by fastforce
  then show "circuit_retired hash p (health_exec hash cop s)"
    using r health_next_mono(2) [OF eff] by (simp add: circuit_retired_def)
qed

text \<open>A ticket of the binding that is in flight at least until \<open>x\<close>, and the operations that end it.\<close>

definition recovery_pending ::
  "runtime_health_key hasher \<Rightarrow> runtime_health_key \<Rightarrow> i64 \<Rightarrow> runtime_health_registry \<Rightarrow> bool" where
  "recovery_pending hash k x reg \<longleftrightarrow> (\<exists>i y. health_get hash reg k = Some (AccountRecoveryInFlight i y) \<and> x \<le> y)"

fun ends_recovery :: "runtime_health_key \<Rightarrow> clock_reading \<times> health_op \<Rightarrow> bool" where
  "ends_recovery k (_, OpForbidden e c) \<longleftrightarrow> k = EndpointCredentialKey e c"
| "ends_recovery k (_, OpUnauthorized e c) \<longleftrightarrow> k = EndpointCredentialKey e c"
| "ends_recovery k (_, OpCompleteRecovery p _) \<longleftrightarrow> k = hp_key p"
| "ends_recovery k _ \<longleftrightarrow> False"

lemma health_get_stored:
  assumes "health_ok hash reg"
  shows "health_get hash (health_store hash k (bm_insert k v m) reg) k = Some v"
proof -
  have "shards_ok max_runtime_health_entries_per_shard hash (hr_shards reg)"
    using assms by (simp add: health_ok_def health_shards_ok_def)
  from shards_get_store [OF this] show ?thesis by (simp add: health_get_def health_store_def bm_get_insert)
qed

section \<open>Properties of the health registry\<close>

lemma begin_recovery_pending:
  assumes ok: "health_ok hash reg" and p: "recovery_pending hash (EndpointCredentialKey e c) x reg"
  shows "recovery_pending hash (EndpointCredentialKey e c) x (snd (begin_account_recovery hash clock e c z reg))"
proof (cases "\<exists>q reg'. begin_account_recovery hash clock e c z reg = (Inr (Some q), reg')")
  case False
  then have "snd (begin_account_recovery hash clock e c z reg) = reg"
    by (auto simp: begin_account_recovery_def checked_add_u64_def Let_def split: option.splits sum.splits if_splits)
  then show ?thesis using p by simp
next
  case True
  then obtain now m i y where "clock = Some now" "now < z" "y \<le> now" "x \<le> y"
    and r: "snd (begin_account_recovery hash clock e c z reg) =
      health_store hash (EndpointCredentialKey e c) (bm_insert (EndpointCredentialKey e c) (AccountRecoveryInFlight i z) m)
        (reg\<lparr>hr_next_account_recovery_probe_id := hr_next_account_recovery_probe_id reg + 1\<rparr>)"
    using p by (auto simp: begin_account_recovery_def recovery_pending_def validate_deadline_def lock_health_get Let_def
        checked_add_u64_def split: option.splits sum.splits if_splits)
  then have "x \<le> z" by simp
  then show ?thesis using health_get_stored [OF ok, of "EndpointCredentialKey e c" "AccountRecoveryInFlight i z" m]
    unfolding r recovery_pending_def by (simp add: health_get_def health_store_def)
qed

lemma spec_recovery_pending:
  "health_get hash reg (health_op_key op) = Some (AccountRecoveryInFlight i y) \<Longrightarrow>
     \<not> ends_recovery (health_op_key op) (clock, op) \<Longrightarrow> (\<forall>e c z. op \<noteq> OpBeginRecovery e c z) \<Longrightarrow>
     health_spec hash op reg = Some (AccountRecoveryInFlight i y)"
  by (cases op) (simp_all add: health_spec_def)

interpretation pending_recovery: blocking_registry "health_exec hash" "health_ok hash" "recovery_pending hash k x" "ends_recovery k"
  for hash k x
proof unfold_locales
  fix s cop
  show "health_ok hash s \<Longrightarrow> health_ok hash (health_exec hash cop s)" by (rule health_exec_ok)
  assume ok: "health_ok hash s" and p: "recovery_pending hash k x s" and l: "\<not> ends_recovery k cop"
  obtain clock op where cop: "cop = (clock, op)" by fastforce
  obtain i y where st: "health_get hash s k = Some (AccountRecoveryInFlight i y)" "x \<le> y"
    using p by (auto simp: recovery_pending_def)
  have nr: "\<not> reclaimable clock (AccountRecoveryInFlight i y)" using reclaimable_cooldown by fastforce
  consider "health_get hash (health_exec hash cop s) k = Some (AccountRecoveryInFlight i y)"
    | "k = health_op_key op" "health_get hash (health_exec hash cop s) k = health_spec hash op s"
    using health_entry_fate [OF health_exec_effect' [OF ok] st(1), of cop] nr by (auto simp: cop)
  then show "recovery_pending hash k x (health_exec hash cop s)"
  proof cases
    case 1
    then show ?thesis using st(2) by (auto simp: recovery_pending_def)
  next
    case 2
    show ?thesis
    proof (cases "\<exists>e c z. op = OpBeginRecovery e c z")
      case True
      then show ?thesis using begin_recovery_pending [OF ok] p 2(1) by (auto simp: cop)
    next
      case False
      then show ?thesis using spec_recovery_pending [of hash s op i y clock] st l 2 by (auto simp: cop recovery_pending_def)
    qed
  qed
qed

lemma health_exec_poisoned:
  "map sh_poisoned (hr_shards (health_exec hash cop reg)) = map sh_poisoned (hr_shards reg)"
proof -
  have st: "map sh_poisoned (hr_shards (health_store hash k m r)) = map sh_poisoned (hr_shards r)" for k m r
    by (simp add: health_store_def store_shard_poisoned)
  obtain clock op where cop: "cop = (clock, op)" by fastforce
  show ?thesis unfolding cop
    by (cases op)
      (simp_all add: st mark_credential_forbidden_def mark_credential_unauthorized_def mark_account_def
        begin_account_recovery_def complete_account_recovery_def cool_down_until_def open_circuit_until_def
        mark_healthy_def begin_circuit_probe_def complete_circuit_probe_def Let_def
        split: option.split sum.split prod.split runtime_health_state.split account_recovery_result.split
          circuit_probe_result.split)
qed

lemma health_exec_length: "length (hr_shards (health_exec hash cop reg)) = length (hr_shards reg)"
  using arg_cong [OF health_exec_poisoned, of length] by simp

lemma blocked_unavailable:
  "circuit_blocked hash k reg \<Longrightarrow> \<not> health_available hash reg k clock"
proof -
  assume b: "circuit_blocked hash k reg"
  then obtain st where st: "health_get hash reg k = Some st" "is_circuit_or_account st"
    by (auto simp: circuit_blocked_def split: option.splits)
  have "health_state_availability_at st now \<noteq> HealthAvailable" for now using st(2) by (cases st) auto
  then show ?thesis using st(1)
    by (auto simp: health_available_def health_availability_def health_availability_at_def health_is_available_def
        lock_health_get split: option.splits)
qed

lemma account_blocked_circuit: "account_blocked hash k reg \<Longrightarrow> circuit_blocked hash k reg"
  unfolding account_blocked_def circuit_blocked_def
  by (auto split: option.splits elim: is_account_state.elims)

lemma mark_account_blocks:
  assumes ok: "health_ok hash reg" and st: "is_account_state st"
    and run: "mark_account st hash clock e c reg = (Inr (), reg')"
  shows "account_blocked hash (EndpointCredentialKey e c) reg'" and "health_get hash reg' (EndpointCredentialKey e c) = Some st"
    and "clock \<noteq> None"
proof -
  let ?k = "EndpointCredentialKey e c"
  obtain m m0 where m: "lock_shard hash (hr_shards reg) ?k = Some m" and reg': "reg' = health_store hash ?k (bm_insert ?k st m0) reg"
    using run by (auto simp: mark_account_def Let_def split: option.splits prod.splits sum.splits)
  show get: "health_get hash reg' ?k = Some st"
    unfolding reg' by (rule health_get_stored [OF ok])
  show "account_blocked hash ?k reg'" using get st by (simp add: account_blocked_def)
  show "clock \<noteq> None" using run by (cases clock) (simp_all add: mark_account_def)
qed

text \<open>
  C31: Once a 401 or 403 has been recorded for a binding, the binding stays unavailable, at every
  reading of the clock, through every sequence of registry operations (cooldowns, circuits, probes,
  successful probes, evictions, other bindings' recoveries) that does not complete a recovery ticket
  of this very binding with the result \<open>Allowed\<close>.
\<close>

theorem account_block_survives:
  assumes "health_ok hash reg"
    and "mark_credential_forbidden hash clock e c reg = (Inr (), reg') \<or>
      mark_credential_unauthorized hash clock e c reg = (Inr (), reg')"
    and "list_all (\<lambda>cop. \<not> lifts_account (EndpointCredentialKey e c) cop) ops"
  shows "\<not> endpoint_credential_is_available hash (fold (health_exec hash) ops reg') e c now"
proof -
  have "account_blocked hash (EndpointCredentialKey e c) reg'"
    using assms(2) unfolding mark_credential_forbidden_def mark_credential_unauthorized_def
    by (elim disjE; intro mark_account_blocks [OF assms(1)]; simp)
  moreover have "health_ok hash reg'"
    using health_exec_ok [OF assms(1), of "(clock, OpForbidden e c)"] health_exec_ok [OF assms(1), of "(clock, OpUnauthorized e c)"]
      assms(2) by auto
  ultimately have "account_blocked hash (EndpointCredentialKey e c) (fold (health_exec hash) ops reg')"
    using account_block.blocked_run assms(3) by blast
  then show ?thesis unfolding endpoint_credential_is_available_def
    by (intro blocked_unavailable account_blocked_circuit)
qed

lemma open_circuit_blocks:
  assumes ok: "health_ok hash reg" and run: "open_circuit_until hash clock k r reg = (Inr (), reg')"
  shows "circuit_blocked hash k reg'"
proof -
  obtain now m where h: "clock = Some now" "validate_deadline r now = Inr ()" and m: "lock_shard hash (hr_shards reg) k = Some m"
    using run by (auto simp: open_circuit_until_def split: option.splits sum.splits)
  note get = health_get_stored [OF ok]
  have bg: "bm_get m k = health_get hash reg k" by (rule lock_health_get [OF m])
  show ?thesis
  proof (cases "health_get hash reg k")
    case None
    then show ?thesis using run get
      by (auto simp: open_circuit_until_def h m bg circuit_blocked_def split: prod.splits sum.splits)
  next
    case (Some st)
    then show ?thesis using run get by (cases st) (auto simp: open_circuit_until_def h m bg circuit_blocked_def)
  qed
qed

text \<open>
  C32: An open circuit never closes by itself: after \<open>open_circuit_until\<close> the key is unavailable at
  every reading of the clock, also past the retry instant, until an operation on this key marks it
  healthy, completes one of its probes as healthy or completes one of its account recoveries as
  allowed.
\<close>

theorem open_circuit_survives:
  assumes "health_ok hash reg" "open_circuit_until hash clock k r reg = (Inr (), reg')"
    and "list_all (\<lambda>cop. \<not> lifts_circuit k cop) ops"
  shows "\<not> health_available hash (fold (health_exec hash) ops reg') k now"
proof -
  have "health_ok hash reg'" using health_exec_ok [OF assms(1), of "(clock, OpOpenCircuit k r)"] assms(2) by simp
  then show ?thesis
    using circuit_block.blocked_run [OF _ open_circuit_blocks [OF assms(1,2)] assms(3)] blocked_unavailable by blast
qed

text \<open>
  C36: The registry is bounded and consistent in every reachable state: no shard ever holds more than
  1024 entries, every entry lies in the shard its key hashes to, every ticket in flight carries an
  identifier below the next one, and the entry count is at most 1024 times the number of shards.
\<close>

theorem health_registry_bounded:
  assumes "health_registry_try_with_shards n = Inr reg"
  shows "health_ok hash (fold (health_exec hash) ops reg) \<and>
    (case health_entry_count (fold (health_exec hash) ops reg) of Inl _ \<Rightarrow> True | Inr count \<Rightarrow> count \<le> n * 1024)"
proof -
  let ?reg = "fold (health_exec hash) ops reg"
  have ok: "health_ok hash ?reg" using account_block.inv_run health_registry_ok(1) [OF assms] by blast
  have len: "length (hr_shards ?reg) = n"
    using health_registry_ok(2) [OF assms] by (induction ops arbitrary: reg) (simp_all add: health_exec_length)
  have "\<forall>sh \<in> set (hr_shards ?reg). length (sh_map sh) \<le> 1024"
    using ok by (auto simp: health_ok_def health_shards_ok_def shards_ok_def max_runtime_health_entries_per_shard_def in_set_conv_nth)
  then have "count_entries (hr_shards ?reg) 0 = Some count \<Longrightarrow> count \<le> n * 1024" for count
    using count_entries_le [of "hr_shards ?reg" 0 count 1024] len by simp
  then show ?thesis using ok by (auto simp: health_entry_count_def ok_or_def split: option.splits)
qed

lemma health_lock_iff:
  assumes "health_ok hash reg"
  shows "lock_shard hash (hr_shards reg) k =
    (if map sh_poisoned (hr_shards reg) ! shard_index hash (hr_shards reg) k then None
     else Some (sh_map (hr_shards reg ! shard_index hash (hr_shards reg) k)))"
proof -
  have "shard_index hash (hr_shards reg) k < length (hr_shards reg)"
    using assms by (intro shard_index_lt) (simp add: health_ok_def health_shards_ok_def shards_ok_def)
  then show ?thesis by (simp add: lock_shard_def Let_def)
qed

text \<open>Availability as a function of the poisoned flag of the key's shard and of its entry.\<close>

lemma health_availability_view:
  assumes "health_ok hash reg"
  shows "health_availability_at hash reg k t =
    (if map sh_poisoned (hr_shards reg) ! shard_index hash (hr_shards reg) k then Inl HealthShardLockPoisoned
     else Inr (case health_get hash reg k of None \<Rightarrow> HealthAvailable | Some st \<Rightarrow> health_state_availability_at st t))"
  unfolding health_availability_at_def health_lock_iff [OF assms]
  by (simp add: health_get_def shards_get_def)

text \<open>
  Operations are isolated: an operation on one key, at clock reading \<open>now\<close>, leaves the
  availability of every other key unchanged at every instant from \<open>now\<close> on, even when it reclaims
  entries of the same shard to make room.
\<close>

lemma health_operation_isolated:
  assumes "health_ok hash reg" "j \<noteq> health_op_key op" "now \<le> t"
  shows "health_availability_at hash (health_exec hash (Some now, op) reg) j t = health_availability_at hash reg j t"
proof -
  let ?reg = "health_exec hash (Some now, op) reg"
  have idx: "shard_index hash (hr_shards ?reg) j = shard_index hash (hr_shards reg) j"
    by (simp add: shard_index_def health_exec_length)
  have "health_get hash ?reg j = health_get hash reg j \<or>
      (\<exists>u. health_get hash reg j = Some (CoolingDown u) \<and> u \<le> now \<and> health_get hash ?reg j = None)"
    using health_exec_effect' [OF assms(1), of "(Some now, op)"] assms(2) reclaimable_cooldown
    unfolding health_effect_def entry_effect_def by (fastforce simp: reclaimable_def)
  then show ?thesis
    unfolding health_availability_view [OF assms(1)] health_availability_view [OF health_exec_ok [OF assms(1)]]
      health_exec_poisoned idx
    using assms(3) by auto
qed

text \<open>
  \<open>cool_down_until\<close> on every branch: it fails without touching the key exactly when the clock is
  unavailable, the deadline is not in the future, the shard is poisoned, or the key is new and the
  shard is full of entries that are not expired cooldowns; otherwise a new key cools down until the
  deadline, a cooling key until the later of both deadlines, and a circuit or account block stays.
\<close>

lemma cool_down_exact:
  assumes "health_ok hash reg" "cool_down_until hash clock k u reg = (r, reg')"
  shows "health_get hash reg' k =
      (case r of Inl _ \<Rightarrow> health_get hash reg k | Inr _ \<Rightarrow>
        (case health_get hash reg k of
           None \<Rightarrow> Some (CoolingDown u)
         | Some (CoolingDown v) \<Rightarrow> Some (CoolingDown (max v u))
         | Some st \<Rightarrow> Some st)) \<and>
    (case r of
       Inr _ \<Rightarrow> \<exists>now. clock = Some now \<and> now < u
     | Inl HealthClockUnavailable \<Rightarrow> clock = None
     | Inl DeadlineNotInFuture \<Rightarrow> \<exists>now. clock = Some now \<and> u \<le> now
     | Inl HealthShardLockPoisoned \<Rightarrow> lock_shard hash (hr_shards reg) k = None
     | Inl HealthShardCapacityExceeded \<Rightarrow> health_get hash reg k = None \<and>
         (\<exists>now. clock = Some now \<and>
           1024 \<le> length (filter (\<lambda>e. \<not> is_expired_cooldown now (snd e)) (the (lock_shard hash (hr_shards reg) k))))
     | Inl _ \<Rightarrow> False)"
proof (cases "\<exists>now m. clock = Some now \<and> \<not> u \<le> now \<and> lock_shard hash (hr_shards reg) k = Some m")
  case False
  then show ?thesis using assms(2)
    by (auto simp: cool_down_until_def validate_deadline_def split: option.splits if_splits)
next
  case True
  then obtain now m where h: "clock = Some now" "\<not> u \<le> now" and m: "lock_shard hash (hr_shards reg) k = Some m" by blast
  have bg: "bm_get m k = health_get hash reg k" by (rule lock_health_get [OF m])
  note get = health_get_stored [OF assms(1)]
  show ?thesis
  proof (cases "health_get hash reg k")
    case (Some st)
    then show ?thesis using assms(2) get h
      by (cases st) (auto simp: cool_down_until_def validate_deadline_def m bg)
  next
    case None
    let ?keep = "bm_retain (\<lambda>_ st. \<not> is_expired_cooldown now st) m"
    obtain r' m' where cap: "health_ensure_insert_capacity m now = (r', m')" by fastforce
    have ok: "shards_ok max_runtime_health_entries_per_shard hash (hr_shards reg)"
      using assms(1) by (simp add: health_ok_def health_shards_ok_def)
    have same: "health_get hash (health_store hash k ?keep reg) k = None"
      using store_retain(2) [OF ok m, of "\<lambda>_ st. \<not> is_expired_cooldown now st" "is_expired_cooldown now"] None
      unfolding health_get_def health_store_def entry_effect_def by simp
    show ?thesis
    proof (cases r')
      case (Inl err)
      then have "err = HealthShardCapacityExceeded" "m' = ?keep" "1024 \<le> length ?keep"
        using cap by (auto simp: health_ensure_insert_capacity_def max_runtime_health_entries_per_shard_def Let_def split: if_splits)
      then show ?thesis using assms(2) None Inl cap h same
        by (auto simp: cool_down_until_def validate_deadline_def m bg bm_retain_def split_beta)
    next
      case (Inr x)
      then show ?thesis using assms(2) None cap h get by (auto simp: cool_down_until_def validate_deadline_def m bg)
    qed
  qed
qed

section \<open>Tickets\<close>

lemma recovery_next_run:
  "health_ok hash reg \<Longrightarrow> hr_next_account_recovery_probe_id reg
     \<le> hr_next_account_recovery_probe_id (fold (health_exec hash) ops reg)"
proof (induction ops arbitrary: reg)
  case (Cons cop ops)
  from health_next_mono(1) [OF health_exec_effect' [OF Cons.prems, of cop]] Cons.IH [OF health_exec_ok [OF Cons.prems, of cop]]
  show ?case by simp
qed simp

lemma circuit_next_run:
  "health_ok hash reg \<Longrightarrow> hr_next_circuit_probe_id reg \<le> hr_next_circuit_probe_id (fold (health_exec hash) ops reg)"
proof (induction ops arbitrary: reg)
  case (Cons cop ops)
  from health_next_mono(2) [OF health_exec_effect' [OF Cons.prems, of cop]] Cons.IH [OF health_exec_ok [OF Cons.prems, of cop]]
  show ?case by simp
qed simp

lemma begin_recovery_ticket:
  assumes "health_ok hash reg" "begin_account_recovery hash clock e c x reg = (Inr (Some p), reg')"
  shows "p = \<lparr>hp_key = EndpointCredentialKey e c, hp_probe_id = hr_next_account_recovery_probe_id reg, hp_expires_at_ms = x\<rparr>"
    "hr_next_account_recovery_probe_id reg' = hr_next_account_recovery_probe_id reg + 1"
    "health_get hash reg' (EndpointCredentialKey e c) = Some (AccountRecoveryInFlight (hr_next_account_recovery_probe_id reg) x)"
    "health_ok hash reg'"
proof -
  obtain m where reg': "reg' = health_store hash (EndpointCredentialKey e c)
      (bm_insert (EndpointCredentialKey e c) (AccountRecoveryInFlight (hr_next_account_recovery_probe_id reg) x) m)
      (reg\<lparr>hr_next_account_recovery_probe_id := hr_next_account_recovery_probe_id reg + 1\<rparr>)"
    and p: "p = \<lparr>hp_key = EndpointCredentialKey e c, hp_probe_id = hr_next_account_recovery_probe_id reg, hp_expires_at_ms = x\<rparr>"
    using assms(2) by (auto simp: begin_account_recovery_def Let_def split: option.splits sum.splits if_splits)
  show "p = \<lparr>hp_key = EndpointCredentialKey e c, hp_probe_id = hr_next_account_recovery_probe_id reg, hp_expires_at_ms = x\<rparr>"
    by (rule p)
  show "hr_next_account_recovery_probe_id reg' = hr_next_account_recovery_probe_id reg + 1"
    by (simp add: reg' health_store_def)
  show "health_get hash reg' (EndpointCredentialKey e c) = Some (AccountRecoveryInFlight (hr_next_account_recovery_probe_id reg) x)"
    using health_get_stored [OF assms(1), of "EndpointCredentialKey e c"] by (simp add: reg' health_get_def health_store_def)
  show "health_ok hash reg'" using health_exec_ok [OF assms(1), of "(clock, OpBeginRecovery e c x)"] assms(2) by simp
qed

lemma complete_recovery_ok:
  assumes "health_ok hash reg" "complete_account_recovery hash clock p r reg = (Inr (), reg')"
  shows "health_get hash reg (hp_key p) = Some (AccountRecoveryInFlight (hp_probe_id p) (hp_expires_at_ms p))"
    "health_get hash reg' (hp_key p) = (case r of Allowed \<Rightarrow> None | Forbidden \<Rightarrow> Some AccountForbidden)"
    "hr_next_account_recovery_probe_id reg' = hr_next_account_recovery_probe_id reg" "health_ok hash reg'"
proof -
  obtain m where m: "lock_shard hash (hr_shards reg) (hp_key p) = Some m"
    and g: "bm_get m (hp_key p) = Some (AccountRecoveryInFlight (hp_probe_id p) (hp_expires_at_ms p))"
    and reg': "reg' = health_store hash (hp_key p) (case r of Allowed \<Rightarrow> bm_remove (hp_key p) m
      | Forbidden \<Rightarrow> bm_insert (hp_key p) AccountForbidden m) reg"
    using assms(2) by (auto simp: complete_account_recovery_def split: option.splits runtime_health_state.splits
        if_splits account_recovery_result.splits)
  have ok: "shards_ok max_runtime_health_entries_per_shard hash (hr_shards reg)"
    using assms(1) by (simp add: health_ok_def health_shards_ok_def)
  show "health_get hash reg (hp_key p) = Some (AccountRecoveryInFlight (hp_probe_id p) (hp_expires_at_ms p))"
    using g lock_health_get [OF m] by simp
  show "health_get hash reg' (hp_key p) = (case r of Allowed \<Rightarrow> None | Forbidden \<Rightarrow> Some AccountForbidden)"
    using health_get_stored [OF assms(1)] store_remove(2) [OF ok m]
    by (cases r) (simp_all add: reg' health_get_def health_store_def entry_effect_def)
  show "hr_next_account_recovery_probe_id reg' = hr_next_account_recovery_probe_id reg" by (simp add: reg' health_store_def)
  show "health_ok hash reg'" using health_exec_ok [OF assms(1), of "(clock, OpCompleteRecovery p r)"] assms(2) by simp
qed

lemma retired_never_completes:
  "health_ok hash reg \<Longrightarrow> recovery_retired hash p reg \<Longrightarrow> fst (complete_account_recovery hash clock p r (fold (health_exec hash) ops reg)) \<noteq> Inr ()"
proof
  assume ok: "health_ok hash reg" and ret: "recovery_retired hash p reg"
    and c: "fst (complete_account_recovery hash clock p r (fold (health_exec hash) ops reg)) = Inr ()"
  let ?s = "fold (health_exec hash) ops reg"
  have oks: "health_ok hash ?s" using retired_recovery.inv_run ok by blast
  have "recovery_retired hash p ?s" using retired_recovery.blocked_run [OF ok ret, of ops] by (simp add: list_all_iff)
  moreover obtain reg' where "complete_account_recovery hash clock p r ?s = (Inr (), reg')" using c by (metis prod.collapse)
  ultimately show False using complete_recovery_ok(1) [OF oks] by (auto simp: recovery_retired_def)
qed

text \<open>
  C34: An account-recovery ticket is exclusive and single use: before it expires no second ticket is issued
  for its binding, through every run of operations that neither marks the binding forbidden or
  unauthorized again nor completes a ticket of it; and once another ticket has been issued for the
  binding, or the ticket has been completed, no later completion of it ever succeeds, whatever happens
  in between.
\<close>

theorem recovery_ticket_single_use:
  assumes "health_ok hash reg" "begin_account_recovery hash clock e c x reg = (Inr (Some p), reg1)"
  shows "(list_all (\<lambda>cop. \<not> ends_recovery (EndpointCredentialKey e c) cop) ops1 \<and> now < x \<longrightarrow>
      fst (begin_account_recovery hash (Some now) e c y (fold (health_exec hash) ops1 reg1)) \<noteq> Inr (Some q)) \<and>
    (begin_account_recovery hash clock1 e c y (fold (health_exec hash) ops1 reg1) = (Inr (Some q), reg2) \<or>
     complete_account_recovery hash clock1 p r1 (fold (health_exec hash) ops1 reg1) = (Inr (), reg2) \<longrightarrow>
     fst (complete_account_recovery hash clock2 p r2 (fold (health_exec hash) ops2 reg2)) \<noteq> Inr ())"
proof (intro conjI impI)
  note t = begin_recovery_ticket [OF assms]
  let ?s = "fold (health_exec hash) ops1 reg1"
  have ok: "health_ok hash ?s" using retired_recovery.inv_run t(4) by blast
  show "fst (begin_account_recovery hash (Some now) e c y ?s) \<noteq> Inr (Some q)"
    if l: "list_all (\<lambda>cop. \<not> ends_recovery (EndpointCredentialKey e c) cop) ops1 \<and> now < x"
  proof -
    have "recovery_pending hash (EndpointCredentialKey e c) x reg1" using t(3) by (auto simp: recovery_pending_def)
    from pending_recovery.blocked_run [OF t(4) this, of ops1] l show ?thesis
      by (auto simp: recovery_pending_def begin_account_recovery_def Let_def lock_health_get split: option.splits sum.splits if_splits)
  qed
  have older: "hp_probe_id p < hr_next_account_recovery_probe_id ?s"
    using recovery_next_run [OF t(4), of ops1] t(1,2) by simp
  assume "begin_account_recovery hash clock1 e c y ?s = (Inr (Some q), reg2) \<or>
     complete_account_recovery hash clock1 p r1 ?s = (Inr (), reg2)"
  then have "recovery_retired hash p reg2 \<and> health_ok hash reg2"
  proof
    assume "begin_account_recovery hash clock1 e c y ?s = (Inr (Some q), reg2)"
    from begin_recovery_ticket [OF ok this] older show ?thesis by (simp add: recovery_retired_def t(1))
  next
    assume "complete_account_recovery hash clock1 p r1 ?s = (Inr (), reg2)"
    from complete_recovery_ok [OF ok this] older show ?thesis
      by (auto simp: recovery_retired_def split: account_recovery_result.splits)
  qed
  then show "fst (complete_account_recovery hash clock2 p r2 (fold (health_exec hash) ops2 reg2)) \<noteq> Inr ()"
    using retired_never_completes by blast
qed

lemma open_circuit_not_half_open:
  assumes ok: "health_ok hash reg" and run: "open_circuit_until hash clock k r reg = (Inr (), reg')"
  shows "health_get hash reg' k \<noteq> Some (CircuitHalfOpen v i x)"
    "hr_next_circuit_probe_id reg' = hr_next_circuit_probe_id reg" "health_ok hash reg'"
proof -
  show ok': "health_ok hash reg'" using health_exec_ok [OF ok, of "(clock, OpOpenCircuit k r)"] run by simp
  obtain now m where h: "clock = Some now" "validate_deadline r now = Inr ()" and m: "lock_shard hash (hr_shards reg) k = Some m"
    using run by (auto simp: open_circuit_until_def split: option.splits sum.splits)
  have bg: "bm_get m k = health_get hash reg k" by (rule lock_health_get [OF m])
  note get = health_get_stored [OF ok]
  have "health_get hash reg' k \<noteq> Some (CircuitHalfOpen v i x) \<and> hr_next_circuit_probe_id reg' = hr_next_circuit_probe_id reg"
  proof (cases "health_get hash reg k")
    case None
    then show ?thesis using run get
      by (auto simp: open_circuit_until_def h m bg health_store_def split: prod.splits sum.splits)
  next
    case (Some st)
    then show ?thesis using run get by (cases st) (auto simp: open_circuit_until_def h m bg health_store_def)
  qed
  then show "health_get hash reg' k \<noteq> Some (CircuitHalfOpen v i x)"
    "hr_next_circuit_probe_id reg' = hr_next_circuit_probe_id reg" by simp_all
qed

lemma begin_probe_ticket:
  assumes "health_ok hash reg" "begin_circuit_probe hash clock k x reg = (Inr (Some p), reg')"
  shows "p = \<lparr>hp_key = k, hp_probe_id = hr_next_circuit_probe_id reg, hp_expires_at_ms = x\<rparr>"
    "hr_next_circuit_probe_id reg' = hr_next_circuit_probe_id reg + 1"
    "\<exists>v. health_get hash reg' k = Some (CircuitHalfOpen v (hr_next_circuit_probe_id reg) x)"
    "health_ok hash reg'"
proof -
  obtain m v where reg': "reg' = health_store hash k (bm_insert k (CircuitHalfOpen v (hr_next_circuit_probe_id reg) x) m)
      (reg\<lparr>hr_next_circuit_probe_id := hr_next_circuit_probe_id reg + 1\<rparr>)"
    and p: "p = \<lparr>hp_key = k, hp_probe_id = hr_next_circuit_probe_id reg, hp_expires_at_ms = x\<rparr>"
    using assms(2) by (auto simp: begin_circuit_probe_def Let_def split: option.splits sum.splits if_splits)
  show "p = \<lparr>hp_key = k, hp_probe_id = hr_next_circuit_probe_id reg, hp_expires_at_ms = x\<rparr>" by (rule p)
  show "hr_next_circuit_probe_id reg' = hr_next_circuit_probe_id reg + 1" by (simp add: reg' health_store_def)
  show "\<exists>v. health_get hash reg' k = Some (CircuitHalfOpen v (hr_next_circuit_probe_id reg) x)"
    using health_get_stored [OF assms(1), of k] by (simp add: reg' health_get_def health_store_def)
  show "health_ok hash reg'" using health_exec_ok [OF assms(1), of "(clock, OpBeginProbe k x)"] assms(2) by simp
qed

lemma complete_probe_ok:
  assumes "health_ok hash reg" "complete_circuit_probe hash clock p r reg = (Inr (), reg')"
  shows "\<exists>v. health_get hash reg (hp_key p) = Some (CircuitHalfOpen v (hp_probe_id p) (hp_expires_at_ms p))"
    "health_get hash reg' (hp_key p) = (case r of Healthy \<Rightarrow> None | Unhealthy y \<Rightarrow> Some (CircuitOpen y))"
    "hr_next_circuit_probe_id reg' = hr_next_circuit_probe_id reg" "health_ok hash reg'"
proof -
  obtain m v where m: "lock_shard hash (hr_shards reg) (hp_key p) = Some m"
    and g: "bm_get m (hp_key p) = Some (CircuitHalfOpen v (hp_probe_id p) (hp_expires_at_ms p))"
    and reg': "reg' = health_store hash (hp_key p) (case r of Healthy \<Rightarrow> bm_remove (hp_key p) m
      | Unhealthy y \<Rightarrow> bm_insert (hp_key p) (CircuitOpen y) m) reg"
    using assms(2) by (auto simp: complete_circuit_probe_def split: option.splits runtime_health_state.splits
        if_splits circuit_probe_result.splits sum.splits)
  have ok: "shards_ok max_runtime_health_entries_per_shard hash (hr_shards reg)"
    using assms(1) by (simp add: health_ok_def health_shards_ok_def)
  show "\<exists>v. health_get hash reg (hp_key p) = Some (CircuitHalfOpen v (hp_probe_id p) (hp_expires_at_ms p))"
    using g lock_health_get [OF m] by simp
  show "health_get hash reg' (hp_key p) = (case r of Healthy \<Rightarrow> None | Unhealthy y \<Rightarrow> Some (CircuitOpen y))"
    using health_get_stored [OF assms(1)] store_remove(2) [OF ok m]
    by (cases r) (simp_all add: reg' health_get_def health_store_def entry_effect_def)
  show "hr_next_circuit_probe_id reg' = hr_next_circuit_probe_id reg" by (simp add: reg' health_store_def)
  show "health_ok hash reg'" using health_exec_ok [OF assms(1), of "(clock, OpCompleteProbe p r)"] assms(2) by simp
qed

text \<open>
  A half-open circuit probe is exclusive and single use: until it expires no second probe is
  issued for its key; and once another probe has been issued for the key, the circuit has been
  reopened or the probe has been completed, no later completion of it ever succeeds.
\<close>

lemma circuit_ticket_single_use:
  assumes "health_ok hash reg" "begin_circuit_probe hash clock k x reg = (Inr (Some p), reg1)"
  shows "(now < x \<longrightarrow> fst (begin_circuit_probe hash (Some now) k y reg1) \<noteq> Inr (Some q)) \<and>
    (begin_circuit_probe hash clock1 k y (fold (health_exec hash) ops1 reg1) = (Inr (Some q), reg2) \<or>
     open_circuit_until hash clock1 k y (fold (health_exec hash) ops1 reg1) = (Inr (), reg2) \<or>
     complete_circuit_probe hash clock1 p r1 (fold (health_exec hash) ops1 reg1) = (Inr (), reg2) \<longrightarrow>
     fst (complete_circuit_probe hash clock2 p r2 (fold (health_exec hash) ops2 reg2)) \<noteq> Inr ())"
proof (intro conjI impI)
  note t = begin_probe_ticket [OF assms]
  let ?s = "fold (health_exec hash) ops1 reg1" and ?t = "fold (health_exec hash) ops2 reg2"
  have ok: "health_ok hash ?s" using retired_circuit.inv_run t(4) by blast
  show "fst (begin_circuit_probe hash (Some now) k y reg1) \<noteq> Inr (Some q)" if "now < x"
    using that t(3) by (auto simp: begin_circuit_probe_def lock_health_get split: option.splits sum.splits if_splits)
  have older: "hp_probe_id p < hr_next_circuit_probe_id ?s"
    using circuit_next_run [OF t(4), of ops1] t(1,2) by simp
  assume "begin_circuit_probe hash clock1 k y ?s = (Inr (Some q), reg2) \<or>
     open_circuit_until hash clock1 k y ?s = (Inr (), reg2) \<or> complete_circuit_probe hash clock1 p r1 ?s = (Inr (), reg2)"
  then have ret: "circuit_retired hash p reg2 \<and> health_ok hash reg2"
  proof (elim disjE)
    assume "begin_circuit_probe hash clock1 k y ?s = (Inr (Some q), reg2)"
    from begin_probe_ticket [OF ok this] older show ?thesis by (auto simp: circuit_retired_def t(1))
  next
    assume "open_circuit_until hash clock1 k y ?s = (Inr (), reg2)"
    from open_circuit_not_half_open [OF ok this] older show ?thesis by (auto simp: circuit_retired_def t(1))
  next
    assume "complete_circuit_probe hash clock1 p r1 ?s = (Inr (), reg2)"
    from complete_probe_ok [OF ok this] older show ?thesis
      by (auto simp: circuit_retired_def split: circuit_probe_result.splits)
  qed
  have okt: "health_ok hash ?t" using retired_circuit.inv_run ret by blast
  have rett: "circuit_retired hash p ?t" using retired_circuit.blocked_run [of hash reg2 p ops2] ret by (simp add: list_all_iff)
  show "fst (complete_circuit_probe hash clock2 p r2 ?t) \<noteq> Inr ()"
  proof
    assume "fst (complete_circuit_probe hash clock2 p r2 ?t) = Inr ()"
    then obtain reg' where "complete_circuit_probe hash clock2 p r2 ?t = (Inr (), reg')" by (metis prod.collapse)
    from complete_probe_ok(1) [OF okt this] rett show False by (auto simp: circuit_retired_def)
  qed
qed

text \<open>A one-shard registry for the witnesses.\<close>

definition sample_hash :: "runtime_health_key hasher" where
  "sample_hash k = 0"

definition sample_health :: "(runtime_health_key \<times> runtime_health_state) list \<Rightarrow> u64 \<Rightarrow> u64 \<Rightarrow> runtime_health_registry" where
  "sample_health m na nc =
     \<lparr>hr_shards = [\<lparr>sh_map = m, sh_poisoned = False\<rparr>], hr_next_circuit_probe_id = nc,
      hr_next_account_recovery_probe_id = na\<rparr>"

lemma sample_health_built: "health_registry_try_with_shards 1 = Inr (sample_health [] 1 1)"
  by code_simp

lemma sample_health_ok: "health_ok sample_hash (sample_health [] 1 1)"
  by (rule health_registry_ok(1) [OF sample_health_built])

theorem account_block_survives_witness:
  "\<not> endpoint_credential_is_available sample_hash
     (fold (health_exec sample_hash)
        [(Some 5, OpMarkHealthy (EndpointCredentialKey ''e'' ''c'')), (Some 6, OpBeginRecovery ''e'' ''c'' 9),
         (Some 9, OpCoolDown (EndpointKey ''e'') 20)]
        (snd (mark_credential_forbidden sample_hash (Some 1) ''e'' ''c'' (sample_health [] 1 1)))) ''e'' ''c'' (Some 100)"
proof -
  let ?run = "mark_credential_forbidden sample_hash (Some 1) ''e'' ''c'' (sample_health [] 1 1)"
  have "fst ?run = Inr ()" by code_simp
  then have run: "?run = (Inr (), snd ?run)" by (metis prod.collapse)
  show ?thesis by (rule account_block_survives [OF sample_health_ok disjI1 [OF run]]) (simp add: lifts_account_def)
qed

theorem open_circuit_survives_witness:
  "\<not> health_available sample_hash
     (fold (health_exec sample_hash) [(Some 50, OpBeginProbe (EndpointKey ''e'') 60), (Some 70, OpCoolDown (EndpointKey ''e'') 80)]
        (snd (open_circuit_until sample_hash (Some 1) (EndpointKey ''e'') 40 (sample_health [] 1 1))))
     (EndpointKey ''e'') (Some 1000)"
proof -
  let ?run = "open_circuit_until sample_hash (Some 1) (EndpointKey ''e'') 40 (sample_health [] 1 1)"
  have "fst ?run = Inr ()" by code_simp
  then have run: "?run = (Inr (), snd ?run)" by (metis prod.collapse)
  show ?thesis by (rule open_circuit_survives [OF sample_health_ok run]) (simp add: lifts_circuit_def)
qed

theorem health_registry_bounded_witness:
  "health_ok sample_hash (fold (health_exec sample_hash) [(Some 1, OpForbidden ''e'' ''c'')] (sample_health [] 1 1))"
  using health_registry_bounded [OF sample_health_built, of sample_hash "[(Some 1, OpForbidden ''e'' ''c'')]"] by simp

lemma health_operation_isolated_sample:
  "health_availability_at sample_hash
     (health_exec sample_hash (Some 1, OpForbidden ''e'' ''c'') (sample_health [] 1 1)) (EndpointKey ''e'') 2
   = Inr HealthAvailable"
proof -
  have "EndpointKey ''e'' \<noteq> health_op_key (OpForbidden ''e'' ''c'')" "(1 :: int) \<le> 2" by simp_all
  from health_operation_isolated [OF sample_health_ok this]
  have "health_availability_at sample_hash
     (health_exec sample_hash (Some 1, OpForbidden ''e'' ''c'') (sample_health [] 1 1)) (EndpointKey ''e'') 2
     = health_availability_at sample_hash (sample_health [] 1 1) (EndpointKey ''e'') 2" .
  also have "\<dots> = Inr HealthAvailable" by code_simp
  finally show ?thesis .
qed

lemma cool_down_exact_sample:
  "health_get sample_hash (snd (cool_down_until sample_hash (Some 1) (EndpointKey ''e'') 40 (sample_health [] 1 1)))
     (EndpointKey ''e'') = Some (CoolingDown 40)"
proof -
  let ?run = "cool_down_until sample_hash (Some 1) (EndpointKey ''e'') 40 (sample_health [] 1 1)"
  have "fst ?run = Inr ()" "health_get sample_hash (sample_health [] 1 1) (EndpointKey ''e'') = None" by code_simp+
  moreover from this have run: "?run = (Inr (), snd ?run)" by (metis prod.collapse)
  ultimately show ?thesis using cool_down_exact [OF sample_health_ok run] by simp
qed

definition sample_forbidden :: runtime_health_registry where
  "sample_forbidden = snd (mark_credential_forbidden sample_hash (Some 1) ''e'' ''c'' (sample_health [] 1 1))"

lemma sample_forbidden_ok: "health_ok sample_hash sample_forbidden"
  using health_exec_ok [OF sample_health_ok, of "(Some 1, OpForbidden ''e'' ''c'')"] by (simp add: sample_forbidden_def)

theorem recovery_ticket_single_use_witness:
  "fst (begin_account_recovery sample_hash (Some 5) ''e'' ''c'' 30
     (fold (health_exec sample_hash) [(Some 3, OpForbidden ''e'' ''d''), (Some 4, OpMarkHealthy (EndpointCredentialKey ''e'' ''c''))]
       (snd (begin_account_recovery sample_hash (Some 2) ''e'' ''c'' 10 sample_forbidden))))
   \<noteq> Inr (Some \<lparr>hp_key = EndpointCredentialKey ''e'' ''c'', hp_probe_id = 2, hp_expires_at_ms = 30\<rparr>)"
proof -
  let ?run = "begin_account_recovery sample_hash (Some 2) ''e'' ''c'' 10 sample_forbidden"
  have "fst ?run = Inr (Some \<lparr>hp_key = EndpointCredentialKey ''e'' ''c'', hp_probe_id = 1, hp_expires_at_ms = 10\<rparr>)"
    by code_simp
  then have run: "?run = (Inr (Some \<lparr>hp_key = EndpointCredentialKey ''e'' ''c'', hp_probe_id = 1, hp_expires_at_ms = 10\<rparr>), snd ?run)"
    by (metis prod.collapse)
  let ?ops = "[(Some 3, OpForbidden ''e'' ''d''), (Some 4, OpMarkHealthy (EndpointCredentialKey ''e'' ''c''))]"
  have "list_all (\<lambda>cop. \<not> ends_recovery (EndpointCredentialKey ''e'' ''c'') cop) ?ops \<and> (5 :: int) < 10" by simp
  from recovery_ticket_single_use [OF sample_forbidden_ok run, THEN conjunct1, THEN mp, OF this] show ?thesis .
qed

definition sample_open :: runtime_health_registry where
  "sample_open = snd (open_circuit_until sample_hash (Some 1) (EndpointKey ''e'') 40 (sample_health [] 1 1))"

lemma sample_open_ok: "health_ok sample_hash sample_open"
  using health_exec_ok [OF sample_health_ok, of "(Some 1, OpOpenCircuit (EndpointKey ''e'') 40)"] by (simp add: sample_open_def)

lemma circuit_ticket_single_use_sample:
  "fst (begin_circuit_probe sample_hash (Some 50) (EndpointKey ''e'') 90
     (snd (begin_circuit_probe sample_hash (Some 41) (EndpointKey ''e'') 60 sample_open)))
   \<noteq> Inr (Some \<lparr>hp_key = EndpointKey ''e'', hp_probe_id = 2, hp_expires_at_ms = 90\<rparr>)"
proof -
  let ?run = "begin_circuit_probe sample_hash (Some 41) (EndpointKey ''e'') 60 sample_open"
  have "fst ?run = Inr (Some \<lparr>hp_key = EndpointKey ''e'', hp_probe_id = 1, hp_expires_at_ms = 60\<rparr>)"
    by code_simp
  then have run: "?run = (Inr (Some \<lparr>hp_key = EndpointKey ''e'', hp_probe_id = 1, hp_expires_at_ms = 60\<rparr>), snd ?run)"
    by (metis prod.collapse)
  from circuit_ticket_single_use [OF sample_open_ok run, THEN conjunct1, of 50] show ?thesis by simp
qed

end
