(* ===== verification/Runtime_Probe.thy ===== *)
theory Runtime_Probe
  imports Runtime_Health
begin

text \<open>
  Health-probe measurements (\<open>src/crates/gateway-router/src/runtime_probe.rs\<close>): fixed-point
  exponentially weighted averages of success and latency per target, kept in a sharded registry, and
  the completion of a half-open circuit probe that records the measurement and moves the circuit in
  one step.
\<close>

section \<open>Targets and outcomes\<close>

datatype runtime_health_probe_target =
    EndpointProbe string
  | EndpointCredentialProbe string string
  | EndpointCredentialModelProbe string string string

fun probe_target_rank :: "runtime_health_probe_target \<Rightarrow> nat \<times> string \<times> string \<times> string" where
  "probe_target_rank (EndpointProbe e) = (0, e, [], [])"
| "probe_target_rank (EndpointCredentialProbe e c) = (1, e, c, [])"
| "probe_target_rank (EndpointCredentialModelProbe e c m) = (2, e, c, m)"

lemma probe_target_rank_inj: "probe_target_rank a = probe_target_rank b \<Longrightarrow> a = b"
  by (cases a; cases b) auto

instantiation runtime_health_probe_target :: linorder
begin

definition less_eq_runtime_health_probe_target ::
  "runtime_health_probe_target \<Rightarrow> runtime_health_probe_target \<Rightarrow> bool" where
  "less_eq_runtime_health_probe_target a b \<longleftrightarrow> probe_target_rank a \<le> probe_target_rank b"

definition less_runtime_health_probe_target ::
  "runtime_health_probe_target \<Rightarrow> runtime_health_probe_target \<Rightarrow> bool" where
  "less_runtime_health_probe_target a b \<longleftrightarrow> probe_target_rank a < probe_target_rank b"

instance
  by standard (auto simp: less_eq_runtime_health_probe_target_def less_runtime_health_probe_target_def
      less_le_not_le dest: probe_target_rank_inj)

end

datatype runtime_health_probe_target_error = EmptyProbeUpstreamModel

definition probe_target_model ::
  "string \<Rightarrow> string \<Rightarrow> string \<Rightarrow> runtime_health_probe_target_error + runtime_health_probe_target" where
  "probe_target_model e c m =
     (if m = [] then Err EmptyProbeUpstreamModel else Ok (EndpointCredentialModelProbe e c m))"

fun probe_target_endpoint_id :: "runtime_health_probe_target \<Rightarrow> string" where
  "probe_target_endpoint_id (EndpointProbe e) = e"
| "probe_target_endpoint_id (EndpointCredentialProbe e _) = e"
| "probe_target_endpoint_id (EndpointCredentialModelProbe e _ _) = e"

fun probe_target_credential_id :: "runtime_health_probe_target \<Rightarrow> string option" where
  "probe_target_credential_id (EndpointProbe _) = None"
| "probe_target_credential_id (EndpointCredentialProbe _ c) = Some c"
| "probe_target_credential_id (EndpointCredentialModelProbe _ c _) = Some c"

fun probe_target_upstream_model :: "runtime_health_probe_target \<Rightarrow> string option" where
  "probe_target_upstream_model (EndpointCredentialModelProbe _ _ m) = Some m"
| "probe_target_upstream_model _ = None"

fun probe_runtime_health_key :: "runtime_health_probe_target \<Rightarrow> runtime_health_key" where
  "probe_runtime_health_key (EndpointProbe e) = EndpointKey e"
| "probe_runtime_health_key (EndpointCredentialProbe e c) = EndpointCredentialKey e c"
| "probe_runtime_health_key (EndpointCredentialModelProbe e c m) = EndpointCredentialModelKey e c m"

datatype runtime_health_probe_outcome = ProbeSucceeded u64 | ProbeFailed u64

definition ewma_scale_per_mille :: nat where
  "ewma_scale_per_mille = 1000"

fun outcome_latency_ms :: "runtime_health_probe_outcome \<Rightarrow> u64" where
  "outcome_latency_ms (ProbeSucceeded latency) = latency"
| "outcome_latency_ms (ProbeFailed latency) = latency"

fun success_sample_per_mille :: "runtime_health_probe_outcome \<Rightarrow> nat" where
  "success_sample_per_mille (ProbeSucceeded _) = ewma_scale_per_mille"
| "success_sample_per_mille (ProbeFailed _) = 0"

datatype runtime_health_circuit_probe_outcome = CircuitSucceeded u64 | CircuitFailed u64 i64

fun probe_outcome :: "runtime_health_circuit_probe_outcome \<Rightarrow> runtime_health_probe_outcome" where
  "probe_outcome (CircuitSucceeded latency) = ProbeSucceeded latency"
| "probe_outcome (CircuitFailed latency _) = ProbeFailed latency"

fun circuit_result :: "runtime_health_circuit_probe_outcome \<Rightarrow> circuit_probe_result" where
  "circuit_result (CircuitSucceeded _) = Healthy"
| "circuit_result (CircuitFailed _ retry_after) = Unhealthy retry_after"

section \<open>Averages\<close>

definition u128_max :: nat where
  "u128_max = 2 ^ 128 - 1"

definition ewma_u64 :: "u64 \<Rightarrow> u64 \<Rightarrow> nat \<Rightarrow> u64" where
  "ewma_u64 previous sample alpha =
     (let retained = ewma_scale_per_mille - alpha;
          numerator = min (min (previous * retained) u128_max + min (sample * alpha) u128_max) u128_max;
          rounded = min (numerator + ewma_scale_per_mille div 2) u128_max div ewma_scale_per_mille
      in if rounded < 2 ^ 64 then rounded else 2 ^ 64 - 1)"

definition ewma_u16 :: "nat \<Rightarrow> nat \<Rightarrow> nat \<Rightarrow> nat" where
  "ewma_u16 previous sample alpha =
     (let x = ewma_u64 previous sample alpha in if x < 2 ^ 16 then x else ewma_scale_per_mille)"

record runtime_health_probe_policy =
  ewma_alpha_per_mille :: nat

datatype runtime_health_probe_policy_error = ZeroEwmaAlpha | EwmaAlphaTooLarge

definition probe_policy_try_new :: "nat \<Rightarrow> runtime_health_probe_policy_error + runtime_health_probe_policy" where
  "probe_policy_try_new alpha =
     (if alpha = 0 then Err ZeroEwmaAlpha
      else if ewma_scale_per_mille < alpha then Err EwmaAlphaTooLarge
      else Ok \<lparr>ewma_alpha_per_mille = alpha\<rparr>)"

definition probe_policy_default :: runtime_health_probe_policy where
  "probe_policy_default = \<lparr>ewma_alpha_per_mille = 200\<rparr>"

section \<open>The registry\<close>

record runtime_health_probe_snapshot =
  ps_target :: runtime_health_probe_target
  ps_observations :: u64
  ps_last_observed_at_ms :: i64
  ps_last_outcome :: runtime_health_probe_outcome
  ps_success_ewma_per_mille :: nat
  ps_latency_ewma_ms :: u64

datatype runtime_health_probe_error =
    ProbeObservationTimeRegressed
  | ObservationCountOverflow
  | ProbeShardLockPoisoned
  | ProbeShardCapacityExceeded

datatype runtime_health_probe_completion_error =
    TargetDoesNotMatchCircuitProbe
  | CircuitError runtime_health_error
  | MetricsError runtime_health_probe_error

type_synonym probe_snapshots = "(runtime_health_probe_target, runtime_health_probe_snapshot) bmap"

record runtime_health_probe_registry =
  pr_policy :: runtime_health_probe_policy
  pr_shards :: "(runtime_health_probe_target, runtime_health_probe_snapshot) shards"

definition probe_registry_with_policy :: "runtime_health_probe_policy \<Rightarrow> runtime_health_probe_registry" where
  "probe_registry_with_policy policy =
     \<lparr>pr_policy = policy, pr_shards = build_shards default_runtime_health_shard_count\<rparr>"

definition probe_registry_try_with_policy_and_shards ::
  "runtime_health_probe_policy \<Rightarrow> usize \<Rightarrow> shard_count_error + runtime_health_probe_registry" where
  "probe_registry_try_with_policy_and_shards policy n =
     (case validate_shard_count max_runtime_health_shard_count n of
        Inl e \<Rightarrow> Err e
      | Inr _ \<Rightarrow> Ok \<lparr>pr_policy = policy, pr_shards = build_shards n\<rparr>)"

definition probe_ensure_insert_capacity :: "probe_snapshots \<Rightarrow> runtime_health_probe_error + unit" where
  "probe_ensure_insert_capacity snapshots =
     (if max_runtime_health_entries_per_shard \<le> length snapshots then Err ProbeShardCapacityExceeded else Ok ())"

definition next_snapshot ::
  "probe_snapshots \<Rightarrow> runtime_health_probe_target \<Rightarrow> runtime_health_probe_outcome \<Rightarrow> i64 \<Rightarrow>
     runtime_health_probe_policy \<Rightarrow> runtime_health_probe_error + runtime_health_probe_snapshot" where
  "next_snapshot snapshots target outcome observed policy =
     (case bm_get snapshots target of
        Some previous \<Rightarrow>
          if observed < ps_last_observed_at_ms previous then Err ProbeObservationTimeRegressed
          else (case checked_add_u64 (ps_observations previous) 1 of
                  None \<Rightarrow> Err ObservationCountOverflow
                | Some observations \<Rightarrow>
                    Ok \<lparr>ps_target = target, ps_observations = observations, ps_last_observed_at_ms = observed,
                        ps_last_outcome = outcome,
                        ps_success_ewma_per_mille =
                          ewma_u16 (ps_success_ewma_per_mille previous) (success_sample_per_mille outcome)
                            (ewma_alpha_per_mille policy),
                        ps_latency_ewma_ms =
                          ewma_u64 (ps_latency_ewma_ms previous) (outcome_latency_ms outcome)
                            (ewma_alpha_per_mille policy)\<rparr>)
      | None \<Rightarrow>
          (case probe_ensure_insert_capacity snapshots of
             Inl e \<Rightarrow> Err e
           | Inr _ \<Rightarrow>
               Ok \<lparr>ps_target = target, ps_observations = 1, ps_last_observed_at_ms = observed,
                   ps_last_outcome = outcome,
                   ps_success_ewma_per_mille = success_sample_per_mille outcome,
                   ps_latency_ewma_ms = outcome_latency_ms outcome\<rparr>))"

definition probe_store ::
  "runtime_health_probe_target hasher \<Rightarrow> runtime_health_probe_target \<Rightarrow> probe_snapshots \<Rightarrow>
     runtime_health_probe_registry \<Rightarrow> runtime_health_probe_registry" where
  "probe_store hash k m reg = reg\<lparr>pr_shards := store_shard hash k m (pr_shards reg)\<rparr>"

definition probe_record ::
  "runtime_health_probe_target hasher \<Rightarrow> runtime_health_probe_target \<Rightarrow> runtime_health_probe_outcome \<Rightarrow> i64 \<Rightarrow>
     runtime_health_probe_registry \<Rightarrow>
     (runtime_health_probe_error + runtime_health_probe_snapshot) \<times> runtime_health_probe_registry" where
  "probe_record hash target outcome observed reg =
     (case lock_shard hash (pr_shards reg) target of
        None \<Rightarrow> (Err ProbeShardLockPoisoned, reg)
      | Some snapshots \<Rightarrow>
     (case next_snapshot snapshots target outcome observed (pr_policy reg) of
        Inl e \<Rightarrow> (Err e, reg)
      | Inr next \<Rightarrow> (Ok next, probe_store hash target (bm_insert target next snapshots) reg)))"

definition probe_begin_circuit_probe ::
  "runtime_health_key hasher \<Rightarrow> clock_reading \<Rightarrow> runtime_health_probe_target \<Rightarrow> i64 \<Rightarrow> runtime_health_registry \<Rightarrow>
     (runtime_health_error + circuit_probe option) \<times> runtime_health_registry" where
  "probe_begin_circuit_probe hhash clock target expires health =
     begin_circuit_probe hhash clock (probe_runtime_health_key target) expires health"

text \<open>The metrics shard stays locked while the circuit moves, so both registries change together.\<close>

definition probe_complete_circuit_probe ::
  "runtime_health_probe_target hasher \<Rightarrow> runtime_health_key hasher \<Rightarrow> clock_reading \<Rightarrow> runtime_health_probe_target \<Rightarrow>
     circuit_probe \<Rightarrow> runtime_health_circuit_probe_outcome \<Rightarrow> i64 \<Rightarrow>
     runtime_health_probe_registry \<times> runtime_health_registry \<Rightarrow>
     (runtime_health_probe_completion_error + runtime_health_probe_snapshot) \<times>
     runtime_health_probe_registry \<times> runtime_health_registry" where
  "probe_complete_circuit_probe hash hhash clock target probe outcome observed regs =
     (let (reg, health) = regs in
      if hp_key probe \<noteq> probe_runtime_health_key target then (Err TargetDoesNotMatchCircuitProbe, reg, health)
      else
     (case lock_shard hash (pr_shards reg) target of
        None \<Rightarrow> (Err (MetricsError ProbeShardLockPoisoned), reg, health)
      | Some snapshots \<Rightarrow>
     (case next_snapshot snapshots target (probe_outcome outcome) observed (pr_policy reg) of
        Inl e \<Rightarrow> (Err (MetricsError e), reg, health)
      | Inr next \<Rightarrow>
     (case complete_circuit_probe hhash clock probe (circuit_result outcome) health of
        (Inl e, health') \<Rightarrow> (Err (CircuitError e), reg, health')
      | (Inr _, health') \<Rightarrow>
          (Ok next, probe_store hash target (bm_insert target next snapshots) reg, health')))))"

definition probe_snapshot ::
  "runtime_health_probe_target hasher \<Rightarrow> runtime_health_probe_registry \<Rightarrow> runtime_health_probe_target \<Rightarrow>
     runtime_health_probe_error + runtime_health_probe_snapshot option" where
  "probe_snapshot hash reg target =
     (case lock_shard hash (pr_shards reg) target of
        None \<Rightarrow> Err ProbeShardLockPoisoned
      | Some snapshots \<Rightarrow> Ok (bm_get snapshots target))"

definition probe_entry_count :: "runtime_health_probe_registry \<Rightarrow> runtime_health_probe_error + usize" where
  "probe_entry_count reg = ok_or ProbeShardLockPoisoned (count_entries (pr_shards reg) 0)"

section \<open>Averages are convex\<close>

lemma ewma_u64_exact:
  assumes "alpha \<le> 1000" "previous < 2 ^ 64" "sample < 2 ^ 64"
  shows "ewma_u64 previous sample alpha = (previous * (1000 - alpha) + sample * alpha + 500) div 1000"
proof -
  have "previous * (1000 - alpha) + sample * alpha \<le> (2 ^ 64 - 1) * (1000 - alpha) + (2 ^ 64 - 1) * alpha"
    using assms by (intro add_mono mult_right_mono) auto
  also have "\<dots> = (2 ^ 64 - 1) * 1000" using assms(1) by (simp flip: distrib_left)
  finally have sum: "previous * (1000 - alpha) + sample * alpha \<le> (2 ^ 64 - 1) * 1000" .
  have "(previous * (1000 - alpha) + sample * alpha + 500) div 1000 \<le> ((2 ^ 64 - 1) * 1000 + 500) div 1000"
    using sum by (intro div_le_mono) simp
  also have "\<dots> < 2 ^ 64" by simp
  finally have small: "(previous * (1000 - alpha) + sample * alpha + 500) div 1000 < 2 ^ 64" .
  have big: "(2 ^ 64 - 1) * 1000 + 500 \<le> u128_max" by (simp add: u128_max_def)
  have "min (previous * (1000 - alpha)) u128_max = previous * (1000 - alpha)"
    "min (sample * alpha) u128_max = sample * alpha"
    "min (previous * (1000 - alpha) + sample * alpha) u128_max = previous * (1000 - alpha) + sample * alpha"
    "min (previous * (1000 - alpha) + sample * alpha + 500) u128_max = previous * (1000 - alpha) + sample * alpha + 500"
    using sum big by linarith+
  then show ?thesis using small by (simp add: ewma_u64_def ewma_scale_per_mille_def)
qed

lemma ewma_between:
  assumes "alpha \<le> (1000 :: nat)" "lo \<le> previous" "lo \<le> sample" "previous \<le> hi" "sample \<le> hi"
  shows "lo \<le> (previous * (1000 - alpha) + sample * alpha + 500) div 1000"
    "(previous * (1000 - alpha) + sample * alpha + 500) div 1000 \<le> hi"
proof -
  have split: "x * (1000 - alpha) + x * alpha = x * 1000" for x :: nat using assms(1) by (simp flip: distrib_left)
  have "lo * (1000 - alpha) + lo * alpha \<le> previous * (1000 - alpha) + sample * alpha"
    using assms by (intro add_mono mult_right_mono) auto
  then have "lo * 1000 \<le> previous * (1000 - alpha) + sample * alpha + 500" unfolding split by simp
  then show "lo \<le> (previous * (1000 - alpha) + sample * alpha + 500) div 1000" by (simp add: less_eq_div_iff_mult_less_eq)
  have "previous * (1000 - alpha) + sample * alpha \<le> hi * (1000 - alpha) + hi * alpha"
    using assms by (intro add_mono mult_right_mono) auto
  then have "previous * (1000 - alpha) + sample * alpha + 500 \<le> hi * 1000 + 500" unfolding split by simp
  then have "(previous * (1000 - alpha) + sample * alpha + 500) div 1000 \<le> (hi * 1000 + 500) div 1000" by (rule div_le_mono)
  then show "(previous * (1000 - alpha) + sample * alpha + 500) div 1000 \<le> hi" by simp
qed

text \<open>
  The fixed-point average is the exact weighted mean rounded to the nearest integer and stays
  between the previous value and the sample: with a weight of at most 1000 per mille the 128-bit
  intermediate values and the 64-bit result never saturate.
\<close>

lemma ewma_convex_and_rounded:
  assumes "alpha \<le> 1000" "previous < 2 ^ 64" "sample < 2 ^ 64"
  shows "min previous sample \<le> ewma_u64 previous sample alpha \<and>
    ewma_u64 previous sample alpha \<le> max previous sample \<and>
    1000 * ewma_u64 previous sample alpha \<le> previous * (1000 - alpha) + sample * alpha + 500 \<and>
    previous * (1000 - alpha) + sample * alpha < 1000 * ewma_u64 previous sample alpha + 500"
proof -
  let ?w = "previous * (1000 - alpha) + sample * alpha"
  have "1000 * ((?w + 500) div 1000) \<le> ?w + 500" "?w + 500 < 1000 * ((?w + 500) div 1000) + 1000" by simp_all
  then have "1000 * ((?w + 500) div 1000) \<le> ?w + 500 \<and> ?w < 1000 * ((?w + 500) div 1000) + 500" by linarith
  then show ?thesis unfolding ewma_u64_exact [OF assms]
    using ewma_between [OF assms(1), of "min previous sample" previous sample "max previous sample"] by simp
qed

lemma ewma_convex_and_rounded_sample:
  "100 \<le> ewma_u64 100 200 200 \<and> ewma_u64 100 200 200 \<le> 200 \<and> 1000 * ewma_u64 100 200 200 \<le> 120500"
  using ewma_convex_and_rounded [of 200 100 200] by simp

section \<open>The registry invariant\<close>

definition probe_get ::
  "runtime_health_probe_target hasher \<Rightarrow> runtime_health_probe_registry \<Rightarrow> runtime_health_probe_target \<Rightarrow>
     runtime_health_probe_snapshot option" where
  "probe_get hash reg = shards_get hash (pr_shards reg)"

definition measurement_ok :: "nat \<Rightarrow> nat \<Rightarrow> runtime_health_probe_target \<Rightarrow> runtime_health_probe_snapshot \<Rightarrow> bool" where
  "measurement_ok lo hi k s \<longleftrightarrow> ps_target s = k \<and> 1 \<le> ps_observations s \<and> ps_observations s < 2 ^ 64 \<and>
     ps_success_ewma_per_mille s \<le> 1000 \<and> lo \<le> ps_latency_ewma_ms s \<and> ps_latency_ewma_ms s \<le> hi"

definition probe_ok ::
  "nat \<Rightarrow> nat \<Rightarrow> runtime_health_probe_target hasher \<Rightarrow> runtime_health_probe_registry \<Rightarrow> bool" where
  "probe_ok lo hi hash reg \<longleftrightarrow>
     shards_ok max_runtime_health_entries_per_shard hash (pr_shards reg) \<and>
     ewma_alpha_per_mille (pr_policy reg) \<le> 1000 \<and>
     (\<forall>k s. probe_get hash reg k = Some s \<longrightarrow> measurement_ok lo hi k s)"

lemma ewma_u16_le:
  assumes "alpha \<le> 1000" "previous \<le> 1000" "sample \<le> 1000"
  shows "ewma_u16 previous sample alpha \<le> 1000"
proof -
  have "ewma_u64 previous sample alpha = (previous * (1000 - alpha) + sample * alpha + 500) div 1000"
    using assms by (intro ewma_u64_exact) auto
  then show ?thesis using ewma_between(2) [OF assms(1), of 0 previous sample 1000] assms
    by (simp add: ewma_u16_def ewma_scale_per_mille_def Let_def)
qed

lemma next_snapshot_ok:
  assumes "next_snapshot snapshots k outcome observed policy = Inr s" "ewma_alpha_per_mille policy \<le> 1000"
    and "\<And>p. bm_get snapshots k = Some p \<Longrightarrow> measurement_ok lo hi k p"
    and lat: "lo \<le> outcome_latency_ms outcome" "outcome_latency_ms outcome \<le> hi" "hi < 2 ^ 64"
  shows "measurement_ok lo hi k s" "bm_get snapshots k = None \<Longrightarrow> length snapshots < max_runtime_health_entries_per_shard"
proof -
  have sample: "success_sample_per_mille outcome \<le> 1000" by (cases outcome) (simp_all add: ewma_scale_per_mille_def)
  show "length snapshots < max_runtime_health_entries_per_shard" if "bm_get snapshots k = None"
    using assms(1) that by (auto simp: next_snapshot_def probe_ensure_insert_capacity_def split: if_splits)
  show "measurement_ok lo hi k s"
  proof (cases "bm_get snapshots k")
    case None
    then have "s = \<lparr>ps_target = k, ps_observations = 1, ps_last_observed_at_ms = observed, ps_last_outcome = outcome,
        ps_success_ewma_per_mille = success_sample_per_mille outcome, ps_latency_ewma_ms = outcome_latency_ms outcome\<rparr>"
      using assms(1) by (auto simp: next_snapshot_def split: sum.splits)
    then show ?thesis using lat sample by (simp add: measurement_ok_def)
  next
    case (Some p)
    note p = assms(3) [OF Some, unfolded measurement_ok_def]
    have s: "ps_target s = k" "ps_observations s = ps_observations p + 1" "ps_observations s < 2 ^ 64"
      "ps_success_ewma_per_mille s = ewma_u16 (ps_success_ewma_per_mille p) (success_sample_per_mille outcome) (ewma_alpha_per_mille policy)"
      "ps_latency_ewma_ms s = ewma_u64 (ps_latency_ewma_ms p) (outcome_latency_ms outcome) (ewma_alpha_per_mille policy)"
      using assms(1) by (auto simp: next_snapshot_def Some split: if_splits option.splits)
    have "ps_latency_ewma_ms s = (ps_latency_ewma_ms p * (1000 - ewma_alpha_per_mille policy)
        + outcome_latency_ms outcome * ewma_alpha_per_mille policy + 500) div 1000"
      unfolding s(5) using assms(2) p lat by (intro ewma_u64_exact) auto
    then have "lo \<le> ps_latency_ewma_ms s" "ps_latency_ewma_ms s \<le> hi"
      using ewma_between [OF assms(2), of lo "ps_latency_ewma_ms p" "outcome_latency_ms outcome" hi] p lat by simp_all
    moreover have "ps_success_ewma_per_mille s \<le> 1000"
      unfolding s(4) using p sample by (intro ewma_u16_le [OF assms(2)]) simp_all
    ultimately show ?thesis using s(1-3) p by (simp add: measurement_ok_def)
  qed
qed

lemma probe_record_ok:
  assumes ok: "probe_ok lo hi hash reg"
    and lat: "lo \<le> outcome_latency_ms outcome" "outcome_latency_ms outcome \<le> hi" "hi < 2 ^ 64"
  shows "probe_ok lo hi hash (snd (probe_record hash k outcome observed reg))"
proof (cases "snd (probe_record hash k outcome observed reg) = reg")
  case True
  then show ?thesis using ok by simp
next
  case False
  then obtain m s where m: "lock_shard hash (pr_shards reg) k = Some m"
    and s: "next_snapshot m k outcome observed (pr_policy reg) = Inr s"
    and r: "snd (probe_record hash k outcome observed reg) = probe_store hash k (bm_insert k s m) reg"
    by (auto simp: probe_record_def split: option.splits sum.splits)
  have shards: "shards_ok max_runtime_health_entries_per_shard hash (pr_shards reg)"
    and alpha: "ewma_alpha_per_mille (pr_policy reg) \<le> 1000"
    and ms: "probe_get hash reg j = Some p \<Longrightarrow> measurement_ok lo hi j p" for j p
    using ok unfolding probe_ok_def by blast+
  have get: "bm_get m k = probe_get hash reg k" using lock_shard_get [OF m] by (simp add: probe_get_def)
  have "measurement_ok lo hi k p" if "bm_get m k = Some p" for p using ms that get by simp
  note n = next_snapshot_ok [OF s alpha this lat]
  have room: "shards_get hash (pr_shards reg) k \<noteq> None \<or> length m < max_runtime_health_entries_per_shard"
    using n(2) get by (auto simp: probe_get_def)
  note st = store_insert [OF shards m room, where v = s]
  have "measurement_ok lo hi j p" if "probe_get hash (probe_store hash k (bm_insert k s m) reg) j = Some p" for j p
    using that st(2) [where droppable = "\<lambda>_. False"] n(1) ms [of j p]
    by (cases "j = k") (auto simp: probe_get_def probe_store_def entry_effect_def)
  then show ?thesis unfolding r probe_ok_def using st(1) alpha by (simp add: probe_store_def)
qed

text \<open>
  Through every sequence of recorded probes the registry stays bounded (at most 1024 targets per
  shard) and each retained measurement belongs to its target, counts at least one observation, has a
  success average between 0 and 1000 and a latency average between the smallest and the largest
  latency ever recorded.
\<close>

lemma probe_measurements_bounded:
  assumes "probe_policy_try_new alpha = Inr policy"
    and "probe_registry_try_with_policy_and_shards policy n = Inr reg"
    and "list_all (\<lambda>(_, outcome, _). lo \<le> outcome_latency_ms outcome \<and> outcome_latency_ms outcome \<le> hi) records"
    and "hi < 2 ^ 64"
  shows "probe_ok lo hi hash
    (fold (\<lambda>(k, outcome, observed) r. snd (probe_record hash k outcome observed r)) records reg)"
proof -
  have n: "validate_shard_count max_runtime_health_shard_count n = Inr ()"
    and reg: "pr_shards reg = build_shards n" "pr_policy reg = policy"
    using assms(2) by (auto simp: probe_registry_try_with_policy_and_shards_def split: sum.splits)
  have "ewma_alpha_per_mille policy \<le> 1000"
    using assms(1) by (auto simp: probe_policy_try_new_def ewma_scale_per_mille_def split: if_splits)
  then have "probe_ok lo hi hash reg"
    by (simp add: probe_ok_def probe_get_def reg build_shards_ok [OF n] shards_get_build [OF n])
  then show ?thesis using assms(3)
  proof (induction records arbitrary: reg)
    case (Cons r records)
    obtain k outcome observed where r: "r = (k, outcome, observed)" by (metis prod_cases3)
    have "probe_ok lo hi hash (snd (probe_record hash k outcome observed reg))"
      using Cons.prems assms(4) by (intro probe_record_ok) (auto simp: r)
    from Cons.IH [OF this] Cons.prems(2) show ?case by (simp add: r)
  qed simp
qed

definition sample_probe_registry :: runtime_health_probe_registry where
  "sample_probe_registry =
     \<lparr>pr_policy = \<lparr>ewma_alpha_per_mille = 200\<rparr>, pr_shards = [\<lparr>sh_map = [], sh_poisoned = False\<rparr>]\<rparr>"

lemma probe_measurements_bounded_sample:
  "probe_ok 5 90 (\<lambda>_. 0)
     (fold (\<lambda>(k, outcome, observed) r. snd (probe_record (\<lambda>_. 0) k outcome observed r))
        [(EndpointProbe ''e'', ProbeSucceeded 5, 1), (EndpointProbe ''e'', ProbeFailed 90, 2)] sample_probe_registry)"
proof -
  have p: "probe_policy_try_new 200 = Inr \<lparr>ewma_alpha_per_mille = 200\<rparr>" by code_simp
  have r: "probe_registry_try_with_policy_and_shards \<lparr>ewma_alpha_per_mille = 200\<rparr> 1 = Inr sample_probe_registry" by code_simp
  show ?thesis by (rule probe_measurements_bounded [OF p r]) simp_all
qed

text \<open>
  C39: Completing a half-open probe is atomic across the two registries: on success the circuit was
  completed with the probe's result and the measurement was recorded, for the ticket's own target; on
  any failure (mismatched target, invalid measurement, stale ticket) neither registry changes.
\<close>

theorem probe_completion_atomic:
  "case probe_complete_circuit_probe hash hhash clock target probe outcome observed (reg, health) of
     (Inl _, reg', health') \<Rightarrow> reg' = reg \<and> health' = health
   | (Inr s, reg', health') \<Rightarrow>
       hp_key probe = probe_runtime_health_key target \<and>
       complete_circuit_probe hhash clock probe (circuit_result outcome) health = (Inr (), health') \<and>
       probe_record hash target (probe_outcome outcome) observed reg = (Inr s, reg') \<and>
       ps_target s = target \<and> ps_last_outcome s = probe_outcome outcome"
proof -
  have fail: "health' = health" if "complete_circuit_probe hhash clock probe (circuit_result outcome) health = (Inl e, health')" for e health'
    using that by (auto simp: complete_circuit_probe_def split: option.splits runtime_health_state.splits if_splits
        circuit_probe_result.splits sum.splits)
  have snap: "ps_target s = target \<and> ps_last_outcome s = probe_outcome outcome"
    if "next_snapshot m target (probe_outcome outcome) observed policy = Inr s" for m policy s
    using that by (auto simp: next_snapshot_def split: option.splits if_splits sum.splits)
  show ?thesis
    by (auto simp: probe_complete_circuit_probe_def probe_record_def dest: fail snap
        split: option.splits sum.splits prod.splits)
qed

end
