(* ===== verification/Smooth_Weighted.thy ===== *)
theory Smooth_Weighted
  imports Gateway_Prelude
begin

text \<open>
  Smooth weighted round robin, the schedule construction shared by the credential pool
  (\<open>src/crates/gateway-upstream/src/credential_pool.rs\<close>, checked \<open>i64\<close> arithmetic) and the route
  snapshot (\<open>src/crates/gateway-router/src/route_snapshot.rs\<close>, plain \<open>i64\<close> arithmetic, which wraps
  in a release build). The loop is written once with the addition and the subtraction as
  parameters; both instances are shown equal to the same loop over unbounded integers, for which
  exactness and fairness of the schedule are proved.
\<close>

section \<open>The construction\<close>

definition wrap_i64 :: "int \<Rightarrow> i64" where
  "wrap_i64 x = (x + 2 ^ 63) mod 2 ^ 64 - 2 ^ 63"

text \<open>The scan for the largest current weight; on equal weights the first position stays.\<close>

fun select_from :: "int list \<Rightarrow> nat list \<Rightarrow> nat \<Rightarrow> nat" where
  "select_from cw [] selected = selected"
| "select_from cw (p # ps) selected =
     select_from cw ps (if cw ! selected < cw ! p then p else selected)"

definition select_position :: "int list \<Rightarrow> nat" where
  "select_position cw = select_from cw [1..<length cw] 0"

text \<open>\<open>for (current_weight, weight) in current_weights.iter_mut().zip(&weights)\<close>.\<close>

fun add_weights :: "(i64 \<Rightarrow> i64 \<Rightarrow> i64 option) \<Rightarrow> i64 list \<Rightarrow> i64 list \<Rightarrow> i64 list option" where
  "add_weights add (c # cs) (w # ws) =
     (case add c w of
        None \<Rightarrow> None
      | Some c' \<Rightarrow> map_option ((#) c') (add_weights add cs ws))"
| "add_weights add cs _ = Some cs"

text \<open>The loop over \<open>0..total_slots\<close>; \<open>None\<close> is an overflow reported by the arithmetic.\<close>

fun weighted_rounds ::
  "(i64 \<Rightarrow> i64 \<Rightarrow> i64 option) \<Rightarrow> (i64 \<Rightarrow> i64 \<Rightarrow> i64 option) \<Rightarrow> i64 list \<Rightarrow> i64 \<Rightarrow> usize list \<Rightarrow>
     nat \<Rightarrow> i64 list \<Rightarrow> usize list option" where
  "weighted_rounds add sub weights total_weight indexes 0 cw = Some []"
| "weighted_rounds add sub weights total_weight indexes (Suc n) cw =
     (case add_weights add cw weights of
        None \<Rightarrow> None
      | Some cw1 \<Rightarrow>
          (let selected = select_position cw1 in
           case sub (cw1 ! selected) total_weight of
             None \<Rightarrow> None
           | Some c \<Rightarrow>
               map_option ((#) (indexes ! selected))
                 (weighted_rounds add sub weights total_weight indexes n (cw1[selected := c]))))"

text \<open>The arithmetic of the route snapshot: \<open>+=\<close> and \<open>-=\<close> on \<open>i64\<close>.\<close>

definition wrapping_add_i64 :: "i64 \<Rightarrow> i64 \<Rightarrow> i64 option" where
  "wrapping_add_i64 a b = Some (wrap_i64 (a + b))"

definition wrapping_sub_i64 :: "i64 \<Rightarrow> i64 \<Rightarrow> i64 option" where
  "wrapping_sub_i64 a b = Some (wrap_i64 (a - b))"

section \<open>The same loop over unbounded integers\<close>

definition swrr_next :: "int list \<Rightarrow> int list \<Rightarrow> nat \<times> int list" where
  "swrr_next ws cw =
     (let cw1 = map2 (+) cw ws; selected = select_position cw1
      in (selected, cw1[selected := cw1 ! selected - sum_list ws]))"

fun swrr_run :: "int list \<Rightarrow> nat \<Rightarrow> int list \<Rightarrow> nat list \<times> int list" where
  "swrr_run ws 0 cw = ([], cw)"
| "swrr_run ws (Suc n) cw =
     (let (selected, cw') = swrr_next ws cw; (rest, cw'') = swrr_run ws n cw'
      in (selected # rest, cw''))"

definition swrr_picks :: "int list \<Rightarrow> nat \<Rightarrow> nat list" where
  "swrr_picks ws n = fst (swrr_run ws n (replicate (length ws) 0))"

definition balanced :: "int list \<Rightarrow> int list \<Rightarrow> bool" where
  "balanced ws cw \<longleftrightarrow>
     length cw = length ws \<and> sum_list cw = 0 \<and> list_all (\<lambda>c. 1 - sum_list ws \<le> c) cw"

lemma wrap_i64_id [simp]: "in_i64 x \<Longrightarrow> wrap_i64 x = x"
  by (simp add: in_i64_def wrap_i64_def)

section \<open>The selected position\<close>

lemma select_from_max:
  assumes "s < length cw" "\<forall>p \<in> set ps. p < length cw"
  shows "select_from cw ps s < length cw \<and> cw ! s \<le> cw ! select_from cw ps s
    \<and> (\<forall>p \<in> set ps. cw ! p \<le> cw ! select_from cw ps s)"
  using assms
proof (induction ps arbitrary: s)
  case (Cons p ps)
  show ?case using Cons.prems Cons.IH [of "if cw ! s < cw ! p then p else s"]
    by (auto split: if_splits)
qed simp

lemma select_position_max:
  assumes "i < length cw"
  shows "select_position cw < length cw" and "cw ! i \<le> cw ! select_position cw"
proof -
  have 0: "0 < length cw" using assms by linarith
  note max = select_from_max [OF 0, of "[1..<length cw]"]
  show "select_position cw < length cw" using max by (simp add: select_position_def)
  show "cw ! i \<le> cw ! select_position cw"
    using max assms by (cases "i = 0") (auto simp: select_position_def)
qed

lemma sum_list_map2_add:
  "length (xs :: int list) = length ys \<Longrightarrow> sum_list (map2 (+) xs ys) = sum_list xs + sum_list ys"
  by (induction xs ys rule: list_induct2) auto

lemma sum_list_update_int:
  "i < length xs \<Longrightarrow> sum_list (xs[i := v]) = sum_list xs - xs ! i + (v :: int)"
  by (induction xs arbitrary: i) (auto split: nat.splits)

lemma sum_list_le_length_mult:
  "\<forall>x \<in> set xs. x \<le> (m :: int) \<Longrightarrow> sum_list xs \<le> int (length xs) * m"
  by (induction xs) (auto simp: algebra_simps)

lemma sum_list_ge_length_mult:
  "\<forall>x \<in> set xs. (m :: int) \<le> x \<Longrightarrow> int (length xs) * m \<le> sum_list xs"
  by (induction xs) (auto simp: algebra_simps)

text \<open>With a positive sum the largest weight is positive.\<close>

lemma selected_positive:
  assumes "0 < sum_list (cw :: int list)"
  shows "select_position cw < length cw" and "0 < cw ! select_position cw"
proof -
  from assms have 0: "0 < length cw" by (cases cw) auto
  show "select_position cw < length cw" by (rule select_position_max(1) [OF 0])
  show "0 < cw ! select_position cw"
  proof (rule ccontr)
    assume "\<not> 0 < cw ! select_position cw"
    then have "\<forall>x \<in> set cw. x \<le> 0"
      using select_position_max(2) by (fastforce simp: in_set_conv_nth)
    then have "sum_list cw \<le> int (length cw) * 0" by (rule sum_list_le_length_mult)
    with assms show False by simp
  qed
qed

lemma swrr_next_balanced:
  assumes bal: "balanced ws cw" and pos: "0 < sum_list ws" and nn: "list_all (\<lambda>w. 0 \<le> w) ws"
    and nxt: "swrr_next ws cw = (s, cw')"
  shows "balanced ws cw'" and "s < length ws"
    and "\<And>i. i < length ws \<Longrightarrow> cw' ! i = cw ! i + ws ! i - (if i = s then sum_list ws else 0)"
proof -
  let ?c = "map2 (+) cw ws"
  from bal have len: "length cw = length ws" and sum: "sum_list cw = 0"
    and lo: "\<And>i. i < length ws \<Longrightarrow> 1 - sum_list ws \<le> cw ! i"
    by (auto simp: balanced_def list_all_length)
  from nxt have s: "s = select_position ?c" and cw': "cw' = ?c[s := ?c ! s - sum_list ws]"
    by (auto simp: swrr_next_def Let_def)
  have sum1: "sum_list ?c = sum_list ws" using len sum by (simp add: sum_list_map2_add)
  note sel = selected_positive [of ?c, unfolded sum1, OF pos, folded s]
  show s_lt: "s < length ws" using sel(1) len by simp
  show idx: "cw' ! i = cw ! i + ws ! i - (if i = s then sum_list ws else 0)" if "i < length ws" for i
    using that len s_lt by (auto simp: cw')
  have "sum_list cw' = 0" using s_lt len sum1 by (simp add: cw' sum_list_update_int)
  moreover have "1 - sum_list ws \<le> cw' ! i" if "i < length ws" for i
    using idx [OF that] lo [OF that] nn that sel(2) len s_lt by (auto simp: list_all_length)
  ultimately show "balanced ws cw'" using len by (auto simp: balanced_def list_all_length cw')
qed

lemma swrr_run_balanced:
  assumes "balanced ws cw" "0 < sum_list ws" "list_all (\<lambda>w. 0 \<le> w) ws" "swrr_run ws n cw = (ps, cw')"
  shows "balanced ws cw' \<and> length ps = n \<and> set ps \<subseteq> {..<length ws}
    \<and> (\<forall>i < length ws. cw' ! i = cw ! i + int n * ws ! i - sum_list ws * int (count_list ps i))"
  using assms
proof (induction n arbitrary: cw ps)
  case (Suc n)
  obtain s cw1 where nxt: "swrr_next ws cw = (s, cw1)" by fastforce
  obtain rest where run: "swrr_run ws n cw1 = (rest, cw')" and ps: "ps = s # rest"
    using Suc.prems(4) nxt by (auto split: prod.splits)
  note step = swrr_next_balanced [OF Suc.prems(1-3) nxt]
  from Suc.IH [OF step(1) Suc.prems(2,3) run] step(2,3)
  show ?case by (auto simp: ps algebra_simps)
qed simp

lemma swrr_run_append:
  "swrr_run ws (m + n) cw =
     (let (ps, cw') = swrr_run ws m cw; (qs, cw'') = swrr_run ws n cw' in (ps @ qs, cw''))"
  by (induction m arbitrary: cw) (auto simp: Let_def split: prod.splits)

lemma balanced_zero: "0 < sum_list ws \<Longrightarrow> balanced ws (replicate (length ws) 0)"
  by (auto simp: balanced_def list_all_length sum_list_replicate)

lemma swrr_picks_take: "k \<le> n \<Longrightarrow> take k (swrr_picks ws n) = swrr_picks ws k"
proof -
  assume "k \<le> n"
  then obtain m where n: "n = k + m" using le_Suc_ex by blast
  have len: "length (fst (swrr_run ws k cw)) = k" for k cw
    by (induction k arbitrary: cw) (auto simp: Let_def split: prod.splits, metis fst_conv)
  show ?thesis using len [of k "replicate (length ws) 0"]
    by (auto simp: swrr_picks_def n swrr_run_append split: prod.splits)
qed

text \<open>Every position is chosen as often as its weight says, and never ahead of its share by a slot.\<close>

lemma swrr_picks_counts:
  assumes pos: "0 < sum_list ws" and nn: "list_all (\<lambda>w. 0 \<le> w) ws"
  shows "length (swrr_picks ws n) = n" and "set (swrr_picks ws n) \<subseteq> {..<length ws}"
    and "i < length ws \<Longrightarrow> sum_list ws * int (count_list (swrr_picks ws n) i) < int n * ws ! i + sum_list ws"
proof -
  obtain ps cw' where run: "swrr_run ws n (replicate (length ws) 0) = (ps, cw')" by fastforce
  then have ps: "swrr_picks ws n = ps" by (simp add: swrr_picks_def)
  note bal = swrr_run_balanced [OF balanced_zero [OF pos] pos nn run]
  show "length (swrr_picks ws n) = n" "set (swrr_picks ws n) \<subseteq> {..<length ws}"
    using bal by (simp_all add: ps)
  show "sum_list ws * int (count_list (swrr_picks ws n) i) < int n * ws ! i + sum_list ws" if "i < length ws"
  proof -
    have "balanced ws cw'" using bal by simp
    then have "1 - sum_list ws \<le> cw' ! i" using that by (simp add: balanced_def list_all_length)
    moreover have "cw' ! i = int n * ws ! i - sum_list ws * int (count_list ps i)" using bal that by simp
    ultimately show ?thesis by (simp add: ps)
  qed
qed

lemma sum_counts: "set ps \<subseteq> {..<n :: nat} \<Longrightarrow> (\<Sum>i<n. count_list ps i) = length ps"
  using sum_count_set [of ps "{..<n}"] by simp

lemma swrr_picks_exact:
  assumes pos: "0 < sum_list ws" and nn: "list_all (\<lambda>w. 0 \<le> w) ws" and i: "i < length ws"
  shows "int (count_list (swrr_picks ws (nat (sum_list ws))) i) = ws ! i"
proof -
  let ?W = "sum_list ws" and ?ps = "swrr_picks ws (nat (sum_list ws))"
  note counts = swrr_picks_counts [OF pos nn, where n = "nat ?W"]
  have le: "int (count_list ?ps j) \<le> ws ! j" if j: "j < length ws" for j
  proof -
    have "?W * int (count_list ?ps j) < ?W * (ws ! j + 1)"
      using counts(3) [OF j] pos by (simp add: algebra_simps)
    then show ?thesis using pos by simp
  qed
  have "(\<Sum>j<length ws. int (count_list ?ps j)) = int (length ?ps)"
    unfolding sum_counts [OF counts(2), symmetric] by (rule of_nat_sum [symmetric])
  then have "(\<Sum>j<length ws. ws ! j - int (count_list ?ps j)) = ?W - int (length ?ps)"
    by (simp add: sum_subtractf sum_list_sum_nth atLeast0LessThan)
  also have "\<dots> = 0" using counts(1) pos by simp
  finally have zero: "(\<Sum>j<length ws. ws ! j - int (count_list ?ps j)) = 0" .
  have "ws ! i - int (count_list ?ps i) = 0"
    by (rule sum_nonneg_0 [OF _ _ zero]) (use le i in auto)
  then show ?thesis by simp
qed

section \<open>No overflow\<close>

lemma balanced_upper:
  assumes bal: "balanced ws cw" and pos: "0 < sum_list ws" and i: "i < length ws"
  shows "cw ! i \<le> int (length ws) * sum_list ws"
proof -
  let ?W = "sum_list ws"
  from bal have len: "length cw = length ws" and sum: "sum_list cw = 0"
    and lo: "\<forall>c \<in> set cw. 1 - ?W \<le> c" by (auto simp: balanced_def list_all_iff)
  have "\<forall>c \<in> set (cw[i := 0]). 1 - ?W \<le> c"
    using lo pos by (auto dest!: set_update_subset_insert [THEN subsetD])
  then have "int (length ws) * (1 - ?W) \<le> sum_list (cw[i := 0])"
    using sum_list_ge_length_mult [of "cw[i := 0]" "1 - ?W"] len by simp
  then show ?thesis using sum_list_update_int [of i cw 0] i len sum by (simp add: algebra_simps)
qed

lemma add_weights_exact:
  assumes "length cw = length ws"
    "\<And>i. i < length ws \<Longrightarrow> add (cw ! i) (ws ! i) = Some (cw ! i + ws ! i)"
  shows "add_weights add cw ws = Some (map2 (+) cw ws)"
  using assms
proof (induction cw ws rule: list_induct2)
  case (Cons c cs w ws)
  show ?case using Cons.IH Cons.prems [of 0] Cons.prems [of "Suc i" for i] by fastforce
qed simp

text \<open>Arithmetic that is exact on small numbers, as checked and wrapping \<open>i64\<close> arithmetic are.\<close>

definition exact_below :: "int \<Rightarrow> (int \<Rightarrow> int \<Rightarrow> int) \<Rightarrow> (i64 \<Rightarrow> i64 \<Rightarrow> i64 option) \<Rightarrow> bool" where
  "exact_below b f g \<longleftrightarrow> (\<forall>x y. \<bar>x\<bar> \<le> b \<longrightarrow> \<bar>y\<bar> \<le> b \<longrightarrow> g x y = Some (f x y))"

lemma positive_weights:
  assumes "list_all (\<lambda>w. 0 < w) (ws :: int list)"
  shows "int (length ws) \<le> sum_list ws" and "list_all (\<lambda>w. 0 \<le> w) ws"
    and "i < length ws \<Longrightarrow> ws ! i \<le> sum_list ws"
proof -
  from assms have "\<forall>w \<in> set ws. 1 \<le> w" by (auto simp: list_all_iff)
  then show "int (length ws) \<le> sum_list ws" using sum_list_ge_length_mult [of ws 1] by simp
  show nn: "list_all (\<lambda>w. 0 \<le> w) ws" using assms by (auto simp: list_all_iff)
  show "ws ! i \<le> sum_list ws" if "i < length ws"
  proof -
    have "\<forall>w \<in> set (ws[i := 0]). 0 \<le> w"
      using nn by (auto simp: list_all_iff dest!: set_update_subset_insert [THEN subsetD])
    then have "0 \<le> sum_list (ws[i := 0])" using sum_list_ge_length_mult [of "ws[i := 0]" 0] by simp
    with that show ?thesis by (simp add: sum_list_update_int)
  qed
qed

lemma balanced_small:
  assumes bal: "balanced ws cw" and pos: "list_all (\<lambda>w. 0 < w) ws" and small: "sum_list ws \<le> 1024"
    and i: "i < length ws"
  shows "\<bar>cw ! i\<bar> \<le> 2 ^ 20" and "\<bar>cw ! i + ws ! i\<bar> \<le> 2 ^ 22" and "\<bar>ws ! i\<bar> \<le> 1024"
proof -
  let ?W = "sum_list ws"
  note w = positive_weights [OF pos]
  have W: "0 < ?W" using w(1) i by simp
  have "int (length ws) * ?W \<le> 1024 * 1024"
    using w(1) small W by (intro mult_mono) auto
  with balanced_upper [OF bal W i] have up: "cw ! i \<le> 2 ^ 20" by simp
  have lo: "1 - ?W \<le> cw ! i" using bal i by (simp add: balanced_def list_all_length)
  show "\<bar>cw ! i\<bar> \<le> 2 ^ 20" using up lo small by simp
  have wi: "0 < ws ! i" using pos i by (simp add: list_all_length)
  then show "\<bar>ws ! i\<bar> \<le> 1024" using w(3) [OF i] small by simp
  show "\<bar>cw ! i + ws ! i\<bar> \<le> 2 ^ 22" using up lo small wi w(3) [OF i] by simp
qed

lemma weighted_rounds_exact:
  assumes add: "exact_below (2 ^ 22) (+) add" and sub: "exact_below (2 ^ 22) (-) sub"
    and bal: "balanced ws cw" and pos: "list_all (\<lambda>w. 0 < w) ws" and ne: "ws \<noteq> []"
    and small: "sum_list ws \<le> 1024"
  shows "weighted_rounds add sub ws (sum_list ws) idx n cw = Some (map ((!) idx) (fst (swrr_run ws n cw)))"
  using bal
proof (induction n arbitrary: cw)
  case (Suc n)
  let ?W = "sum_list ws" and ?c = "map2 (+) cw ws"
  note w = positive_weights [OF pos] and sm = balanced_small [OF Suc.prems pos small]
  have W: "0 < ?W" using w(1) ne by (cases ws) auto
  have len: "length cw = length ws" using Suc.prems by (simp add: balanced_def)
  obtain s cw' where nxt: "swrr_next ws cw = (s, cw')" by fastforce
  note step = swrr_next_balanced [OF Suc.prems W w(2) nxt]
  have s: "s = select_position ?c" and cw': "cw' = ?c[s := ?c ! s - ?W]"
    using nxt by (auto simp: swrr_next_def Let_def)
  have "add_weights add cw ws = Some ?c"
  proof (rule add_weights_exact [OF len])
    fix i assume "i < length ws"
    then show "add (cw ! i) (ws ! i) = Some (cw ! i + ws ! i)"
      using add sm(1,3) [of i] by (simp add: exact_below_def)
  qed
  moreover have "sub (?c ! s) ?W = Some (?c ! s - ?W)"
    using sub sm(2) [OF step(2)] step(2) len W small by (simp add: exact_below_def)
  ultimately have "weighted_rounds add sub ws ?W idx (Suc n) cw =
      map_option ((#) (idx ! s)) (weighted_rounds add sub ws ?W idx n cw')"
    by (simp only: weighted_rounds.simps option.case Let_def s [symmetric] cw' [symmetric])
  moreover obtain rest cw'' where "swrr_run ws n cw' = (rest, cw'')" by fastforce
  ultimately show ?case
    using Suc.IH [OF step(1)] nxt by (simp del: weighted_rounds.simps)
qed simp

lemma exact_i64:
  "exact_below (2 ^ 22) (+) checked_add_i64" "exact_below (2 ^ 22) (-) checked_sub_i64"
  "exact_below (2 ^ 22) (+) wrapping_add_i64" "exact_below (2 ^ 22) (-) wrapping_sub_i64"
proof -
  have small: "in_i64 z" if "\<bar>z\<bar> \<le> 8388608" for z using that by (simp add: in_i64_def abs_le_iff)
  have bound: "in_i64 (x + y)" "in_i64 (x - y)" if "\<bar>x\<bar> \<le> 2 ^ 22" "\<bar>y\<bar> \<le> 2 ^ 22" for x y
    using that small [of "x + y"] small [of "x - y"] by (simp_all add: abs_le_iff)
  show "exact_below (2 ^ 22) (+) checked_add_i64" "exact_below (2 ^ 22) (-) checked_sub_i64"
    "exact_below (2 ^ 22) (+) wrapping_add_i64" "exact_below (2 ^ 22) (-) wrapping_sub_i64"
    unfolding exact_below_def checked_add_i64_def checked_sub_i64_def wrapping_add_i64_def
      wrapping_sub_i64_def by - (intro allI impI, simp only: bound wrap_i64_id if_True simp_thms)+
qed

text \<open>What a completed construction is: the schedule over unbounded integers.\<close>

lemma weighted_rounds_schedule:
  assumes "exact_below (2 ^ 22) (+) add" "exact_below (2 ^ 22) (-) sub"
    and pos: "list_all (\<lambda>w. 0 < w) ws" and ne: "ws \<noteq> []" and "sum_list ws \<le> 1024"
  shows "weighted_rounds add sub ws (sum_list ws) idx n (replicate (length ws) 0)
    = Some (map ((!) idx) (swrr_picks ws n))"
proof -
  have "0 < sum_list ws" using positive_weights(1) [OF pos] ne by (cases ws) auto
  then show ?thesis
    using weighted_rounds_exact [OF assms(1,2) balanced_zero pos ne assms(5)]
    by (simp add: swrr_picks_def)
qed

lemma count_list_map_distinct:
  "distinct idx \<Longrightarrow> set ps \<subseteq> {..<length idx} \<Longrightarrow> i < length idx \<Longrightarrow>
     count_list (map ((!) idx) ps) (idx ! i) = count_list ps i"
  by (induction ps) (auto simp: nth_eq_iff_index_eq)

section \<open>The schedule of a tier\<close>

definition weighted_schedule :: "(usize \<Rightarrow> nat) \<Rightarrow> usize list \<Rightarrow> usize list" where
  "weighted_schedule w is = map ((!) is) (swrr_picks (map (\<lambda>i. int (w i)) is) (\<Sum>i\<leftarrow>is. w i))"

lemma sum_list_int: "sum_list (map (\<lambda>i. int (w i)) is) = int (\<Sum>i\<leftarrow>is. w i)"
  by (induction "is") auto

lemma weights_positive:
  assumes "\<forall>i \<in> set is. 0 < (w i :: nat)" "is \<noteq> []"
  shows "0 < sum_list (map (\<lambda>i. int (w i)) is)" and "list_all (\<lambda>w. 0 < w) (map (\<lambda>i. int (w i)) is)"
    and "list_all (\<lambda>w. 0 \<le> w) (map (\<lambda>i. int (w i)) is)"
  using assms by (cases "is"; auto simp: list_all_iff sum_list_int)+

lemma weighted_rounds_eq:
  assumes "exact_below (2 ^ 22) (+) add" "exact_below (2 ^ 22) (-) sub"
    and "\<forall>i \<in> set is. 0 < w i" "is \<noteq> []" "(\<Sum>i\<leftarrow>is. w i) \<le> 1024"
  shows "weighted_rounds add sub (map (\<lambda>i. int (w i)) is) (int (\<Sum>i\<leftarrow>is. w i)) is (\<Sum>i\<leftarrow>is. w i)
      (replicate (length is) 0) = Some (weighted_schedule w is)"
  using weighted_rounds_schedule [OF assms(1,2) weights_positive(2) [OF assms(3,4)],
      of "is" "\<Sum>i\<leftarrow>is. w i"] assms(4,5)
  by (simp add: sum_list_int weighted_schedule_def)

lemma weighted_schedule_take:
  "k \<le> (\<Sum>i\<leftarrow>is. w i) \<Longrightarrow>
     take k (weighted_schedule w is) = map ((!) is) (swrr_picks (map (\<lambda>i. int (w i)) is) k)"
  by (simp add: weighted_schedule_def take_map swrr_picks_take)

lemma weighted_schedule_length:
  assumes "\<forall>i \<in> set is. 0 < w i" "is \<noteq> []"
  shows "length (weighted_schedule w is) = (\<Sum>i\<leftarrow>is. w i)"
  using swrr_picks_counts(1) [OF weights_positive(1,3) [OF assms]] by (simp add: weighted_schedule_def)

lemma weighted_schedule_set:
  assumes "\<forall>i \<in> set is. 0 < w i" "is \<noteq> []"
  shows "set (weighted_schedule w is) \<subseteq> set is"
  using swrr_picks_counts(2) [OF weights_positive(1,3) [OF assms]]
  by (fastforce simp: weighted_schedule_def)

lemma weighted_schedule_count:
  assumes "\<forall>i \<in> set is. 0 < w i" "is \<noteq> []" "distinct is"
  shows "count_list (weighted_schedule w is) i = (if i \<in> set is then w i else 0)"
proof (cases "i \<in> set is")
  case True
  let ?ws = "map (\<lambda>i. int (w i)) is"
  obtain k where k: "k < length is" "i = is ! k" using True by (auto simp: in_set_conv_nth)
  have "count_list (weighted_schedule w is) i = count_list (swrr_picks ?ws (\<Sum>i\<leftarrow>is. w i)) k"
    unfolding weighted_schedule_def k(2)
    using swrr_picks_counts(2) [OF weights_positive(1,3) [OF assms(1,2)]] k(1) assms(3)
    by (intro count_list_map_distinct) simp_all
  moreover have "int (count_list (swrr_picks ?ws (nat (sum_list ?ws))) k) = ?ws ! k"
    using k(1) by (intro swrr_picks_exact weights_positive assms(1,2)) simp
  ultimately show ?thesis using k True by (simp add: sum_list_int)
next
  case False
  then show ?thesis using weighted_schedule_set [OF assms(1,2)] by (auto simp: count_list_0_iff)
qed

text \<open>Fairness of every prefix: an index is never a full slot ahead of its share.\<close>

lemma weighted_schedule_fair:
  assumes "\<forall>i \<in> set is. 0 < w i" "is \<noteq> []" "distinct is" "i \<in> set is" "k \<le> (\<Sum>i\<leftarrow>is. w i)"
  shows "(\<Sum>i\<leftarrow>is. w i) * count_list (take k (weighted_schedule w is)) i < k * w i + (\<Sum>i\<leftarrow>is. w i)"
proof -
  let ?ws = "map (\<lambda>i. int (w i)) is" and ?W = "\<Sum>i\<leftarrow>is. w i"
  obtain j where j: "j < length is" "i = is ! j" using assms(4) by (auto simp: in_set_conv_nth)
  have c: "count_list (take k (weighted_schedule w is)) i = count_list (swrr_picks ?ws k) j"
    unfolding weighted_schedule_take [OF assms(5)] j(2)
    using swrr_picks_counts(2) [OF weights_positive(1,3) [OF assms(1,2)]] j(1) assms(3)
    by (intro count_list_map_distinct) simp_all
  have "sum_list ?ws * int (count_list (swrr_picks ?ws k) j) < int k * ?ws ! j + sum_list ?ws"
    using j(1) by (intro swrr_picks_counts weights_positive assms(1,2)) simp
  then have "int (?W * count_list (swrr_picks ?ws k) j) < int (k * w i + ?W)"
    using j by (simp add: sum_list_int)
  then show ?thesis unfolding c by (simp only: of_nat_less_iff)
qed

end
