(* ===== verification/Cyclic_Schedule.thy ===== *)
theory Cyclic_Schedule
  imports Smooth_Weighted "HOL-Library.Word"
begin

text \<open>
  The priority tiers and the cyclic slot scan that the credential pool
  (\<open>EndpointCredentialPool::try_lease_slots\<close>) and the route scheduler
  (\<open>RouteCandidateScheduler::select_eligible\<close>) have in common. A cursor is an \<open>AtomicUsize\<close>
  that wraps at \<open>2 ^ 64\<close>; the body of the scan (an eligibility test, a lease attempt) is a
  parameter that reads and updates a state.
\<close>

section \<open>Grouping by priority\<close>

text \<open>\<open>entry(priority).or_default().push(index)\<close>.\<close>

definition push_index :: "i64 \<Rightarrow> usize \<Rightarrow> (i64, usize list) bmap \<Rightarrow> (i64, usize list) bmap" where
  "push_index p i m = bm_insert p ((case bm_get m p of None \<Rightarrow> [] | Some is \<Rightarrow> is) @ [i]) m"

definition indexes_of :: "i64 list \<Rightarrow> i64 \<Rightarrow> usize list" where
  "indexes_of ps p = filter (\<lambda>i. ps ! i = p) [0..<length ps]"

definition grouped :: "i64 list \<Rightarrow> (i64, usize list) bmap \<Rightarrow> bool" where
  "grouped ps m \<longleftrightarrow> bm_ok m \<and>
     (\<forall>p. bm_get m p = (if indexes_of ps p = [] then None else Some (indexes_of ps p)))"

lemma indexes_of_snoc:
  "indexes_of (ps @ [q]) p = indexes_of ps p @ (if p = q then [length ps] else [])"
proof -
  have "filter (\<lambda>i. (ps @ [q]) ! i = p) [0..<length ps] = filter (\<lambda>i. ps ! i = p) [0..<length ps]"
    by (rule filter_cong) (auto simp: nth_append)
  then show ?thesis by (auto simp: indexes_of_def)
qed

lemma grouped_Nil: "grouped [] []"
  by (simp add: grouped_def indexes_of_def bm_ok_def)

lemma grouped_push: "grouped ps m \<Longrightarrow> grouped (ps @ [p]) (push_index p (length ps) m)"
  by (auto simp: grouped_def push_index_def bm_ok_insert bm_get_insert indexes_of_snoc)

lemma indexes_of_set: "set (indexes_of ps p) = {i. i < length ps \<and> ps ! i = p}"
  by (auto simp: indexes_of_def)

lemma indexes_of_distinct: "distinct (indexes_of ps p)"
  by (simp add: indexes_of_def)

lemma grouped_entry:
  assumes "grouped ps m" "(p, is) \<in> set m"
  shows "is = indexes_of ps p" and "is \<noteq> []"
proof -
  have "bm_get m p = Some is"
    using assms by (intro map_of_is_SomeI) (auto simp: grouped_def bm_ok_def strict_sorted_iff)
  then show "is = indexes_of ps p" "is \<noteq> []" using assms(1) by (auto simp: grouped_def split: if_splits)
qed

lemma grouped_key: "grouped ps m \<Longrightarrow> i < length ps \<Longrightarrow> (ps ! i, indexes_of ps (ps ! i)) \<in> set m"
  using indexes_of_set [of ps "ps ! i"] by (intro map_of_SomeD) (auto simp: grouped_def)

lemma grouped_sorted: "grouped ps m \<Longrightarrow> sorted_wrt (<) (map fst m)"
  by (simp add: grouped_def bm_ok_def)

lemma grouped_keys: "grouped ps m \<Longrightarrow> fst ` set m = set ps"
proof (intro equalityI subsetI)
  assume grp: "grouped ps m"
  fix p assume "p \<in> fst ` set m"
  then obtain "is" where "(p, is) \<in> set m" by force
  then have "indexes_of ps p \<noteq> []" using grouped_entry [OF grp] by simp
  then obtain i where "i \<in> set (indexes_of ps p)" by fastforce
  then show "p \<in> set ps" by (auto simp: indexes_of_set)
next
  assume grp: "grouped ps m"
  fix p assume "p \<in> set ps"
  then obtain i where "i < length ps" "p = ps ! i" by (auto simp: in_set_conv_nth)
  then show "p \<in> fst ` set m" using grouped_key [OF grp] by force
qed

lemma map_nth_indexes_of: "map ((!) xs) (indexes_of (map f xs) p) = filter (\<lambda>x. f x = p) xs"
proof (induction xs rule: rev_induct)
  case (snoc x xs)
  have "map ((!) (xs @ [x])) (indexes_of (map f xs) p) = map ((!) xs) (indexes_of (map f xs) p)"
    by (rule map_cong) (auto simp: nth_append indexes_of_set)
  with snoc show ?case by (auto simp: indexes_of_snoc)
qed (simp add: indexes_of_def)

section \<open>The slot visited at an offset\<close>

definition slot_at :: "64 word \<Rightarrow> nat \<Rightarrow> nat \<Rightarrow> nat" where
  "slot_at start len off = unat (start + of_nat off) mod len"

lemma slot_at_lt: "0 < len \<Longrightarrow> slot_at start len off < len"
  by (simp add: slot_at_def)

lemma slot_at_eq: "slot_at start len off = (unat start + off) mod 2 ^ 64 mod len"
  by (simp add: slot_at_def unat_word_ariths unat_of_nat mod_add_right_eq)

lemma slot_at_nowrap: "unat start + off < 2 ^ 64 \<Longrightarrow> slot_at start len off = (unat start + off) mod len"
  by (simp add: slot_at_eq)

text \<open>Without a wrap-around inside the scan the offsets visit every slot exactly once.\<close>

lemma slot_at_covers:
  assumes "unat start + len \<le> 2 ^ 64"
  shows "slot_at start len ` {..<len} = {..<len}"
proof (rule card_seteq)
  show "slot_at start len ` {..<len} \<subseteq> {..<len}" by (auto intro: slot_at_lt)
  have "inj_on (slot_at start len) {..<len}"
  proof (rule inj_onI, simp)
    fix i j assume ij: "i < len" "j < len" "slot_at start len i = slot_at start len j"
    then have "(unat start + i) mod len = (unat start + j) mod len"
      using assms by (simp add: slot_at_nowrap)
    then have "i mod len = j mod len" by (simp add: nat_mod_eq_iff)
    with ij show "i = j" by simp
  qed
  then show "card {..<len} \<le> card (slot_at start len ` {..<len})" by (simp add: card_image)
qed simp

section \<open>The scan\<close>

text \<open>
  What the body of the scan says of a slot index: take it, go on, or leave the whole search
  (the \<open>?\<close> on a missing entry).
\<close>

datatype scan_step = Accept | Skip | Abort

datatype scan_outcome = Found usize | Exhausted | Aborted

fun scan_offsets ::
  "(usize \<Rightarrow> 't \<Rightarrow> scan_step \<times> 't) \<Rightarrow> usize list \<Rightarrow> 64 word \<Rightarrow> nat list \<Rightarrow> 't \<Rightarrow> scan_outcome \<times> 't" where
  "scan_offsets f slots start [] t = (Exhausted, t)"
| "scan_offsets f slots start (off # offs) t =
     (let i = slots ! slot_at start (length slots) off; (r, t') = f i t
      in case r of
           Accept \<Rightarrow> (Found i, t')
         | Abort \<Rightarrow> (Aborted, t')
         | Skip \<Rightarrow> scan_offsets f slots start offs t')"

text \<open>One tier: the cursor is read and advanced once, then every offset is tried.\<close>

definition scan_slots ::
  "(usize \<Rightarrow> 't \<Rightarrow> scan_step \<times> 't) \<Rightarrow> usize list \<Rightarrow> 64 word \<Rightarrow> 't \<Rightarrow> scan_outcome \<times> 't" where
  "scan_slots f slots start t = scan_offsets f slots start [0..<length slots] t"

fun scan_tiers ::
  "(usize \<Rightarrow> 't \<Rightarrow> scan_step \<times> 't) \<Rightarrow> usize list list \<Rightarrow> 64 word list \<Rightarrow> 't \<Rightarrow>
     scan_outcome \<times> 64 word list \<times> 't" where
  "scan_tiers f (slots # tiers) (cursor # cursors) t =
     (case scan_slots f slots cursor t of
        (Exhausted, t') \<Rightarrow>
          (let (r, cursors', t'') = scan_tiers f tiers cursors t' in (r, (cursor + 1) # cursors', t''))
      | (r, t') \<Rightarrow> (r, (cursor + 1) # cursors, t'))"
| "scan_tiers f _ cursors t = (Exhausted, cursors, t)"

text \<open>A state condition that skipping keeps holds when the scan accepts or gives up.\<close>

lemma scan_offsets_state:
  assumes keep: "\<And>i t. I t \<Longrightarrow> fst (f i t) \<noteq> Accept \<Longrightarrow> I (snd (f i t))"
  shows "I t \<Longrightarrow> scan_offsets f slots start offs t = (r, t') \<Longrightarrow>
    (case r of Found i \<Rightarrow> \<exists>t0. I t0 \<and> f i t0 = (Accept, t') | _ \<Rightarrow> I t')"
proof (induction offs arbitrary: t)
  case (Cons off offs)
  let ?i = "slots ! slot_at start (length slots) off"
  obtain r1 t1 where f: "f ?i t = (r1, t1)" by fastforce
  show ?case
    using Cons.prems Cons.IH [of t1] keep [of t ?i] f by (cases r1) auto
qed auto

lemma scan_tiers_state:
  assumes keep: "\<And>i t. I t \<Longrightarrow> fst (f i t) \<noteq> Accept \<Longrightarrow> I (snd (f i t))"
  shows "I t \<Longrightarrow> scan_tiers f tiers cursors t = (r, cursors', t') \<Longrightarrow>
    length cursors' = length cursors \<and>
    (case r of Found i \<Rightarrow> \<exists>t0. I t0 \<and> f i t0 = (Accept, t') | _ \<Rightarrow> I t')"
proof (induction tiers arbitrary: cursors cursors' t)
  case (Cons slots tiers)
  show ?case
  proof (cases cursors)
    case Nil
    with Cons.prems show ?thesis by auto
  next
    case (Cons c cs)
    obtain r1 t1 where s: "scan_slots f slots c t = (r1, t1)" by fastforce
    with scan_offsets_state [of I f, OF keep Cons.prems(1)]
    have t1: "case r1 of Found i \<Rightarrow> \<exists>t0. I t0 \<and> f i t0 = (Accept, t1) | _ \<Rightarrow> I t1"
      by (simp add: scan_slots_def)
    with Cons.prems(2) s Cons Cons.IH [of t1 cs] show ?thesis
      by (cases r1) (auto split: prod.splits)
  qed
qed auto

text \<open>The index lies in a tier before which no tier has a good slot.\<close>

fun in_first_tier :: "(usize \<Rightarrow> bool) \<Rightarrow> usize list list \<Rightarrow> usize \<Rightarrow> bool" where
  "in_first_tier good [] i \<longleftrightarrow> False"
| "in_first_tier good (slots # tiers) i \<longleftrightarrow>
     i \<in> set slots \<or> (\<forall>j \<in> set slots. \<not> good j) \<and> in_first_tier good tiers i"

lemma in_first_tier_iff:
  "in_first_tier good tiers i \<longleftrightarrow>
     (\<exists>k < length tiers. i \<in> set (tiers ! k) \<and> (\<forall>j < k. \<forall>i' \<in> set (tiers ! j). \<not> good i'))"
proof (induction tiers)
  case (Cons slots tiers)
  show ?case unfolding in_first_tier.simps Cons.IH length_Cons Ex_less_Suc2 All_less_Suc2
    by auto
qed simp

text \<open>With ascending tier priorities the first tier has the lowest priority of a good slot.\<close>

lemma in_first_tier_priority:
  assumes "sorted_wrt (<) (map fst ts)" "\<forall>(p, slots) \<in> set ts. \<forall>i \<in> set slots. pr i = p"
    "in_first_tier good (map snd ts) i" "(q, slots) \<in> set ts" "j \<in> set slots" "good j"
  shows "(pr i :: int) \<le> pr j"
  using assms
proof (induction ts)
  case (Cons t ts)
  obtain p sl where t: "t = (p, sl)" by fastforce
  have j: "pr j = q" using Cons.prems(2,4,5) by fastforce
  have le: "p \<le> q" using Cons.prems(1,4) by (force simp: t)
  show ?case
  proof (cases "i \<in> set sl")
    case True
    then have "pr i = p" using Cons.prems(2) by (auto simp: t)
    with j le show ?thesis by simp
  next
    case False
    then have none: "\<forall>j \<in> set sl. \<not> good j" and first: "in_first_tier good (map snd ts) i"
      using Cons.prems(3) by (auto simp: t)
    have "(q, slots) \<in> set ts" using Cons.prems(4-6) none by (auto simp: t)
    with Cons.IH Cons.prems first show ?thesis by auto
  qed
qed simp

text \<open>
  The contract of a scan body: as long as a state condition holds, it accepts exactly the good
  slots, keeps the condition while it skips, and never aborts. The condition may depend on how many
  more slots may still be tried, for bodies that use something up.
\<close>

locale scan_body =
  fixes f :: "usize \<Rightarrow> 't \<Rightarrow> scan_step \<times> 't"
    and inv :: "nat \<Rightarrow> 't \<Rightarrow> bool"
    and good :: "usize \<Rightarrow> bool"
    and ok_index :: "usize \<Rightarrow> bool"
  assumes body_good: "inv (Suc n) t \<Longrightarrow> ok_index i \<Longrightarrow> good i \<Longrightarrow> fst (f i t) = Accept"
    and body_bad: "inv (Suc n) t \<Longrightarrow> ok_index i \<Longrightarrow> \<not> good i \<Longrightarrow> fst (f i t) = Skip \<and> inv n (snd (f i t))"
begin

lemma scan_offsets_spec:
  assumes "inv (n + length offs) t" "list_all ok_index slots" "slots \<noteq> []"
  shows "case scan_offsets f slots start offs t of
      (Found i, t') \<Rightarrow> good i \<and> (\<exists>off \<in> set offs. i = slots ! slot_at start (length slots) off)
        \<and> (\<exists>m t0. inv (Suc m) t0 \<and> t' = snd (f i t0))
    | (Exhausted, t') \<Rightarrow> inv n t' \<and> (\<forall>off \<in> set offs. \<not> good (slots ! slot_at start (length slots) off))
    | (Aborted, _) \<Rightarrow> False"
  using assms(1)
proof (induction offs arbitrary: t)
  case (Cons off offs)
  let ?i = "slots ! slot_at start (length slots) off"
  have ok: "ok_index ?i" using assms(2,3) by (simp add: list_all_length slot_at_lt)
  have inv: "inv (Suc (n + length offs)) t" using Cons.prems by simp
  show ?case
  proof (cases "good ?i")
    case True
    then show ?thesis using body_good [OF inv ok] inv
      by (auto simp: split_beta Let_def)
  next
    case False
    from body_bad [OF inv ok False] Cons.IH [of "snd (f ?i t)"] False
    show ?thesis by (auto simp: Let_def split_beta split: scan_outcome.splits)
  qed
qed simp

lemma scan_slots_spec:
  assumes "inv (n + length slots) t" "list_all ok_index slots" "slots \<noteq> []" "unat start + length slots \<le> 2 ^ 64"
  shows "case scan_slots f slots start t of
      (Found i, t') \<Rightarrow> good i \<and> i \<in> set slots \<and> (\<exists>m t0. inv (Suc m) t0 \<and> t' = snd (f i t0))
    | (Exhausted, t') \<Rightarrow> inv n t' \<and> (\<forall>i \<in> set slots. \<not> good i)
    | (Aborted, _) \<Rightarrow> False"
proof -
  have all: "\<exists>off < length slots. i = slots ! slot_at start (length slots) off" if i: "i \<in> set slots" for i
  proof -
    obtain k where "k < length slots" "i = slots ! k" using i by (auto simp: in_set_conv_nth)
    moreover then have "k \<in> slot_at start (length slots) ` {..<length slots}"
      using slot_at_covers [OF assms(4)] by simp
    ultimately show ?thesis by auto
  qed
  show ?thesis
    using scan_offsets_spec [of n "[0..<length slots]" t slots start] assms(1,2) all assms(3)
    by (fastforce simp: scan_slots_def slot_at_lt split: prod.splits scan_outcome.splits)
qed

lemma scan_tiers_spec:
  assumes "inv (n + sum_list (map length tiers)) t" "length cursors = length tiers"
    "\<forall>slots \<in> set tiers. slots \<noteq> [] \<and> list_all ok_index slots"
    "\<forall>(slots, c) \<in> set (zip tiers cursors). unat c + length slots \<le> 2 ^ 64"
  shows "case scan_tiers f tiers cursors t of
      (Found i, _, t') \<Rightarrow> good i \<and> (\<exists>m t0. inv (Suc m) t0 \<and> t' = snd (f i t0)) \<and> in_first_tier good tiers i
    | (Exhausted, _, t') \<Rightarrow> inv n t' \<and> (\<forall>slots \<in> set tiers. \<forall>i \<in> set slots. \<not> good i)
    | (Aborted, _, _) \<Rightarrow> False"
  using assms
proof (induction tiers arbitrary: cursors t)
  case (Cons slots tiers)
  obtain c cs where cursors: "cursors = c # cs" using Cons.prems(2) by (cases cursors) auto
  have here: "case scan_slots f slots c t of
      (Found i, t') \<Rightarrow> good i \<and> i \<in> set slots \<and> (\<exists>m t0. inv (Suc m) t0 \<and> t' = snd (f i t0))
    | (Exhausted, t') \<Rightarrow> inv (n + sum_list (map length tiers)) t' \<and> (\<forall>i \<in> set slots. \<not> good i)
    | (Aborted, _) \<Rightarrow> False"
    by (rule scan_slots_spec) (use Cons.prems cursors in \<open>auto simp: ac_simps\<close>)
  obtain r t' where r: "scan_slots f slots c t = (r, t')" by fastforce
  show ?case
  proof (cases r)
    case (Found i)
    with here r show ?thesis by (auto simp: cursors)
  next
    case Exhausted
    with here r have t': "inv (n + sum_list (map length tiers)) t'" and none: "\<forall>i \<in> set slots. \<not> good i" by auto
    have "case scan_tiers f tiers cs t' of
      (Found i, _, t') \<Rightarrow> good i \<and> (\<exists>m t0. inv (Suc m) t0 \<and> t' = snd (f i t0)) \<and> in_first_tier good tiers i
    | (Exhausted, _, t') \<Rightarrow> inv n t' \<and> (\<forall>slots \<in> set tiers. \<forall>i \<in> set slots. \<not> good i)
    | (Aborted, _, _) \<Rightarrow> False"
      by (rule Cons.IH [OF t']) (use Cons.prems cursors in auto)
    then show ?thesis using Exhausted r none
      by (auto simp: cursors split: prod.splits scan_outcome.splits)
  next
    case Aborted
    with here r show ?thesis by simp
  qed
qed simp

end

end
