(* ===== verification/Formats_And_Capabilities.thy ===== *)
theory Formats_And_Capabilities
  imports Gateway_Core
begin

text \<open>
  The closed vocabulary of API formats with its adapter registry
  (\<open>src/crates/gateway-protocol/src/api_format.rs\<close>), the router's view of it
  (\<open>src/crates/gateway-router/src/protocol_transform.rs\<close>), and the capability and catalog lookups
  that route compilation consults (\<open>src/crates/gateway-catalog/src/lib.rs\<close>).
\<close>

section \<open>API formats and adapters\<close>

datatype api_format = OpenAiChatCompletions | OpenAiResponses | AnthropicMessages

definition api_format_all :: "api_format list" where
  "api_format_all = [OpenAiChatCompletions, OpenAiResponses, AnthropicMessages]"

fun api_format_as_str :: "api_format \<Rightarrow> string" where
  "api_format_as_str OpenAiChatCompletions = ''openai/chat-completions''"
| "api_format_as_str OpenAiResponses = ''openai/responses''"
| "api_format_as_str AnthropicMessages = ''anthropic/messages''"

fun adapter_ids :: "api_format \<Rightarrow> string list" where
  "adapter_ids OpenAiChatCompletions = [''openai-compatible.chat-completions'']"
| "adapter_ids OpenAiResponses =
     [''openai-compatible.responses'', ''grok.build.responses'', ''grok.console.responses'',
      ''grok.official.responses'', ''grok.web.responses'']"
| "adapter_ids AnthropicMessages = [''anthropic-compatible.messages'', ''kiro.messages'']"

definition serves :: "api_format \<Rightarrow> string \<Rightarrow> bool" where
  "serves f adapter_id \<longleftrightarrow> adapter_id \<in> set (adapter_ids f)"

definition api_format_parse :: "string \<Rightarrow> api_format option" where
  "api_format_parse s = find (\<lambda>f. api_format_as_str f = s) api_format_all"

datatype api_format_adapter_registry_error =
    DuplicateAdapterId api_format
  | UnsupportedAdapterId api_format

type_synonym 'a adapter_registry = "(string, 'a) bmap"

fun adapter_registry_insert_all ::
  "(api_format \<times> string \<times> 'a) list \<Rightarrow> 'a adapter_registry \<Rightarrow>
     api_format_adapter_registry_error + 'a adapter_registry" where
  "adapter_registry_insert_all [] r = Ok r"
| "adapter_registry_insert_all ((f, adapter_id, adapter) # bs) r =
     (if \<not> serves f adapter_id then Err (UnsupportedAdapterId f)
      else if bm_get r adapter_id \<noteq> None then Err (DuplicateAdapterId f)
      else adapter_registry_insert_all bs (bm_insert adapter_id adapter r))"

definition adapter_registry_try_new ::
  "(api_format \<times> string \<times> 'a) list \<Rightarrow> api_format_adapter_registry_error + 'a adapter_registry" where
  "adapter_registry_try_new bs = adapter_registry_insert_all bs []"

definition adapter_registry_resolve ::
  "'a adapter_registry \<Rightarrow> string \<Rightarrow> string \<Rightarrow> (api_format \<times> 'a) option" where
  "adapter_registry_resolve r format adapter_id =
     (case api_format_parse format of
        None \<Rightarrow> None
      | Some f \<Rightarrow>
          if \<not> serves f adapter_id then None
          else map_option (Pair f) (bm_get r adapter_id))"

definition bound_formats :: "'a adapter_registry \<Rightarrow> api_format list" where
  "bound_formats r = filter (\<lambda>f. list_ex (\<lambda>i. bm_get r i \<noteq> None) (adapter_ids f)) api_format_all"

text \<open>The router's \<open>ProtocolFormat\<close> has the same three members.\<close>

type_synonym protocol_format = api_format

definition protocol_format_from_api_format :: "string \<Rightarrow> protocol_format option" where
  "protocol_format_from_api_format s =
     (case api_format_parse s of
        Some OpenAiChatCompletions \<Rightarrow> Some OpenAiChatCompletions
      | Some OpenAiResponses \<Rightarrow> Some OpenAiResponses
      | Some AnthropicMessages \<Rightarrow> Some AnthropicMessages
      | None \<Rightarrow> None)"

section \<open>Semantic capabilities\<close>

datatype semantic_capability = Tools | ParallelTools | Reasoning | JsonSchema | Vision | Streaming

fun json_key :: "semantic_capability \<Rightarrow> string" where
  "json_key Tools = ''tools''"
| "json_key ParallelTools = ''parallel_tools''"
| "json_key Reasoning = ''reasoning''"
| "json_key JsonSchema = ''json_schema''"
| "json_key Vision = ''vision''"
| "json_key Streaming = ''streaming''"

definition from_json_key :: "string \<Rightarrow> semantic_capability option" where
  "from_json_key s =
     (if s = ''tools'' then Some Tools
      else if s = ''parallel_tools'' then Some ParallelTools
      else if s = ''reasoning'' then Some Reasoning
      else if s = ''json_schema'' then Some JsonSchema
      else if s = ''vision'' then Some Vision
      else if s = ''streaming'' then Some Streaming
      else None)"

type_synonym capability_set = "semantic_capability set"

datatype catalog_view_error =
    EmptyUpstreamModel
  | DuplicateCatalogModel
  | DuplicateEndpointCapabilityProfile
  | ParallelToolsRequiresTools

definition capability_set_validate :: "capability_set \<Rightarrow> catalog_view_error + unit" where
  "capability_set_validate s =
     (if ParallelTools \<in> s \<and> Tools \<notin> s then Err ParallelToolsRequiresTools else Ok ())"

definition capability_set_try_new :: "semantic_capability list \<Rightarrow> catalog_view_error + capability_set" where
  "capability_set_try_new cs =
     (case capability_set_validate (set cs) of Inl e \<Rightarrow> Err e | Inr _ \<Rightarrow> Ok (set cs))"

definition supports_all :: "capability_set \<Rightarrow> capability_set \<Rightarrow> bool" where
  "supports_all s required \<longleftrightarrow> required \<subseteq> s"

text \<open>The loop of \<open>without\<close>: removing \<open>tools\<close> removes \<open>parallel_tools\<close> as well.\<close>

fun without :: "capability_set \<Rightarrow> semantic_capability list \<Rightarrow> capability_set" where
  "without s [] = s"
| "without s (c # cs) =
     without (if c = Tools then (s - {c}) - {ParallelTools} else s - {c}) cs"

section \<open>Catalog lookups\<close>

datatype catalog_model_state = Manual | Fresh | Stale | Expired

fun catalog_state_is_hard_eligible :: "catalog_model_state \<Rightarrow> bool" where
  "catalog_state_is_hard_eligible Expired = False"
| "catalog_state_is_hard_eligible _ = True"

record catalog_model_entry =
  ce_endpoint_id :: string
  ce_upstream_model :: string
  ce_state :: catalog_model_state

definition catalog_model_entry_try_new ::
  "string \<Rightarrow> string \<Rightarrow> catalog_model_state \<Rightarrow> catalog_view_error + catalog_model_entry" where
  "catalog_model_entry_try_new endpoint model st =
     (if model = [] then Err EmptyUpstreamModel
      else Ok \<lparr>ce_endpoint_id = endpoint, ce_upstream_model = model, ce_state = st\<rparr>)"

type_synonym catalog_view = "(string \<times> string, catalog_model_state) bmap"

fun catalog_view_insert_all ::
  "catalog_model_entry list \<Rightarrow> catalog_view \<Rightarrow> catalog_view_error + catalog_view" where
  "catalog_view_insert_all [] v = Ok v"
| "catalog_view_insert_all (e # es) v =
     (if bm_get v (ce_endpoint_id e, ce_upstream_model e) \<noteq> None then Err DuplicateCatalogModel
      else catalog_view_insert_all es (bm_insert (ce_endpoint_id e, ce_upstream_model e) (ce_state e) v))"

definition catalog_view_try_new :: "catalog_model_entry list \<Rightarrow> catalog_view_error + catalog_view" where
  "catalog_view_try_new es = catalog_view_insert_all es []"

definition model_state :: "catalog_view \<Rightarrow> string \<Rightarrow> string \<Rightarrow> catalog_model_state option" where
  "model_state v endpoint model = bm_get v (endpoint, model)"

type_synonym endpoint_capability_view = "(string, capability_set) bmap"

fun capability_view_insert_all ::
  "(string \<times> capability_set) list \<Rightarrow> endpoint_capability_view \<Rightarrow>
     catalog_view_error + endpoint_capability_view" where
  "capability_view_insert_all [] v = Ok v"
| "capability_view_insert_all ((endpoint, cs) # es) v =
     (if bm_get v endpoint \<noteq> None then Err DuplicateEndpointCapabilityProfile
      else capability_view_insert_all es (bm_insert endpoint cs v))"

definition endpoint_capability_view_try_new ::
  "(string \<times> capability_set) list \<Rightarrow> catalog_view_error + endpoint_capability_view" where
  "endpoint_capability_view_try_new es = capability_view_insert_all es []"

section \<open>Properties\<close>

lemma api_format_parse_iff: "api_format_parse s = Some f \<longleftrightarrow> s = api_format_as_str f"
  by (cases f) (auto simp: api_format_parse_def api_format_all_def)

lemma adapter_serves_one: "serves f i \<Longrightarrow> serves g i \<Longrightarrow> f = g"
  by (cases f; cases g) (auto simp: serves_def)

lemma registry_insert_all_ok:
  "adapter_registry_insert_all bs r = Inr r' \<Longrightarrow>
     (\<forall>i x. bm_get r' i = Some x \<longleftrightarrow> bm_get r i = Some x \<or> (\<exists>f. (f, i, x) \<in> set bs)) \<and>
     (\<forall>(f, i, x) \<in> set bs. serves f i)"
proof (induction bs r rule: adapter_registry_insert_all.induct)
  case (2 f i x bs r)
  then have ok: "serves f i" "bm_get r i = None" "adapter_registry_insert_all bs (bm_insert i x r) = Inr r'"
    by (auto split: if_splits)
  from 2(1) [OF _ _ ok(3)] ok(1,2) show ?case by (auto simp: bm_get_insert)
qed auto

text \<open>
  A registry built from adapter bindings resolves a stored format string and an adapter id to
  exactly the adapter that was bound under that id for the format the string spells; unknown
  formats, adapters of another format and unbound adapters resolve to nothing.
\<close>

lemma adapter_registry_resolves_bindings:
  assumes "adapter_registry_try_new bs = Inr r"
  shows "adapter_registry_resolve r s i = Some (f, x) \<longleftrightarrow> s = api_format_as_str f \<and> (f, i, x) \<in> set bs"
proof -
  have get: "bm_get r i = Some x \<longleftrightarrow> (\<exists>f. (f, i, x) \<in> set bs)" and srv: "\<forall>(f, i, x) \<in> set bs. serves f i"
    using registry_insert_all_ok [of bs "[]" r] assms by (simp_all add: adapter_registry_try_new_def)
  have "adapter_registry_resolve r s i = Some (f, x) \<longleftrightarrow>
      api_format_parse s = Some f \<and> serves f i \<and> bm_get r i = Some x"
    by (auto simp: adapter_registry_resolve_def split: option.splits if_splits)
  moreover have "serves f i \<and> bm_get r i = Some x \<longleftrightarrow> (f, i, x) \<in> set bs"
  proof
    assume fi: "serves f i \<and> bm_get r i = Some x"
    then obtain g where g: "(g, i, x) \<in> set bs" using get by blast
    then have "serves g i" using srv by blast
    then have "f = g" using fi adapter_serves_one by blast
    with g show "(f, i, x) \<in> set bs" by simp
  qed (use get srv in blast)
  ultimately show ?thesis by (simp only: api_format_parse_iff)
qed

lemma adapter_registry_resolves_bindings_sample:
  "adapter_registry_resolve
     (projr (adapter_registry_try_new [(AnthropicMessages, ''kiro.messages'', 1 :: nat),
        (OpenAiResponses, ''grok.web.responses'', 2)])) ''anthropic/messages'' ''kiro.messages''
   = Some (AnthropicMessages, 1)"
proof -
  let ?bs = "[(AnthropicMessages, ''kiro.messages'', 1 :: nat), (OpenAiResponses, ''grok.web.responses'', 2)]"
  have "\<not> isl (adapter_registry_try_new ?bs)" by code_simp
  then have "adapter_registry_try_new ?bs = Inr (projr (adapter_registry_try_new ?bs))" by simp
  from adapter_registry_resolves_bindings [OF this] show ?thesis by simp
qed

lemma without_eq:
  "without s cs = s - set cs - (if Tools \<in> set cs then {ParallelTools} else {})"
  by (induction s cs rule: without.induct) auto

text \<open>
  Narrowing a capability set removes every requested capability, adds none, keeps everything else
  (except that dropping \<open>tools\<close> also drops \<open>parallel_tools\<close>), and preserves the rule that
  \<open>parallel_tools\<close> implies \<open>tools\<close> that \<open>CapabilitySet::try_new\<close> enforces.
\<close>

lemma capability_narrowing_sound:
  assumes "capability_set_try_new cs = Inr s"
  shows "without s removed = s - set removed - (if Tools \<in> set removed then {ParallelTools} else {})
    \<and> capability_set_validate (without s removed) = Inr () \<and> supports_all s (without s removed)"
  using assms
  by (auto simp: capability_set_try_new_def capability_set_validate_def supports_all_def without_eq
      split: if_splits sum.splits)

lemma capability_narrowing_sound_sample:
  "without {Tools, ParallelTools, Vision} [Tools] = {Vision} \<and>
   capability_set_validate (without {Tools, ParallelTools, Vision} [Tools]) = Inr ()"
proof -
  have "capability_set_try_new [Tools, ParallelTools, Vision] = Inr {Tools, ParallelTools, Vision}"
    by (simp add: capability_set_try_new_def capability_set_validate_def)
  from capability_narrowing_sound [OF this, of "[Tools]"] show ?thesis by auto
qed

end
