(* ===== verification/Route_Snapshot.thy ===== *)
theory Route_Snapshot
  imports Cyclic_Schedule Formats_And_Capabilities Client_Key
begin

text \<open>
  The immutable route snapshot, its precompiled candidate schedules, the snapshot registry with
  publication and rollback, the client authenticator pinned to one snapshot
  (\<open>src/crates/gateway-router/src/route_snapshot.rs\<close>) and the candidate scheduler
  (\<open>src/crates/gateway-router/src/route_scheduler.rs\<close>). A \<open>BTreeSet\<close> is a set.
\<close>

section \<open>Data\<close>

datatype snapshot_route_policy = RoundRobin | SmoothWeightedRoundRobin | PriorityFailover

datatype snapshot_transform_mode = Passthrough | Canonical | LosslessBridge | CanonicalBridge

datatype snapshot_catalog_admission = Listed catalog_model_state | AllowedUnlisted

record snapshot_public_model =
  pm_id :: string
  pm_model_name :: string
  pm_display_name :: string
  pm_required_capabilities :: capability_set
  pm_route_id :: string

record snapshot_route_candidate =
  rc_id :: string
  rc_endpoint_id :: string
  rc_upstream_id :: string
  rc_endpoint_api_format :: string
  rc_upstream_model :: string
  rc_transform_mode :: snapshot_transform_mode
  rc_priority :: i64
  rc_weight :: i64
  rc_effective_capabilities :: capability_set
  rc_catalog_admission :: snapshot_catalog_admission
  rc_active_binding_count :: usize

definition rc_protocol_format :: "snapshot_route_candidate \<Rightarrow> protocol_format option" where
  "rc_protocol_format c = protocol_format_from_api_format (rc_endpoint_api_format c)"

definition rc_is_hard_eligible :: "snapshot_route_candidate \<Rightarrow> bool" where
  "rc_is_hard_eligible c \<longleftrightarrow>
     0 < rc_active_binding_count c \<and>
     (case rc_catalog_admission c of
        Listed st \<Rightarrow> catalog_state_is_hard_eligible st
      | AllowedUnlisted \<Rightarrow> True)"

record snapshot_route =
  sr_id :: string
  sr_public_model_id :: string
  sr_policy :: snapshot_route_policy
  sr_max_attempts :: i64
  sr_bootstrap_timeout_ms :: i64
  sr_candidates :: "snapshot_route_candidate list"

definition has_hard_eligible_candidate :: "snapshot_route \<Rightarrow> bool" where
  "has_hard_eligible_candidate r = list_ex rc_is_hard_eligible (sr_candidates r)"

record snapshot_access_group =
  ag_id :: string
  ag_name :: string
  ag_allowed_route_ids :: "string set"

definition ag_permits_route :: "snapshot_access_group \<Rightarrow> string \<Rightarrow> bool" where
  "ag_permits_route g r \<longleftrightarrow> r \<in> ag_allowed_route_ids g"

record snapshot_client_key_view =
  kv_record :: client_key_record
  kv_allowed_route_ids :: "string set"

record route_snapshot_input =
  ri_version :: string
  ri_public_models :: "snapshot_public_model list"
  ri_aliases :: "(string \<times> string) list"
  ri_routes :: "snapshot_route list"
  ri_access_groups :: "snapshot_access_group list"
  ri_client_keys :: "snapshot_client_key_view list"

datatype route_snapshot_build_error =
    DuplicatePublicModelName
  | DuplicatePublicModelId
  | DuplicateRoute
  | UnknownRoutePublicModel
  | PublicModelMissingRoute
  | PublicModelRouteMismatch
  | RouteHasNoCandidates
  | InvalidCandidatePriority
  | InvalidCandidateWeight
  | RouteScheduleTooLarge
  | DuplicateCandidate
  | AliasConflictsPublicModel
  | DuplicateAlias
  | UnknownAliasPublicModel
  | DuplicateAccessGroup
  | AccessGroupReferencesUnknownRoute
  | DuplicateClientKeyPrefix
  | DuplicateClientKeyId
  | ClientKeyReferencesUnknownAccessGroup
  | ClientKeyRoutePermissionsMismatch

section \<open>Schedules\<close>

definition max_schedule_slots :: usize where
  "max_schedule_slots = 1024"

record snapshot_priority_tier =
  st_priority :: i64
  st_slot_indexes :: "usize list"

type_synonym snapshot_route_schedule = "snapshot_priority_tier list"

text \<open>The first loop of \<open>try_compile\<close>: validation and grouping by priority.\<close>

fun group_candidates ::
  "snapshot_route_candidate list \<Rightarrow> usize \<Rightarrow> (i64, usize list) bmap \<Rightarrow>
     route_snapshot_build_error + (i64, usize list) bmap" where
  "group_candidates [] n m = Ok m"
| "group_candidates (c # cs) n m =
     (if rc_priority c < 0 then Err InvalidCandidatePriority
      else if rc_weight c \<le> 0 then Err InvalidCandidateWeight
      else group_candidates cs (Suc n) (push_index (rc_priority c) n m))"

fun route_collect_weights ::
  "snapshot_route_candidate list \<Rightarrow> usize list \<Rightarrow> usize \<Rightarrow> i64 list \<Rightarrow>
     route_snapshot_build_error + (usize \<times> i64 list)" where
  "route_collect_weights cands [] total_slots weights = Ok (total_slots, weights)"
| "route_collect_weights cands (i # is) total_slots weights =
     (case unsigned_of_i64 (rc_weight (cands ! i)) of
        None \<Rightarrow> Err RouteScheduleTooLarge
      | Some weight \<Rightarrow>
     (case checked_add_u64 total_slots weight of
        None \<Rightarrow> Err RouteScheduleTooLarge
      | Some total' \<Rightarrow>
          if max_schedule_slots < total' then Err RouteScheduleTooLarge
          else (case i64_of_unsigned weight of
                  None \<Rightarrow> Err RouteScheduleTooLarge
                | Some w \<Rightarrow> route_collect_weights cands is total' (weights @ [w]))))"

text \<open>Additions and subtractions here are plain \<open>i64\<close> arithmetic, which wraps in a release build.\<close>

definition route_smooth_weighted_slots ::
  "snapshot_route_candidate list \<Rightarrow> usize list \<Rightarrow> route_snapshot_build_error + usize list" where
  "route_smooth_weighted_slots cands is =
     (case route_collect_weights cands is 0 [] of
        Inl e \<Rightarrow> Err e
      | Inr (total_slots, weights) \<Rightarrow>
          (case i64_of_unsigned total_slots of
             None \<Rightarrow> Err RouteScheduleTooLarge
           | Some total_weight \<Rightarrow>
               ok_or RouteScheduleTooLarge
                 (weighted_rounds wrapping_add_i64 wrapping_sub_i64 weights total_weight is total_slots
                    (replicate (length weights) 0))))"

definition tier_slots ::
  "snapshot_route \<Rightarrow> usize list \<Rightarrow> route_snapshot_build_error + usize list" where
  "tier_slots route is =
     (let sorted_is = sort_key (\<lambda>i. rc_id (sr_candidates route ! i)) is in
      case sr_policy route of
        SmoothWeightedRoundRobin \<Rightarrow> route_smooth_weighted_slots (sr_candidates route) sorted_is
      | _ \<Rightarrow>
          if max_schedule_slots < length sorted_is then Err RouteScheduleTooLarge else Ok sorted_is)"

fun compile_tiers ::
  "snapshot_route \<Rightarrow> (i64, usize list) bmap \<Rightarrow> route_snapshot_build_error + snapshot_route_schedule" where
  "compile_tiers route [] = Ok []"
| "compile_tiers route ((p, is) # m) =
     (case tier_slots route is of
        Inl e \<Rightarrow> Err e
      | Inr slots \<Rightarrow>
          (case compile_tiers route m of
             Inl e \<Rightarrow> Err e
           | Inr tiers \<Rightarrow> Ok (\<lparr>st_priority = p, st_slot_indexes = slots\<rparr> # tiers)))"

definition schedule_try_compile ::
  "snapshot_route \<Rightarrow> route_snapshot_build_error + snapshot_route_schedule" where
  "schedule_try_compile route =
     (case group_candidates (sr_candidates route) 0 [] of
        Inl e \<Rightarrow> Err e
      | Inr m \<Rightarrow> compile_tiers route m)"

section \<open>Building a snapshot\<close>

record route_snapshot =
  rs_version :: string
  rs_public_models :: "(string, snapshot_public_model) bmap"
  rs_public_model_names_by_id :: "(string, string) bmap"
  rs_aliases :: "(string, string) bmap"
  rs_routes :: "(string, snapshot_route) bmap"
  rs_route_schedules :: "(string, snapshot_route_schedule) bmap"
  rs_access_groups :: "(string, snapshot_access_group) bmap"
  rs_client_keys :: "(string, snapshot_client_key_view) bmap"

fun insert_public_models ::
  "snapshot_public_model list \<Rightarrow> (string, snapshot_public_model) bmap \<Rightarrow> (string, string) bmap \<Rightarrow>
     route_snapshot_build_error + ((string, snapshot_public_model) bmap \<times> (string, string) bmap)" where
  "insert_public_models [] models names = Ok (models, names)"
| "insert_public_models (m # ms) models names =
     (if bm_get models (pm_model_name m) \<noteq> None then Err DuplicatePublicModelName
      else if bm_get names (pm_id m) \<noteq> None then Err DuplicatePublicModelId
      else insert_public_models ms (bm_insert (pm_model_name m) m models)
             (bm_insert (pm_id m) (pm_model_name m) names))"

text \<open>\<open>for candidate in &route.candidates\<close>: identities are unique across all routes.\<close>

fun insert_candidate_ids ::
  "snapshot_route_candidate list \<Rightarrow> string set \<Rightarrow> route_snapshot_build_error + string set" where
  "insert_candidate_ids [] ids = Ok ids"
| "insert_candidate_ids (c # cs) ids =
     (if rc_id c \<in> ids then Err DuplicateCandidate else insert_candidate_ids cs (insert (rc_id c) ids))"

fun build_routes ::
  "snapshot_route list \<Rightarrow> (string, string) bmap \<Rightarrow> string set \<Rightarrow> (string, snapshot_route) bmap \<Rightarrow>
     (string, snapshot_route_schedule) bmap \<Rightarrow>
     route_snapshot_build_error + ((string, snapshot_route) bmap \<times> (string, snapshot_route_schedule) bmap)" where
  "build_routes [] names ids routes schedules = Ok (routes, schedules)"
| "build_routes (r # rs) names ids routes schedules =
     (if bm_get routes (sr_id r) \<noteq> None then Err DuplicateRoute
      else if bm_get names (sr_public_model_id r) = None then Err UnknownRoutePublicModel
      else if sr_candidates r = [] then Err RouteHasNoCandidates
      else (case insert_candidate_ids (sr_candidates r) ids of
              Inl e \<Rightarrow> Err e
            | Inr ids' \<Rightarrow>
                (case schedule_try_compile r of
                   Inl e \<Rightarrow> Err e
                 | Inr schedule \<Rightarrow>
                     build_routes rs names ids' (bm_insert (sr_id r) r routes)
                       (bm_insert (sr_id r) schedule schedules))))"

fun check_model_routes ::
  "snapshot_public_model list \<Rightarrow> (string, snapshot_route) bmap \<Rightarrow> route_snapshot_build_error + unit" where
  "check_model_routes [] routes = Ok ()"
| "check_model_routes (m # ms) routes =
     (case bm_get routes (pm_route_id m) of
        None \<Rightarrow> Err PublicModelMissingRoute
      | Some r \<Rightarrow>
          if sr_public_model_id r \<noteq> pm_id m then Err PublicModelRouteMismatch
          else check_model_routes ms routes)"

fun insert_aliases ::
  "(string \<times> string) list \<Rightarrow> (string, snapshot_public_model) bmap \<Rightarrow> (string, string) bmap \<Rightarrow>
     (string, string) bmap \<Rightarrow> route_snapshot_build_error + (string, string) bmap" where
  "insert_aliases [] models names aliases = Ok aliases"
| "insert_aliases ((alias, model_id) # as) models names aliases =
     (if bm_get models alias \<noteq> None then Err AliasConflictsPublicModel
      else if bm_get names model_id = None then Err UnknownAliasPublicModel
      else if bm_get aliases alias \<noteq> None then Err DuplicateAlias
      else insert_aliases as models names (bm_insert alias model_id aliases))"

fun insert_access_groups ::
  "snapshot_access_group list \<Rightarrow> (string, snapshot_route) bmap \<Rightarrow> (string, snapshot_access_group) bmap \<Rightarrow>
     route_snapshot_build_error + (string, snapshot_access_group) bmap" where
  "insert_access_groups [] routes groups = Ok groups"
| "insert_access_groups (g # gs) routes groups =
     (if bm_get groups (ag_id g) \<noteq> None then Err DuplicateAccessGroup
      else if \<exists>r \<in> ag_allowed_route_ids g. bm_get routes r = None then Err AccessGroupReferencesUnknownRoute
      else insert_access_groups gs routes (bm_insert (ag_id g) g groups))"

fun insert_client_keys ::
  "snapshot_client_key_view list \<Rightarrow> (string, snapshot_access_group) bmap \<Rightarrow> string set \<Rightarrow>
     (string, snapshot_client_key_view) bmap \<Rightarrow>
     route_snapshot_build_error + (string, snapshot_client_key_view) bmap" where
  "insert_client_keys [] groups ids keys = Ok keys"
| "insert_client_keys (k # ks) groups ids keys =
     (case bm_get groups (ck_access_group_id (kv_record k)) of
        None \<Rightarrow> Err ClientKeyReferencesUnknownAccessGroup
      | Some g \<Rightarrow>
          if kv_allowed_route_ids k \<noteq> ag_allowed_route_ids g then Err ClientKeyRoutePermissionsMismatch
          else if ck_client_key_id (kv_record k) \<in> ids then Err DuplicateClientKeyId
          else if bm_get keys (ck_prefix (kv_record k)) \<noteq> None then Err DuplicateClientKeyPrefix
          else insert_client_keys ks groups (insert (ck_client_key_id (kv_record k)) ids)
                 (bm_insert (ck_prefix (kv_record k)) k keys))"

definition route_snapshot_try_new :: "route_snapshot_input \<Rightarrow> route_snapshot_build_error + route_snapshot" where
  "route_snapshot_try_new input =
     (case insert_public_models (ri_public_models input) [] [] of
        Inl e \<Rightarrow> Err e
      | Inr (models, names) \<Rightarrow>
     (case build_routes (ri_routes input) names {} [] [] of
        Inl e \<Rightarrow> Err e
      | Inr (routes, schedules) \<Rightarrow>
     (case check_model_routes (map snd models) routes of
        Inl e \<Rightarrow> Err e
      | Inr _ \<Rightarrow>
     (case insert_aliases (ri_aliases input) models names [] of
        Inl e \<Rightarrow> Err e
      | Inr aliases \<Rightarrow>
     (case insert_access_groups (ri_access_groups input) routes [] of
        Inl e \<Rightarrow> Err e
      | Inr groups \<Rightarrow>
     (case insert_client_keys (ri_client_keys input) groups {} [] of
        Inl e \<Rightarrow> Err e
      | Inr keys \<Rightarrow>
          Ok \<lparr>rs_version = ri_version input, rs_public_models = models,
              rs_public_model_names_by_id = names, rs_aliases = aliases, rs_routes = routes,
              rs_route_schedules = schedules, rs_access_groups = groups, rs_client_keys = keys\<rparr>))))))"

section \<open>Lookups\<close>

definition resolve_public_model :: "route_snapshot \<Rightarrow> string \<Rightarrow> snapshot_public_model option" where
  "resolve_public_model s name =
     (case bm_get (rs_public_models s) name of
        Some m \<Rightarrow> Some m
      | None \<Rightarrow>
          (case bm_get (rs_aliases s) name of
             None \<Rightarrow> None
           | Some model_id \<Rightarrow>
               (case bm_get (rs_public_model_names_by_id s) model_id of
                  None \<Rightarrow> None
                | Some model_name \<Rightarrow> bm_get (rs_public_models s) model_name)))"

definition public_model_is_visible_to ::
  "route_snapshot \<Rightarrow> snapshot_access_group \<Rightarrow> snapshot_public_model \<Rightarrow> bool" where
  "public_model_is_visible_to s g m \<longleftrightarrow>
     ag_permits_route g (pm_route_id m) \<and>
     (case bm_get (rs_routes s) (pm_route_id m) of
        None \<Rightarrow> False
      | Some r \<Rightarrow> has_hard_eligible_candidate r)"

definition resolve_public_model_for_access_group ::
  "route_snapshot \<Rightarrow> string \<Rightarrow> string \<Rightarrow> snapshot_public_model option" where
  "resolve_public_model_for_access_group s group_id name =
     (case bm_get (rs_access_groups s) group_id of
        None \<Rightarrow> None
      | Some g \<Rightarrow>
          (case resolve_public_model s name of
             None \<Rightarrow> None
           | Some m \<Rightarrow> if public_model_is_visible_to s g m then Some m else None))"

definition public_models_for_access_group ::
  "route_snapshot \<Rightarrow> string \<Rightarrow> snapshot_public_model list" where
  "public_models_for_access_group s group_id =
     filter (\<lambda>m. case bm_get (rs_access_groups s) group_id of
                   None \<Rightarrow> False
                 | Some g \<Rightarrow> public_model_is_visible_to s g m)
       (map snd (rs_public_models s))"

section \<open>The registry\<close>

text \<open>
  \<open>ArcSwap\<close> is the field that publication replaces; a prepared publication holds the registry's
  lock, so nothing else is published between preparation and commit.
\<close>

datatype snapshot_registry_error = SameVersion | NoRollbackAvailable | PublicationLockPoisoned

record snapshot_transition =
  tr_previous_version :: string
  tr_current_version :: string

record route_snapshot_registry =
  sg_current :: route_snapshot
  sg_previous :: "route_snapshot option"
  sg_poisoned :: bool

record prepared_snapshot_publication =
  pp_next :: route_snapshot
  pp_previous :: route_snapshot

definition registry_new :: "route_snapshot \<Rightarrow> route_snapshot_registry" where
  "registry_new initial = \<lparr>sg_current = initial, sg_previous = None, sg_poisoned = False\<rparr>"

definition registry_try_new_with_previous ::
  "route_snapshot \<Rightarrow> route_snapshot option \<Rightarrow> snapshot_registry_error + route_snapshot_registry" where
  "registry_try_new_with_previous initial previous =
     (if (case previous of None \<Rightarrow> False | Some p \<Rightarrow> rs_version p = rs_version initial)
      then Err SameVersion
      else Ok \<lparr>sg_current = initial, sg_previous = previous, sg_poisoned = False\<rparr>)"

definition prepare_publication ::
  "route_snapshot \<Rightarrow> route_snapshot_registry \<Rightarrow> snapshot_registry_error + prepared_snapshot_publication" where
  "prepare_publication next g =
     (if sg_poisoned g then Err PublicationLockPoisoned
      else if rs_version (sg_current g) = rs_version next then Err SameVersion
      else Ok \<lparr>pp_next = next, pp_previous = sg_current g\<rparr>)"

definition prepare_rollback ::
  "route_snapshot_registry \<Rightarrow> snapshot_registry_error + prepared_snapshot_publication" where
  "prepare_rollback g =
     (if sg_poisoned g then Err PublicationLockPoisoned
      else (case sg_previous g of
              None \<Rightarrow> Err NoRollbackAvailable
            | Some next \<Rightarrow>
                if rs_version (sg_current g) = rs_version next then Err SameVersion
                else Ok \<lparr>pp_next = next, pp_previous = sg_current g\<rparr>))"

definition publication_commit ::
  "prepared_snapshot_publication \<Rightarrow> route_snapshot_registry \<Rightarrow>
     snapshot_transition \<times> route_snapshot_registry" where
  "publication_commit p g =
     (\<lparr>tr_previous_version = rs_version (pp_previous p), tr_current_version = rs_version (pp_next p)\<rparr>,
      g\<lparr>sg_current := pp_next p, sg_previous := Some (pp_previous p)\<rparr>)"

definition registry_publish ::
  "route_snapshot \<Rightarrow> route_snapshot_registry \<Rightarrow>
     (snapshot_registry_error + snapshot_transition) \<times> route_snapshot_registry" where
  "registry_publish next g =
     (case prepare_publication next g of
        Inl e \<Rightarrow> (Err e, g)
      | Inr p \<Rightarrow> (let (t, g') = publication_commit p g in (Ok t, g')))"

definition registry_rollback ::
  "route_snapshot_registry \<Rightarrow> (snapshot_registry_error + snapshot_transition) \<times> route_snapshot_registry" where
  "registry_rollback g =
     (case prepare_rollback g of
        Inl e \<Rightarrow> (Err e, g)
      | Inr p \<Rightarrow> (let (t, g') = publication_commit p g in (Ok t, g')))"

section \<open>The authenticator\<close>

text \<open>
  The snapshot is loaded once and pinned. The clock reading is \<open>None\<close> when the clock is
  unavailable; \<open>hmac\<close> and the pepper belong to the key verifier.
\<close>

definition internal_request_error :: gateway_error where
  "internal_request_error = gateway_error_new InternalError RequestScope"

record snapshot_authenticated_client =
  sac_snapshot :: route_snapshot
  sac_authenticated_client :: authenticated_client
  sac_access_group_id :: string

definition authenticate_snapshot ::
  "mac \<Rightarrow> bytes \<Rightarrow> clock_reading \<Rightarrow> route_snapshot \<Rightarrow> string \<Rightarrow> gateway_error + authenticated_client" where
  "authenticate_snapshot hmac pepper now s presented =
     (case parse_presented_key_prefix presented of
        Inl _ \<Rightarrow> Err client_unauthorized_error
      | Inr prefix \<Rightarrow>
     (case bm_get (rs_client_keys s) prefix of
        None \<Rightarrow> Err client_unauthorized_error
      | Some key \<Rightarrow>
     (case now of
        None \<Rightarrow> Err internal_request_error
      | Some now_ms \<Rightarrow>
     (case client_key_verify hmac pepper presented (kv_record key) now_ms of
        Inl _ \<Rightarrow> Err internal_request_error
      | Inr authenticated \<Rightarrow>
          if \<not> authenticated then Err client_unauthorized_error
          else Ok \<lparr>ac_client_key_id = ck_client_key_id (kv_record key),
                   ac_access_group_id = Some (ck_access_group_id (kv_record key))\<rparr>))))"

definition authenticate_pinned ::
  "mac \<Rightarrow> bytes \<Rightarrow> clock_reading \<Rightarrow> route_snapshot_registry \<Rightarrow> string \<Rightarrow>
     gateway_error + snapshot_authenticated_client" where
  "authenticate_pinned hmac pepper now g presented =
     (let s = sg_current g in
      case authenticate_snapshot hmac pepper now s presented of
        Inl e \<Rightarrow> Err e
      | Inr c \<Rightarrow>
          (case ac_access_group_id c of
             None \<Rightarrow> Err internal_request_error
           | Some access_group \<Rightarrow>
               Ok \<lparr>sac_snapshot = s, sac_authenticated_client = c, sac_access_group_id = access_group\<rparr>))"

definition sac_public_models :: "snapshot_authenticated_client \<Rightarrow> snapshot_public_model list" where
  "sac_public_models c = public_models_for_access_group (sac_snapshot c) (sac_access_group_id c)"

definition sac_resolve_public_model ::
  "snapshot_authenticated_client \<Rightarrow> string \<Rightarrow> snapshot_public_model option" where
  "sac_resolve_public_model c name =
     resolve_public_model_for_access_group (sac_snapshot c) (sac_access_group_id c) name"

section \<open>The candidate scheduler\<close>

record route_candidate_scheduler =
  cs_snapshot :: route_snapshot
  cs_cursors :: "(string, 64 word list) bmap"

text \<open>\<open>collect\<close> into a \<open>BTreeMap\<close>: one entry per route, a zero cursor per tier.\<close>

definition candidate_scheduler_new :: "route_snapshot \<Rightarrow> route_candidate_scheduler" where
  "candidate_scheduler_new s =
     \<lparr>cs_snapshot = s,
      cs_cursors =
        map (\<lambda>(route_id, r).
               (route_id,
                case bm_get (rs_route_schedules s) (sr_id r) of
                  None \<Rightarrow> []
                | Some schedule \<Rightarrow> replicate (length schedule) 0))
          (rs_routes s)\<rparr>"

definition candidate_body ::
  "snapshot_route_candidate list \<Rightarrow> (snapshot_route_candidate \<Rightarrow> 's \<Rightarrow> bool \<times> 's) \<Rightarrow> usize \<Rightarrow> 's \<Rightarrow>
     scan_step \<times> 's" where
  "candidate_body cands is_eligible i s =
     (if length cands \<le> i then (Abort, s)
      else (let (eligible, s') = is_eligible (cands ! i) s in (if eligible then Accept else Skip, s')))"

text \<open>The tier loop of \<open>select_eligible\<close>: a missing cursor or an empty tier ends the search.\<close>

fun select_tiers ::
  "(usize \<Rightarrow> 's \<Rightarrow> scan_step \<times> 's) \<Rightarrow> usize list list \<Rightarrow> 64 word list \<Rightarrow> 's \<Rightarrow>
     scan_outcome \<times> 64 word list \<times> 's" where
  "select_tiers f [] cursors s = (Exhausted, cursors, s)"
| "select_tiers f (slots # tiers) [] s = (Aborted, [], s)"
| "select_tiers f (slots # tiers) (cursor # cursors) s =
     (if slots = [] then (Aborted, cursor # cursors, s)
      else (case scan_slots f slots cursor s of
              (Exhausted, s') \<Rightarrow>
                (let (r, cursors', s'') = select_tiers f tiers cursors s' in (r, (cursor + 1) # cursors', s''))
            | (r, s') \<Rightarrow> (r, (cursor + 1) # cursors, s')))"

definition select_eligible ::
  "string \<Rightarrow> (snapshot_route_candidate \<Rightarrow> 's \<Rightarrow> bool \<times> 's) \<Rightarrow> route_candidate_scheduler \<Rightarrow> 's \<Rightarrow>
     snapshot_route_candidate option \<times> route_candidate_scheduler \<times> 's" where
  "select_eligible route_id is_eligible sch s =
     (case bm_get (rs_routes (cs_snapshot sch)) route_id of
        None \<Rightarrow> (None, sch, s)
      | Some route \<Rightarrow>
     (case bm_get (rs_route_schedules (cs_snapshot sch)) route_id of
        None \<Rightarrow> (None, sch, s)
      | Some schedule \<Rightarrow>
     (case bm_get (cs_cursors sch) route_id of
        None \<Rightarrow> (None, sch, s)
      | Some cursors \<Rightarrow>
          (let (r, cursors', s') =
                 select_tiers (candidate_body (sr_candidates route) is_eligible)
                   (map st_slot_indexes schedule) cursors s;
               sch' = sch\<lparr>cs_cursors := bm_insert route_id cursors' (cs_cursors sch)\<rparr>
           in (case r of Found i \<Rightarrow> Some (sr_candidates route ! i) | _ \<Rightarrow> None, sch', s')))))"

definition select ::
  "string \<Rightarrow> route_candidate_scheduler \<Rightarrow> snapshot_route_candidate option \<times> route_candidate_scheduler" where
  "select route_id sch =
     (let (r, sch', _) = select_eligible route_id (\<lambda>_ s. (True, s)) sch () in (r, sch'))"

section \<open>Compiled schedules\<close>

definition route_weight :: "snapshot_route \<Rightarrow> usize \<Rightarrow> nat" where
  "route_weight r i = nat (rc_weight (sr_candidates r ! i))"

definition candidates_valid :: "snapshot_route_candidate list \<Rightarrow> bool" where
  "candidates_valid cs \<longleftrightarrow> list_all (\<lambda>c. 0 \<le> rc_priority c \<and> 0 < rc_weight c) cs"

lemma group_candidates_ok:
  "grouped ps m \<Longrightarrow> n = length ps \<Longrightarrow> group_candidates cs n m = Inr m' \<Longrightarrow>
     grouped (ps @ map rc_priority cs) m' \<and> candidates_valid cs"
proof (induction cs arbitrary: ps n m)
  case (Cons c cs)
  then have "group_candidates cs (Suc n) (push_index (rc_priority c) n m) = Inr m'"
    and c: "0 \<le> rc_priority c" "0 < rc_weight c" by (auto split: if_splits)
  with Cons.IH [OF grouped_push [OF Cons.prems(1)], of "Suc n" "rc_priority c"] Cons.prems(2)
  show ?case by (simp add: candidates_valid_def)
qed (simp add: candidates_valid_def)

lemma route_collect_weights_ok:
  "route_collect_weights cands is total_slots ws = Inr (t, ws') \<Longrightarrow>
     t = total_slots + (\<Sum>i\<leftarrow>is. nat (rc_weight (cands ! i))) \<and>
     ws' = ws @ map (\<lambda>i. int (nat (rc_weight (cands ! i)))) is \<and> (is \<noteq> [] \<longrightarrow> t \<le> 1024)"
proof (induction "is" arbitrary: total_slots ws)
  case (Cons i "is")
  then have "route_collect_weights cands is (total_slots + nat (rc_weight (cands ! i)))
      (ws @ [int (nat (rc_weight (cands ! i)))]) = Inr (t, ws')"
    and "total_slots + nat (rc_weight (cands ! i)) \<le> 1024"
    by (auto simp: unsigned_of_i64_def checked_add_u64_def i64_of_unsigned_def max_schedule_slots_def
        split: if_splits option.splits)
  moreover from Cons.IH [OF this(1)]
  have "is = [] \<Longrightarrow> t = total_slots + nat (rc_weight (cands ! i))" by simp
  ultimately show ?case using Cons.IH by (cases "is = []") (force, force)
qed auto

lemma route_smooth_weighted_ok:
  assumes "route_smooth_weighted_slots cands is = Inr slots" "is \<noteq> []"
    and "\<forall>i \<in> set is. 0 < rc_weight (cands ! i)"
  shows "slots = weighted_schedule (\<lambda>i. nat (rc_weight (cands ! i))) is
    \<and> (\<Sum>i\<leftarrow>is. nat (rc_weight (cands ! i))) \<le> 1024"
proof -
  let ?w = "\<lambda>i. nat (rc_weight (cands ! i))"
  obtain t ws where c: "route_collect_weights cands is 0 [] = Inr (t, ws)"
    using assms(1) by (auto simp: route_smooth_weighted_slots_def split: sum.splits)
  note ok = route_collect_weights_ok [OF c]
  have "weighted_rounds wrapping_add_i64 wrapping_sub_i64 (map (\<lambda>i. int (?w i)) is)
      (int (\<Sum>i\<leftarrow>is. ?w i)) is (\<Sum>i\<leftarrow>is. ?w i) (replicate (length is) 0) = Some (weighted_schedule ?w is)"
    using assms ok by (intro weighted_rounds_eq exact_i64) simp_all
  then show ?thesis using assms(1,2) c ok
    by (auto simp: route_smooth_weighted_slots_def split: option.splits)
qed

definition expected_count :: "snapshot_route \<Rightarrow> usize \<Rightarrow> nat" where
  "expected_count r i = (if sr_policy r = SmoothWeightedRoundRobin then route_weight r i else 1)"

text \<open>
  The order of a tier's slots: its candidates by id, under the weighted policy as the smooth weighted
  rounds over unbounded integers deal them.
\<close>

definition tier_order :: "snapshot_route \<Rightarrow> i64 \<Rightarrow> usize list" where
  "tier_order r p =
     (let by_id = sort_key (\<lambda>i. rc_id (sr_candidates r ! i)) (indexes_of (map rc_priority (sr_candidates r)) p)
      in if sr_policy r = SmoothWeightedRoundRobin
         then weighted_schedule (\<lambda>i. nat (rc_weight (sr_candidates r ! i))) by_id else by_id)"

text \<open>What a tier of a compiled schedule is.\<close>

definition tier_ok :: "snapshot_route \<Rightarrow> snapshot_priority_tier \<Rightarrow> bool" where
  "tier_ok r t \<longleftrightarrow>
     st_slot_indexes t \<noteq> [] \<and> length (st_slot_indexes t) \<le> 1024 \<and>
     (\<forall>i. count_list (st_slot_indexes t) i =
        (if i < length (sr_candidates r) \<and> rc_priority (sr_candidates r ! i) = st_priority t
         then expected_count r i else 0)) \<and>
     st_slot_indexes t = tier_order r (st_priority t)"

lemma tier_okD:
  assumes "tier_ok r t"
  shows "st_slot_indexes t \<noteq> []" and "length (st_slot_indexes t) \<le> 1024"
    and "count_list (st_slot_indexes t) i =
        (if i < length (sr_candidates r) \<and> rc_priority (sr_candidates r ! i) = st_priority t
         then expected_count r i else 0)"
    and "st_slot_indexes t = tier_order r (st_priority t)"
  using assms unfolding tier_ok_def by blast+

lemma tier_slots_ok:
  assumes valid: "candidates_valid (sr_candidates r)" and "is": "is = indexes_of (map rc_priority (sr_candidates r)) p"
    and ne: "is \<noteq> []" and slots: "tier_slots r is = Inr slots"
  shows "tier_ok r \<lparr>st_priority = p, st_slot_indexes = slots\<rparr>"
proof -
  let ?is = "sort_key (\<lambda>i. rc_id (sr_candidates r ! i)) is"
  have set_is: "set ?is = {i. i < length (sr_candidates r) \<and> rc_priority (sr_candidates r ! i) = p}"
    by (auto simp: "is" indexes_of_set)
  have dist: "distinct ?is" by (simp add: "is" indexes_of_distinct)
  have ne': "?is \<noteq> []" using ne by (metis set_empty set_sort)
  have pos: "\<forall>i \<in> set ?is. 0 < rc_weight (sr_candidates r ! i)"
    using valid unfolding set_is by (simp add: candidates_valid_def list_all_length)
  show ?thesis
  proof (cases "sr_policy r = SmoothWeightedRoundRobin")
    case True
    let ?w = "\<lambda>i. nat (rc_weight (sr_candidates r ! i))"
    have w: "\<forall>i \<in> set ?is. 0 < ?w i" using pos by auto
    have sl: "slots = weighted_schedule ?w ?is" "(\<Sum>i\<leftarrow>?is. ?w i) \<le> 1024"
      using slots True route_smooth_weighted_ok [OF _ ne' pos] by (simp_all add: tier_slots_def)
    have len: "length slots = (\<Sum>i\<leftarrow>?is. ?w i)" unfolding sl(1) by (rule weighted_schedule_length [OF w ne'])
    have cnt: "count_list slots i = (if i \<in> set ?is then ?w i else 0)" for i
      unfolding sl(1) by (rule weighted_schedule_count [OF w ne' dist])
    have "slots \<noteq> []"
    proof
      assume "slots = []"
      then have "(\<Sum>i\<leftarrow>?is. ?w i) = 0" using len by simp
      then have "\<forall>i \<in> set ?is. ?w i = 0" by (auto simp: sum_list_eq_0_iff)
      with w show False using ne' hd_in_set by (metis less_irrefl)
    qed
    then show ?thesis using len sl cnt True unfolding set_is
      by (simp add: tier_ok_def tier_order_def "is" expected_count_def route_weight_def)
  next
    case False
    then have "slots = ?is" "length ?is \<le> 1024"
      using slots by (auto simp: tier_slots_def max_schedule_slots_def Let_def
          split: snapshot_route_policy.splits if_splits)
    then show ?thesis using False ne' count_list_distinct [OF dist] unfolding set_is
      by (simp add: tier_ok_def tier_order_def "is" expected_count_def)
  qed
qed

lemma compile_tiers_ok:
  assumes valid: "candidates_valid (sr_candidates r)"
    and "\<forall>(p, is) \<in> set m. is = indexes_of (map rc_priority (sr_candidates r)) p \<and> is \<noteq> []"
    and "compile_tiers r m = Inr tiers"
  shows "map st_priority tiers = map fst m \<and> list_all (tier_ok r) tiers"
  using assms(2,3)
proof (induction m arbitrary: tiers)
  case (Cons e m)
  obtain p "is" where e: "e = (p, is)" by fastforce
  obtain slots ts where s: "tier_slots r is = Inr slots" "compile_tiers r m = Inr ts"
    "tiers = \<lparr>st_priority = p, st_slot_indexes = slots\<rparr> # ts"
    using Cons.prems(2) by (auto simp: e split: sum.splits)
  have "tier_ok r \<lparr>st_priority = p, st_slot_indexes = slots\<rparr>"
    using Cons.prems(1) by (intro tier_slots_ok [OF valid _ _ s(1)]) (auto simp: e)
  with Cons.IH [OF _ s(2)] Cons.prems(1) show ?case by (simp add: e s(3))
qed simp

definition schedule_ok :: "snapshot_route \<Rightarrow> snapshot_route_schedule \<Rightarrow> bool" where
  "schedule_ok r tiers \<longleftrightarrow>
     sorted_wrt (<) (map st_priority tiers) \<and> list_all (tier_ok r) tiers \<and>
     st_priority ` set tiers = rc_priority ` set (sr_candidates r) \<and> candidates_valid (sr_candidates r)"

lemma schedule_try_compile_ok:
  assumes "schedule_try_compile r = Inr tiers"
  shows "schedule_ok r tiers"
proof -
  obtain m where m: "group_candidates (sr_candidates r) 0 [] = Inr m" "compile_tiers r m = Inr tiers"
    using assms by (auto simp: schedule_try_compile_def split: sum.splits)
  have grp: "grouped (map rc_priority (sr_candidates r)) m" and valid: "candidates_valid (sr_candidates r)"
    using group_candidates_ok [OF grouped_Nil _ m(1)] by simp_all
  have tiers: "map st_priority tiers = map fst m" "list_all (tier_ok r) tiers"
    using compile_tiers_ok [OF valid _ m(2)] grouped_entry [OF grp] by auto
  have "st_priority ` set tiers = fst ` set m" using arg_cong [OF tiers(1), of set] by simp
  also have "\<dots> = rc_priority ` set (sr_candidates r)" using grouped_keys [OF grp] by simp
  finally show ?thesis using tiers grouped_sorted [OF grp] valid by (simp add: schedule_ok_def)
qed

section \<open>Referential integrity\<close>

definition models_ok ::
  "(string, snapshot_public_model) bmap \<Rightarrow> (string, string) bmap \<Rightarrow> bool" where
  "models_ok models names \<longleftrightarrow> bm_ok models \<and> bm_ok names \<and>
     (\<forall>name m. bm_get models name = Some m \<longrightarrow> pm_model_name m = name \<and> bm_get names (pm_id m) = Some name) \<and>
     (\<forall>i name. bm_get names i = Some name \<longrightarrow> (\<exists>m. bm_get models name = Some m \<and> pm_id m = i))"

lemma insert_public_models_ok:
  "models_ok models names \<Longrightarrow> insert_public_models ms models names = Inr (models', names') \<Longrightarrow>
     models_ok models' names'"
proof (induction ms arbitrary: models names)
  case (Cons m ms)
  then have new: "bm_get models (pm_model_name m) = None" "bm_get names (pm_id m) = None"
    and run: "insert_public_models ms (bm_insert (pm_model_name m) m models)
      (bm_insert (pm_id m) (pm_model_name m) names) = Inr (models', names')"
    by (auto split: if_splits)
  have "models_ok (bm_insert (pm_model_name m) m models) (bm_insert (pm_id m) (pm_model_name m) names)"
    using Cons.prems(1) new by (force simp: models_ok_def bm_get_insert)
  from Cons.IH [OF this run] show ?case .
qed simp

definition routes_ok ::
  "(string, string) bmap \<Rightarrow> (string, snapshot_route) bmap \<Rightarrow> (string, snapshot_route_schedule) bmap \<Rightarrow> bool" where
  "routes_ok names routes schedules \<longleftrightarrow> bm_ok routes \<and> bm_ok schedules \<and>
     dom (bm_get schedules) = dom (bm_get routes) \<and>
     (\<forall>i r. bm_get routes i = Some r \<longrightarrow>
        sr_id r = i \<and> bm_get names (sr_public_model_id r) \<noteq> None \<and> sr_candidates r \<noteq> [] \<and>
        schedule_ok r (the (bm_get schedules i)))"

definition candidates_of :: "(string, snapshot_route) bmap \<Rightarrow> snapshot_route_candidate set" where
  "candidates_of routes = (\<Union>r \<in> ran (bm_get routes). set (sr_candidates r))"

text \<open>No two candidates, of one route or of two, have the same identity.\<close>

definition candidate_ids_unique :: "(string, snapshot_route) bmap \<Rightarrow> bool" where
  "candidate_ids_unique routes \<longleftrightarrow>
     (\<forall>i r. bm_get routes i = Some r \<longrightarrow> distinct (map rc_id (sr_candidates r))) \<and>
     (\<forall>i j r q. bm_get routes i = Some r \<longrightarrow> bm_get routes j = Some q \<longrightarrow> i \<noteq> j \<longrightarrow>
        rc_id ` set (sr_candidates r) \<inter> rc_id ` set (sr_candidates q) = {})"

lemma insert_candidate_ids_ok:
  "insert_candidate_ids cs ids = Inr ids' \<Longrightarrow>
     distinct (map rc_id cs) \<and> ids' = ids \<union> rc_id ` set cs \<and> ids \<inter> rc_id ` set cs = {}"
  by (induction cs arbitrary: ids) (force split: if_splits)+

lemma candidate_ids_unique_insert:
  assumes "candidate_ids_unique routes" "distinct (map rc_id (sr_candidates r))"
    "rc_id ` candidates_of routes \<inter> rc_id ` set (sr_candidates r) = {}"
  shows "candidate_ids_unique (bm_insert i r routes)"
proof -
  have apart: "rc_id ` set (sr_candidates q) \<inter> rc_id ` set (sr_candidates r) = {}"
    if "bm_get routes j = Some q" for j q
    using that assms(3) by (force simp: candidates_of_def ran_def)
  have "rc_id ` set (sr_candidates a) \<inter> rc_id ` set (sr_candidates b) = {}"
    if "bm_get (bm_insert i r routes) j = Some a" "bm_get (bm_insert i r routes) k = Some b" "j \<noteq> k" for j k a b
    using that assms(1) apart [of j a] apart [of k b] unfolding bm_get_insert candidate_ids_unique_def
    by (cases "j = i"; cases "k = i") (simp_all add: Int_commute)
  moreover have "distinct (map rc_id (sr_candidates a))" if "bm_get (bm_insert i r routes) j = Some a" for j a
    using that assms(1,2) unfolding bm_get_insert candidate_ids_unique_def by (cases "j = i") auto
  ultimately show ?thesis unfolding candidate_ids_unique_def by blast
qed

lemma candidates_of_insert:
  "bm_get routes i = None \<Longrightarrow> candidates_of (bm_insert i r routes) = set (sr_candidates r) \<union> candidates_of routes"
  by (simp add: candidates_of_def bm_get_insert_upd ran_map_upd)

lemma routes_ok_insert:
  assumes "routes_ok names routes schedules" "bm_get names (sr_public_model_id r) \<noteq> None"
    "sr_candidates r \<noteq> []" "schedule_ok r sched"
  shows "routes_ok names (bm_insert (sr_id r) r routes) (bm_insert (sr_id r) sched schedules)"
  using assms by (auto simp: routes_ok_def bm_get_insert dom_def split: if_splits)

lemma build_routes_ok:
  "routes_ok names routes schedules \<Longrightarrow> candidate_ids_unique routes \<Longrightarrow> ids = rc_id ` candidates_of routes \<Longrightarrow>
     build_routes rs names ids routes schedules = Inr (routes', schedules') \<Longrightarrow>
     routes_ok names routes' schedules' \<and> candidate_ids_unique routes'"
proof (induction rs arbitrary: ids routes schedules)
  case (Cons r rs)
  obtain ids' sched where s: "insert_candidate_ids (sr_candidates r) ids = Inr ids'"
    "schedule_try_compile r = Inr sched"
    and new: "bm_get routes (sr_id r) = None" "bm_get names (sr_public_model_id r) \<noteq> None" "sr_candidates r \<noteq> []"
    and run: "build_routes rs names ids' (bm_insert (sr_id r) r routes) (bm_insert (sr_id r) sched schedules)
      = Inr (routes', schedules')"
    using Cons.prems(4) by (auto split: if_splits sum.splits)
  note ids = insert_candidate_ids_ok [OF s(1)]
  have cands: "ids' = rc_id ` candidates_of (bm_insert (sr_id r) r routes)"
    using ids Cons.prems(3) by (simp add: candidates_of_insert [OF new(1)] image_Un Un_commute)
  have "candidate_ids_unique (bm_insert (sr_id r) r routes)"
    using ids Cons.prems(2,3) by (intro candidate_ids_unique_insert) simp_all
  from Cons.IH [OF routes_ok_insert [OF Cons.prems(1) new(2,3) schedule_try_compile_ok [OF s(2)]] this cands run]
  show ?case .
qed simp

lemma check_model_routes_ok:
  "check_model_routes ms routes = Inr () \<longleftrightarrow>
     list_all (\<lambda>m. case bm_get routes (pm_route_id m) of None \<Rightarrow> False | Some r \<Rightarrow> sr_public_model_id r = pm_id m) ms"
  by (induction ms) (auto split: option.splits)

definition aliases_ok ::
  "(string, snapshot_public_model) bmap \<Rightarrow> (string, string) bmap \<Rightarrow> (string, string) bmap \<Rightarrow> bool" where
  "aliases_ok models names aliases \<longleftrightarrow> bm_ok aliases \<and>
     (\<forall>a i. bm_get aliases a = Some i \<longrightarrow> bm_get models a = None \<and> bm_get names i \<noteq> None)"

lemma insert_aliases_ok:
  "aliases_ok models names aliases \<Longrightarrow> insert_aliases as models names aliases = Inr aliases' \<Longrightarrow>
     aliases_ok models names aliases'"
proof (induction "as" arbitrary: aliases)
  case (Cons p "as")
  obtain a i where p: "p = (a, i)" by fastforce
  with Cons.prems have new: "bm_get models a = None" "bm_get names i \<noteq> None"
    and run: "insert_aliases as models names (bm_insert a i aliases) = Inr aliases'" by (auto split: if_splits)
  have "aliases_ok models names (bm_insert a i aliases)"
    using Cons.prems(1) new by (auto simp: aliases_ok_def bm_get_insert split: if_splits)
  from Cons.IH [OF this run] show ?case .
qed simp

definition groups_ok :: "(string, snapshot_route) bmap \<Rightarrow> (string, snapshot_access_group) bmap \<Rightarrow> bool" where
  "groups_ok routes groups \<longleftrightarrow> bm_ok groups \<and>
     (\<forall>i g. bm_get groups i = Some g \<longrightarrow> ag_id g = i \<and> ag_allowed_route_ids g \<subseteq> dom (bm_get routes))"

lemma insert_access_groups_ok:
  "groups_ok routes groups \<Longrightarrow> insert_access_groups gs routes groups = Inr groups' \<Longrightarrow> groups_ok routes groups'"
proof (induction gs arbitrary: groups)
  case (Cons g gs)
  then have "ag_allowed_route_ids g \<subseteq> dom (bm_get routes)"
    and run: "insert_access_groups gs routes (bm_insert (ag_id g) g groups) = Inr groups'"
    by (auto split: if_splits)
  with Cons.prems(1) have "groups_ok routes (bm_insert (ag_id g) g groups)"
    by (simp add: groups_ok_def bm_get_insert)
  from Cons.IH [OF this run] show ?case .
qed simp

definition keys_ok ::
  "(string, snapshot_access_group) bmap \<Rightarrow> (string, snapshot_client_key_view) bmap \<Rightarrow> bool" where
  "keys_ok groups keys \<longleftrightarrow> bm_ok keys \<and>
     (\<forall>p k. bm_get keys p = Some k \<longrightarrow> ck_prefix (kv_record k) = p \<and>
        (\<exists>g. bm_get groups (ck_access_group_id (kv_record k)) = Some g \<and>
             kv_allowed_route_ids k = ag_allowed_route_ids g)) \<and>
     (\<forall>p q k l. bm_get keys p = Some k \<longrightarrow> bm_get keys q = Some l \<longrightarrow>
        ck_client_key_id (kv_record k) = ck_client_key_id (kv_record l) \<longrightarrow> p = q)"

lemma keys_ok_insert:
  assumes ok: "keys_ok groups keys" and g: "bm_get groups (ck_access_group_id (kv_record k)) = Some g"
    "kv_allowed_route_ids k = ag_allowed_route_ids g"
    and fresh: "\<And>q l. bm_get keys q = Some l \<Longrightarrow> ck_client_key_id (kv_record l) \<noteq> ck_client_key_id (kv_record k)"
  shows "keys_ok groups (bm_insert (ck_prefix (kv_record k)) k keys)" (is "keys_ok _ ?keys")
  unfolding keys_ok_def
proof (intro conjI allI impI)
  show "bm_ok ?keys" using ok by (simp add: keys_ok_def)
next
  fix p a assume "bm_get ?keys p = Some a"
  then have "p = ck_prefix (kv_record k) \<and> a = k \<or> bm_get keys p = Some a"
    by (auto simp: bm_get_insert split: if_splits)
  then have "ck_prefix (kv_record a) = p \<and>
      (\<exists>g. bm_get groups (ck_access_group_id (kv_record a)) = Some g \<and>
             kv_allowed_route_ids a = ag_allowed_route_ids g)"
  proof
    assume "bm_get keys p = Some a"
    then show ?thesis using ok unfolding keys_ok_def by blast
  qed (use g in simp)
  then show "ck_prefix (kv_record a) = p"
    and "\<exists>g. bm_get groups (ck_access_group_id (kv_record a)) = Some g \<and>
             kv_allowed_route_ids a = ag_allowed_route_ids g" by simp_all
next
  fix p q a b
  assume a: "bm_get ?keys p = Some a" and b: "bm_get ?keys q = Some b"
    and eq: "ck_client_key_id (kv_record a) = ck_client_key_id (kv_record b)"
  consider "p = q" | "bm_get keys p = Some a" "b = k" | "bm_get keys q = Some b" "a = k"
    | "bm_get keys p = Some a" "bm_get keys q = Some b"
    using a b by (cases "p = ck_prefix (kv_record k)"; cases "q = ck_prefix (kv_record k)")
      (simp_all add: bm_get_insert)
  then show "p = q"
  proof cases
    case 4
    then show ?thesis using ok eq unfolding keys_ok_def by blast
  qed (use fresh eq in auto)
qed

lemma insert_client_keys_ok:
  "keys_ok groups keys \<Longrightarrow> ids = (\<lambda>k. ck_client_key_id (kv_record k)) ` ran (bm_get keys) \<Longrightarrow>
     insert_client_keys ks groups ids keys = Inr keys' \<Longrightarrow> keys_ok groups keys'"
proof (induction ks arbitrary: ids keys)
  case (Cons k ks)
  let ?p = "ck_prefix (kv_record k)" and ?id = "ck_client_key_id (kv_record k)"
  obtain g where g: "bm_get groups (ck_access_group_id (kv_record k)) = Some g"
    "kv_allowed_route_ids k = ag_allowed_route_ids g"
    and new: "?id \<notin> ids" "bm_get keys ?p = None"
    and run: "insert_client_keys ks groups (insert ?id ids) (bm_insert ?p k keys) = Inr keys'"
    using Cons.prems(3) by (auto split: option.splits if_splits)
  have fresh: "?id \<noteq> ck_client_key_id (kv_record l)" if "bm_get keys q = Some l" for q l
    using new(1) that Cons.prems(2) by (force simp: ran_def)
  have ok: "keys_ok groups (bm_insert ?p k keys)"
    by (rule keys_ok_insert [OF Cons.prems(1) g]) (use fresh in metis)
  have "insert ?id ids = (\<lambda>k. ck_client_key_id (kv_record k)) ` ran (bm_get (bm_insert ?p k keys))"
    using Cons.prems(2) new(2) by (simp add: bm_get_insert_upd ran_map_upd)
  from Cons.IH [OF ok this run] show ?case .
qed simp

definition snapshot_ok :: "route_snapshot \<Rightarrow> bool" where
  "snapshot_ok s \<longleftrightarrow>
     models_ok (rs_public_models s) (rs_public_model_names_by_id s) \<and>
     routes_ok (rs_public_model_names_by_id s) (rs_routes s) (rs_route_schedules s) \<and>
     candidate_ids_unique (rs_routes s) \<and>
     (\<forall>name m. bm_get (rs_public_models s) name = Some m \<longrightarrow>
        (\<exists>r. bm_get (rs_routes s) (pm_route_id m) = Some r \<and> sr_public_model_id r = pm_id m)) \<and>
     aliases_ok (rs_public_models s) (rs_public_model_names_by_id s) (rs_aliases s) \<and>
     groups_ok (rs_routes s) (rs_access_groups s) \<and>
     keys_ok (rs_access_groups s) (rs_client_keys s)"

lemma try_new_steps:
  assumes "route_snapshot_try_new input = Inr s"
  shows "insert_public_models (ri_public_models input) [] [] = Inr (rs_public_models s, rs_public_model_names_by_id s)"
    "build_routes (ri_routes input) (rs_public_model_names_by_id s) {} [] [] = Inr (rs_routes s, rs_route_schedules s)"
    "check_model_routes (map snd (rs_public_models s)) (rs_routes s) = Inr ()"
    "insert_aliases (ri_aliases input) (rs_public_models s) (rs_public_model_names_by_id s) [] = Inr (rs_aliases s)"
    "insert_access_groups (ri_access_groups input) (rs_routes s) [] = Inr (rs_access_groups s)"
    "insert_client_keys (ri_client_keys input) (rs_access_groups s) {} [] = Inr (rs_client_keys s)"
    "rs_version s = ri_version input"
  using assms by (auto simp: route_snapshot_try_new_def split: sum.splits prod.splits)

lemma try_new_ok:
  assumes "route_snapshot_try_new input = Inr s"
  shows "snapshot_ok s"
proof -
  note st = try_new_steps [OF assms]
  have "models_ok [] []" "routes_ok (rs_public_model_names_by_id s) [] []" "candidate_ids_unique []"
    "aliases_ok (rs_public_models s) (rs_public_model_names_by_id s) []" "groups_ok (rs_routes s) []"
    "keys_ok (rs_access_groups s) []" "candidates_of [] = {}"
    by (simp_all add: models_ok_def routes_ok_def candidate_ids_unique_def aliases_ok_def groups_ok_def
        keys_ok_def candidates_of_def)
  note base = this
  have "\<exists>r. bm_get (rs_routes s) (pm_route_id m) = Some r \<and> sr_public_model_id r = pm_id m"
    if "bm_get (rs_public_models s) name = Some m" for name m
    using st(3) map_of_SomeD [OF that]
    by (fastforce simp: check_model_routes_ok list_all_iff split: option.splits)
  then show ?thesis
    using insert_public_models_ok [OF base(1) st(1)] build_routes_ok [OF base(2,3) _ st(2)] base(7)
      insert_aliases_ok [OF base(4) st(4)] insert_access_groups_ok [OF base(5) st(5)]
      insert_client_keys_ok [OF base(6) _ st(6)]
    by (simp add: snapshot_ok_def)
qed

lemma snapshot_route:
  assumes "snapshot_ok s" "bm_get (rs_routes s) i = Some r"
  obtains sched where "bm_get (rs_route_schedules s) i = Some sched" "schedule_ok r sched" "sr_id r = i"
proof -
  have ok: "routes_ok (rs_public_model_names_by_id s) (rs_routes s) (rs_route_schedules s)"
    using assms(1) by (simp add: snapshot_ok_def)
  then have "i \<in> dom (bm_get (rs_route_schedules s))" using assms(2) by (auto simp: routes_ok_def)
  then obtain sched where "bm_get (rs_route_schedules s) i = Some sched" by blast
  moreover from this ok assms(2) have "schedule_ok r sched" "sr_id r = i"
    unfolding routes_ok_def by (metis option.sel)+
  ultimately show ?thesis by (rule that)
qed

lemma resolve_own_name:
  assumes "snapshot_ok s" "m \<in> set (map snd (rs_public_models s))"
  shows "resolve_public_model s (pm_model_name m) = Some m"
proof -
  have ok: "models_ok (rs_public_models s) (rs_public_model_names_by_id s)"
    using assms(1) by (simp add: snapshot_ok_def)
  obtain name where e: "(name, m) \<in> set (rs_public_models s)" using assms(2) by auto
  then have "bm_get (rs_public_models s) name = Some m"
    using ok by (intro bm_ok_get) (simp_all add: models_ok_def)
  with ok show ?thesis by (simp add: models_ok_def resolve_public_model_def)
qed

lemma resolve_public_model_iff:
  assumes "snapshot_ok s"
  shows "resolve_public_model s name = Some m \<longleftrightarrow>
    m \<in> set (map snd (rs_public_models s)) \<and>
    (name = pm_model_name m \<or> bm_get (rs_aliases s) name = Some (pm_id m))"
proof -
  have models: "models_ok (rs_public_models s) (rs_public_model_names_by_id s)"
    and aliases: "aliases_ok (rs_public_models s) (rs_public_model_names_by_id s) (rs_aliases s)"
    using assms by (simp_all add: snapshot_ok_def)
  have in_set: "m \<in> set (map snd (rs_public_models s))" if "bm_get (rs_public_models s) n = Some m" for n
    using map_of_SomeD [OF that] by force
  show ?thesis
  proof
    assume r: "resolve_public_model s name = Some m"
    then consider "bm_get (rs_public_models s) name = Some m"
      | i n where "bm_get (rs_aliases s) name = Some i" "bm_get (rs_public_model_names_by_id s) i = Some n"
          "bm_get (rs_public_models s) n = Some m"
      by (auto simp: resolve_public_model_def split: option.splits)
    then show "m \<in> set (map snd (rs_public_models s)) \<and>
        (name = pm_model_name m \<or> bm_get (rs_aliases s) name = Some (pm_id m))"
      using models in_set unfolding models_ok_def by cases (metis option.sel)+
  next
    assume m: "m \<in> set (map snd (rs_public_models s)) \<and>
        (name = pm_model_name m \<or> bm_get (rs_aliases s) name = Some (pm_id m))"
    have own: "resolve_public_model s (pm_model_name m) = Some m" using resolve_own_name assms m by blast
    show "resolve_public_model s name = Some m"
    proof (cases "name = pm_model_name m")
      case False
      obtain n where n: "(n, m) \<in> set (rs_public_models s)" using m by auto
      then have "bm_get (rs_public_models s) n = Some m"
        using models by (intro bm_ok_get) (simp_all add: models_ok_def)
      with False m models aliases show ?thesis
        by (auto simp: resolve_public_model_def models_ok_def aliases_ok_def)
    qed (use own in simp)
  qed
qed

section \<open>The candidate search\<close>

definition scheduler_ok :: "route_candidate_scheduler \<Rightarrow> bool" where
  "scheduler_ok sch \<longleftrightarrow> snapshot_ok (cs_snapshot sch) \<and> bm_ok (cs_cursors sch) \<and>
     (\<forall>i. map_option length (bm_get (cs_cursors sch) i) =
          map_option length (bm_get (rs_route_schedules (cs_snapshot sch)) i))"

text \<open>No cursor of the scheduler is within a schedule's length of wrapping.\<close>

definition scheduler_low :: "route_candidate_scheduler \<Rightarrow> bool" where
  "scheduler_low sch \<longleftrightarrow>
     list_all (\<lambda>(_, cursors). list_all (\<lambda>c. unat c + 1024 \<le> 2 ^ 64) cursors) (cs_cursors sch)"

lemma select_tiers_scan:
  "length cursors = length tiers \<Longrightarrow> list_all (\<lambda>slots. slots \<noteq> []) tiers \<Longrightarrow>
     select_tiers f tiers cursors s = scan_tiers f tiers cursors s"
  by (induction f tiers cursors s rule: select_tiers.induct)
    (auto split: prod.splits scan_outcome.splits)

lemma map_of_map_value: "map_of (map (\<lambda>(k, v). (k, f v)) m) = (\<lambda>k. map_option f (map_of m k))"
  by (induction m) auto

lemma candidate_scheduler_new_ok:
  assumes "snapshot_ok s"
  shows "scheduler_ok (candidate_scheduler_new s) \<and> scheduler_low (candidate_scheduler_new s)"
proof -
  let ?f = "\<lambda>r. case bm_get (rs_route_schedules s) (sr_id r) of None \<Rightarrow> []
    | Some schedule \<Rightarrow> replicate (length schedule) (0 :: 64 word)"
  have cursors: "cs_cursors (candidate_scheduler_new s) = map (\<lambda>(k, r). (k, ?f r)) (rs_routes s)"
    by (simp add: candidate_scheduler_new_def)
  have get: "bm_get (cs_cursors (candidate_scheduler_new s)) i = map_option ?f (bm_get (rs_routes s) i)" for i
    unfolding cursors map_of_map_value ..
  have routes: "routes_ok (rs_public_model_names_by_id s) (rs_routes s) (rs_route_schedules s)"
    using assms by (simp add: snapshot_ok_def)
  have "map_option length (bm_get (cs_cursors (candidate_scheduler_new s)) i) =
      map_option length (bm_get (rs_route_schedules s) i)" for i
  proof (cases "bm_get (rs_routes s) i")
    case None
    then have "i \<notin> dom (bm_get (rs_route_schedules s))" using routes by (auto simp: routes_ok_def)
    then show ?thesis using None get by (simp add: domIff)
  next
    case (Some r)
    from snapshot_route [OF assms this] obtain sched
      where "bm_get (rs_route_schedules s) i = Some sched" "sr_id r = i" .
    then show ?thesis using Some get by simp
  qed
  moreover have "bm_ok (cs_cursors (candidate_scheduler_new s))"
    using routes by (simp add: cursors routes_ok_def bm_ok_def o_def split_beta)
  moreover have "scheduler_low (candidate_scheduler_new s)"
    by (auto simp: scheduler_low_def cursors list_all_iff split: option.splits)
  ultimately show ?thesis using assms by (simp add: scheduler_ok_def candidate_scheduler_new_def)
qed

lemma tier_ok_set:
  assumes "tier_ok r t" "candidates_valid (sr_candidates r)"
  shows "set (st_slot_indexes t)
    = {i. i < length (sr_candidates r) \<and> rc_priority (sr_candidates r ! i) = st_priority t}"
proof -
  have "i \<in> set (st_slot_indexes t) \<longleftrightarrow>
      i < length (sr_candidates r) \<and> rc_priority (sr_candidates r ! i) = st_priority t" for i
  proof -
    have "i \<in> set (st_slot_indexes t) \<longleftrightarrow> count_list (st_slot_indexes t) i \<noteq> 0"
      by (simp add: count_list_0_iff)
    moreover have "0 < expected_count r i" if "i < length (sr_candidates r)"
      using that assms(2) by (simp add: expected_count_def route_weight_def candidates_valid_def list_all_length)
    ultimately show ?thesis using tier_okD(3) [OF assms(1), of i] by simp
  qed
  then show ?thesis by blast
qed

lemma candidate_cursors_fit:
  assumes "scheduler_low sch" "bm_get (cs_cursors sch) i = Some cursors"
  shows "\<forall>c \<in> set cursors. unat c + 1024 \<le> 2 ^ 64"
  using assms map_of_SomeD [OF assms(2)] by (force simp: scheduler_low_def list_all_iff)

lemma scheduler_cursors:
  assumes "scheduler_ok sch" "bm_get (rs_route_schedules (cs_snapshot sch)) i = Some tiers"
  shows "\<exists>cursors. bm_get (cs_cursors sch) i = Some cursors \<and> length cursors = length tiers"
proof -
  have "map_option length (bm_get (cs_cursors sch) i) = Some (length tiers)"
    using assms by (simp add: scheduler_ok_def)
  then show ?thesis by simp
qed

text \<open>What the outcome of a scan over a route's tiers says of the route's candidates.\<close>

lemma candidate_outcome:
  assumes sched: "schedule_ok route tiers"
    and slots: "\<And>t. t \<in> set tiers \<Longrightarrow> set (st_slot_indexes t)
      = {i. i < length (sr_candidates route) \<and> rc_priority (sr_candidates route ! i) = st_priority t}"
    and spec: "case o' of
        Found i \<Rightarrow> eligible (sr_candidates route ! i) \<and>
          (\<exists>m t0. cond (Suc m) t0 \<and> s1 = snd (candidate_body (sr_candidates route) is_eligible i t0)) \<and>
          in_first_tier (\<lambda>i. eligible (sr_candidates route ! i)) (map st_slot_indexes tiers) i
      | Exhausted \<Rightarrow> cond n s1 \<and> (\<forall>sl \<in> set (map st_slot_indexes tiers). \<forall>i \<in> set sl. \<not> eligible (sr_candidates route ! i))
      | Aborted \<Rightarrow> False"
  shows "case (case o' of Found i \<Rightarrow> Some (sr_candidates route ! i) | _ \<Rightarrow> None) of
      Some c \<Rightarrow> c \<in> set (sr_candidates route) \<and> eligible c \<and>
        (\<forall>d \<in> set (sr_candidates route). eligible d \<longrightarrow> rc_priority c \<le> rc_priority d) \<and>
        (\<exists>m s0. cond (Suc m) s0 \<and> s1 = snd (is_eligible c s0))
    | None \<Rightarrow> (\<forall>c \<in> set (sr_candidates route). \<not> eligible c) \<and> cond n s1"
proof -
  let ?cs = "sr_candidates route" and ?good = "\<lambda>i. eligible (sr_candidates route ! i)"
  let ?ts = "map (\<lambda>t. (st_priority t, st_slot_indexes t)) tiers"
  have prios: "sorted_wrt (<) (map fst ?ts)" using sched by (simp add: schedule_ok_def o_def)
  have tier_of: "\<exists>t \<in> set tiers. j \<in> set (st_slot_indexes t)" if "j < length ?cs" for j
  proof -
    have "rc_priority (?cs ! j) \<in> rc_priority ` set ?cs" using that by simp
    then have "rc_priority (?cs ! j) \<in> st_priority ` set tiers" using sched by (simp add: schedule_ok_def)
    with slots that show ?thesis by auto
  qed
  show ?thesis
  proof (cases o')
    case (Found i)
    then have i: "?good i" "in_first_tier ?good (map snd ?ts) i"
      "\<exists>m t0. cond (Suc m) t0 \<and> s1 = snd (candidate_body ?cs is_eligible i t0)" using spec by (simp_all add: o_def)
    have len: "i < length ?cs" using i(2) slots by (auto simp: in_first_tier_iff)
    have "rc_priority (?cs ! i) \<le> rc_priority (?cs ! j)" if j: "j < length ?cs" "?good j" for j
    proof -
      obtain t where t: "t \<in> set tiers" "j \<in> set (st_slot_indexes t)" using tier_of [OF j(1)] by blast
      show ?thesis
        by (rule in_first_tier_priority [OF prios _ i(2), of "\<lambda>i. rc_priority (?cs ! i)" "st_priority t" "st_slot_indexes t"])
          (use t slots j(2) in auto)
    qed
    then show ?thesis using i(1,3) len Found
      by (auto simp: in_set_conv_nth candidate_body_def split_beta Let_def)
  next
    case Exhausted
    then have none: "\<forall>t \<in> set tiers. \<forall>j \<in> set (st_slot_indexes t). \<not> ?good j" and "cond n s1"
      using spec by auto
    have "\<not> ?good j" if "j < length ?cs" for j using none tier_of [OF that] by blast
    then show ?thesis using Exhausted \<open>cond n s1\<close> by (auto simp: in_set_conv_nth)
  qed (use spec in simp)
qed

text \<open>
  The contract a caller's eligibility test must meet: while a condition on the caller's state holds
  it decides a fixed predicate of the candidate, and rejecting keeps the condition. The condition may
  depend on how many more slots the search may still try.
\<close>

definition route_slots :: "route_snapshot \<Rightarrow> string \<Rightarrow> nat" where
  "route_slots s route_id =
     (case bm_get (rs_route_schedules s) route_id of
        None \<Rightarrow> 0
      | Some tiers \<Rightarrow> sum_list (map (\<lambda>t. length (st_slot_indexes t)) tiers))"

locale candidate_eligibility =
  fixes is_eligible :: "snapshot_route_candidate \<Rightarrow> 's \<Rightarrow> bool \<times> 's"
    and cond :: "nat \<Rightarrow> 's \<Rightarrow> bool"
    and eligible :: "snapshot_route_candidate \<Rightarrow> bool"
  assumes decides: "cond (Suc n) s \<Longrightarrow> fst (is_eligible c s) = eligible c"
    and keeps: "cond (Suc n) s \<Longrightarrow> \<not> eligible c \<Longrightarrow> cond n (snd (is_eligible c s))"
begin

lemma candidate_scan_contract:
  "scan_body (candidate_body cands is_eligible) cond (\<lambda>i. eligible (cands ! i)) (\<lambda>i. i < length cands)"
  by unfold_locales (auto simp: candidate_body_def split_beta Let_def decides keeps)

lemma selection:
  assumes ok: "scheduler_ok sch" and low: "scheduler_low sch" and s: "cond (n + route_slots (cs_snapshot sch) route_id) s"
    and route: "bm_get (rs_routes (cs_snapshot sch)) route_id = Some route"
    and run: "select_eligible route_id is_eligible sch s = (r, sch', s')"
  shows "case r of
      Some c \<Rightarrow> c \<in> set (sr_candidates route) \<and> eligible c \<and>
        (\<forall>d \<in> set (sr_candidates route). eligible d \<longrightarrow> rc_priority c \<le> rc_priority d) \<and>
        (\<exists>m s0. cond (Suc m) s0 \<and> s' = snd (is_eligible c s0))
    | None \<Rightarrow> (\<forall>c \<in> set (sr_candidates route). \<not> eligible c) \<and> cond n s'"
proof -
  let ?cs = "sr_candidates route" and ?good = "\<lambda>i. eligible (sr_candidates route ! i)"
  have snap: "snapshot_ok (cs_snapshot sch)" using ok by (simp add: scheduler_ok_def)
  obtain tiers where tiers: "bm_get (rs_route_schedules (cs_snapshot sch)) route_id = Some tiers"
    "schedule_ok route tiers" using snapshot_route [OF snap route] by blast
  obtain cursors where cursors: "bm_get (cs_cursors sch) route_id = Some cursors" "length cursors = length tiers"
    using scheduler_cursors [OF ok tiers(1)] by blast
  have valid: "candidates_valid ?cs" and tier: "\<forall>t \<in> set tiers. tier_ok route t"
    using tiers(2) by (simp_all add: schedule_ok_def list_all_iff)
  have slots: "set (st_slot_indexes t) = {i. i < length ?cs \<and> rc_priority (?cs ! i) = st_priority t}"
    if "t \<in> set tiers" for t using tier_ok_set valid tier that by blast
  let ?ts = "map st_slot_indexes tiers"
  have ne: "\<forall>sl \<in> set ?ts. sl \<noteq> [] \<and> list_all (\<lambda>i. i < length ?cs) sl"
    using tier_okD(1) tier slots by (auto simp: list_all_iff)
  have fit: "\<forall>(sl, c) \<in> set (zip ?ts cursors). unat c + length sl \<le> 2 ^ 64"
  proof clarify
    fix sl c assume z: "(sl, c) \<in> set (zip ?ts cursors)"
    then have "sl \<in> set ?ts" by (rule set_zip_leftD)
    then obtain t where "t \<in> set tiers" "sl = st_slot_indexes t" by auto
    then have "length sl \<le> 1024" using tier_okD(2) tier by blast
    moreover have "unat c + 1024 \<le> 2 ^ 64"
      using candidate_cursors_fit [OF low cursors(1)] set_zip_rightD [OF z] by blast
    ultimately show "unat c + length sl \<le> 2 ^ 64" by linarith
  qed
  obtain o' cs1 s1 where scan: "scan_tiers (candidate_body ?cs is_eligible) ?ts cursors s = (o', cs1, s1)"
    by (metis prod_cases3)
  have "select_tiers (candidate_body ?cs is_eligible) ?ts cursors s = (o', cs1, s1)"
    using scan ne cursors(2) by (subst select_tiers_scan) (auto simp: list_all_iff)
  then have res: "s' = s1" "r = (case o' of Found i \<Rightarrow> Some (?cs ! i) | _ \<Rightarrow> None)"
    using run by (auto simp: select_eligible_def route tiers(1) cursors(1))
  have s': "cond (n + sum_list (map length ?ts)) s" using s by (simp add: route_slots_def tiers(1) o_def)
  have spec: "case o' of Found i \<Rightarrow> ?good i \<and> (\<exists>m t0. cond (Suc m) t0 \<and> s1 = snd (candidate_body ?cs is_eligible i t0))
        \<and> in_first_tier ?good ?ts i
      | Exhausted \<Rightarrow> cond n s1 \<and> (\<forall>sl \<in> set ?ts. \<forall>i \<in> set sl. \<not> ?good i) | Aborted \<Rightarrow> False"
    using scan_body.scan_tiers_spec [OF candidate_scan_contract s' _ ne fit] scan cursors(2)
    by (auto split: scan_outcome.splits)
  show ?thesis unfolding res by (rule candidate_outcome [OF tiers(2) slots spec])
qed

end

interpretation pure_candidate: candidate_eligibility "\<lambda>c s. (p c, s)" "\<lambda>_ _. True" p for p
  by unfold_locales simp_all

lemma select_tiers_length:
  "select_tiers f tiers cursors s = (r, cursors', s') \<Longrightarrow> length cursors' = length cursors"
  by (induction f tiers cursors s arbitrary: r cursors' s' rule: select_tiers.induct)
    (auto split: if_splits prod.splits scan_outcome.splits)

lemma select_eligible_keeps:
  assumes ok: "scheduler_ok sch" and run: "select_eligible route_id p sch s = (r, sch', s')"
  shows "scheduler_ok sch' \<and> cs_snapshot sch' = cs_snapshot sch"
proof (cases "\<exists>route tiers cursors. bm_get (rs_routes (cs_snapshot sch)) route_id = Some route \<and>
    bm_get (rs_route_schedules (cs_snapshot sch)) route_id = Some tiers \<and> bm_get (cs_cursors sch) route_id = Some cursors")
  case True
  then obtain route tiers cursors where g: "bm_get (rs_routes (cs_snapshot sch)) route_id = Some route"
    "bm_get (rs_route_schedules (cs_snapshot sch)) route_id = Some tiers" "bm_get (cs_cursors sch) route_id = Some cursors"
    by blast
  obtain o' cs1 s1 where t: "select_tiers (candidate_body (sr_candidates route) p) (map st_slot_indexes tiers) cursors s
      = (o', cs1, s1)" by (metis prod_cases3)
  have sch': "sch' = sch\<lparr>cs_cursors := bm_insert route_id cs1 (cs_cursors sch)\<rparr>"
    using run by (simp add: select_eligible_def g t)
  have "length cs1 = length cursors" using select_tiers_length [OF t] .
  then have "map_option length (bm_get (bm_insert route_id cs1 (cs_cursors sch)) i) =
      map_option length (bm_get (cs_cursors sch) i)" for i
    by (simp add: bm_get_insert g(3))
  then show ?thesis using ok by (simp add: sch' scheduler_ok_def)
next
  case False
  then have "sch' = sch" using run by (auto simp: select_eligible_def split: option.splits)
  with ok show ?thesis by simp
qed

lemma alias_resolves:
  assumes ok: "snapshot_ok s" and a: "bm_get (rs_aliases s) a = Some i"
  shows "\<exists>m. resolve_public_model s a = Some m \<and> pm_id m = i"
proof -
  have "aliases_ok (rs_public_models s) (rs_public_model_names_by_id s) (rs_aliases s)"
    and models: "models_ok (rs_public_models s) (rs_public_model_names_by_id s)"
    using ok unfolding snapshot_ok_def by blast+
  then obtain n where n: "bm_get (rs_public_model_names_by_id s) i = Some n" "bm_get (rs_public_models s) a = None"
    using a unfolding aliases_ok_def by blast
  then obtain m where "bm_get (rs_public_models s) n = Some m" "pm_id m = i"
    using models unfolding models_ok_def by blast
  with n a show ?thesis by (simp add: resolve_public_model_def)
qed

section \<open>Properties of the snapshot\<close>

text \<open>
  C19: Every snapshot that \<open>RouteSnapshot::try_new\<close> builds is referentially complete: each public
  model is stored under its own name, its id leads back to that name and its route exists and names
  the model; each route has candidates, a known model and a compiled schedule; candidate ids are
  unique across all routes; an alias never shadows a model name and always resolves; the routes of
  each access group exist; and each client key is stored under its own prefix, belongs to a published
  access group with exactly that group's routes, and shares its id with no other key.
\<close>

theorem snapshot_try_new_integrity:
  assumes "route_snapshot_try_new input = Inr s"
  shows "(\<forall>name m. bm_get (rs_public_models s) name = Some m \<longrightarrow>
      pm_model_name m = name \<and> bm_get (rs_public_model_names_by_id s) (pm_id m) = Some name \<and>
      (\<exists>r. bm_get (rs_routes s) (pm_route_id m) = Some r \<and> sr_public_model_id r = pm_id m)) \<and>
    (\<forall>i r. bm_get (rs_routes s) i = Some r \<longrightarrow>
      sr_id r = i \<and> sr_candidates r \<noteq> [] \<and> distinct (map rc_id (sr_candidates r)) \<and>
      bm_get (rs_public_model_names_by_id s) (sr_public_model_id r) \<noteq> None \<and>
      (\<exists>tiers. bm_get (rs_route_schedules s) i = Some tiers \<and> schedule_ok r tiers)) \<and>
    (\<forall>i j r q. bm_get (rs_routes s) i = Some r \<longrightarrow> bm_get (rs_routes s) j = Some q \<longrightarrow> i \<noteq> j \<longrightarrow>
      rc_id ` set (sr_candidates r) \<inter> rc_id ` set (sr_candidates q) = {}) \<and>
    (\<forall>a i. bm_get (rs_aliases s) a = Some i \<longrightarrow>
      bm_get (rs_public_models s) a = None \<and> (\<exists>m. resolve_public_model s a = Some m \<and> pm_id m = i)) \<and>
    (\<forall>i g. bm_get (rs_access_groups s) i = Some g \<longrightarrow>
      ag_id g = i \<and> ag_allowed_route_ids g \<subseteq> dom (bm_get (rs_routes s))) \<and>
    keys_ok (rs_access_groups s) (rs_client_keys s)"
proof (intro conjI allI impI)
  have ok: "snapshot_ok s" using assms by (rule try_new_ok)
  have models: "models_ok (rs_public_models s) (rs_public_model_names_by_id s)"
    and routes: "routes_ok (rs_public_model_names_by_id s) (rs_routes s) (rs_route_schedules s)"
    and unique: "candidate_ids_unique (rs_routes s)"
    and aliases: "aliases_ok (rs_public_models s) (rs_public_model_names_by_id s) (rs_aliases s)"
    and groups: "groups_ok (rs_routes s) (rs_access_groups s)"
    using ok unfolding snapshot_ok_def by blast+
  show "keys_ok (rs_access_groups s) (rs_client_keys s)" using ok unfolding snapshot_ok_def by blast
  show "pm_model_name m = name" "bm_get (rs_public_model_names_by_id s) (pm_id m) = Some name"
    if "bm_get (rs_public_models s) name = Some m" for name m
    using models that unfolding models_ok_def by blast+
  show "\<exists>r. bm_get (rs_routes s) (pm_route_id m) = Some r \<and> sr_public_model_id r = pm_id m"
    if "bm_get (rs_public_models s) name = Some m" for name m
    using ok that unfolding snapshot_ok_def by blast
  show "sr_id r = i" "sr_candidates r \<noteq> []" "bm_get (rs_public_model_names_by_id s) (sr_public_model_id r) \<noteq> None"
    if "bm_get (rs_routes s) i = Some r" for i r
    using routes that unfolding routes_ok_def by blast+
  show "distinct (map rc_id (sr_candidates r))" if "bm_get (rs_routes s) i = Some r" for i r
    using unique that unfolding candidate_ids_unique_def by blast
  show "\<exists>tiers. bm_get (rs_route_schedules s) i = Some tiers \<and> schedule_ok r tiers"
    if "bm_get (rs_routes s) i = Some r" for i r
    using snapshot_route [OF ok that] by blast
  show "rc_id ` set (sr_candidates r) \<inter> rc_id ` set (sr_candidates q) = {}"
    if "bm_get (rs_routes s) i = Some r" "bm_get (rs_routes s) j = Some q" "i \<noteq> j" for i j r q
    using unique that unfolding candidate_ids_unique_def by blast
  show "bm_get (rs_public_models s) a = None" if "bm_get (rs_aliases s) a = Some i" for a i
    using aliases that unfolding aliases_ok_def by blast
  show "\<exists>m. resolve_public_model s a = Some m \<and> pm_id m = i" if "bm_get (rs_aliases s) a = Some i" for a i
    by (rule alias_resolves [OF ok that])
  show "ag_id g = i" "ag_allowed_route_ids g \<subseteq> dom (bm_get (rs_routes s))"
    if "bm_get (rs_access_groups s) i = Some g" for i g
    using groups that unfolding groups_ok_def by blast+
qed

text \<open>
  C27: A compiled route schedule has one tier per candidate priority, in ascending order, and each
  tier holds exactly the candidates of its priority, in at most 1024 slots: as often as their weight
  under smooth weighted round robin, once each under the other policies. The slots are dealt in the
  order of the candidate ids, under the weighted policy as the smooth weighted rounds over unbounded
  integers deal them: the wrapping 64-bit arithmetic of the compilation agrees with the exact one.
\<close>

theorem route_schedule_exact:
  assumes "schedule_try_compile r = Inr tiers"
  shows "sorted_wrt (<) (map st_priority tiers) \<and>
    st_priority ` set tiers = rc_priority ` set (sr_candidates r) \<and>
    (\<forall>t \<in> set tiers. st_slot_indexes t \<noteq> [] \<and> length (st_slot_indexes t) \<le> 1024 \<and>
      (\<forall>i. count_list (st_slot_indexes t) i =
        (if i < length (sr_candidates r) \<and> rc_priority (sr_candidates r ! i) = st_priority t
         then if sr_policy r = SmoothWeightedRoundRobin then nat (rc_weight (sr_candidates r ! i)) else 1
         else 0)) \<and>
      st_slot_indexes t =
        (let by_id = sort_key (\<lambda>i. rc_id (sr_candidates r ! i)) (indexes_of (map rc_priority (sr_candidates r)) (st_priority t))
         in if sr_policy r = SmoothWeightedRoundRobin
            then map ((!) by_id) (swrr_picks (map (\<lambda>i. int (nat (rc_weight (sr_candidates r ! i)))) by_id)
              (\<Sum>i\<leftarrow>by_id. nat (rc_weight (sr_candidates r ! i))))
            else by_id))"
proof (intro conjI ballI allI)
  have tier: "tier_ok r t" if "t \<in> set tiers" for t
    using schedule_try_compile_ok [OF assms] that by (simp add: schedule_ok_def list_all_iff)
  show "sorted_wrt (<) (map st_priority tiers)" "st_priority ` set tiers = rc_priority ` set (sr_candidates r)"
    using schedule_try_compile_ok [OF assms] by (simp_all add: schedule_ok_def)
  fix t assume t: "t \<in> set tiers"
  note d = tier_okD [OF tier [OF t]]
  show "st_slot_indexes t \<noteq> []" "length (st_slot_indexes t) \<le> 1024" by (rule d)+
  show "count_list (st_slot_indexes t) i =
        (if i < length (sr_candidates r) \<and> rc_priority (sr_candidates r ! i) = st_priority t
         then if sr_policy r = SmoothWeightedRoundRobin then nat (rc_weight (sr_candidates r ! i)) else 1
         else 0)" for i
    using d(3) [of i] unfolding expected_count_def route_weight_def .
  show "st_slot_indexes t =
        (let by_id = sort_key (\<lambda>i. rc_id (sr_candidates r ! i)) (indexes_of (map rc_priority (sr_candidates r)) (st_priority t))
         in if sr_policy r = SmoothWeightedRoundRobin
            then map ((!) by_id) (swrr_picks (map (\<lambda>i. int (nat (rc_weight (sr_candidates r ! i)))) by_id)
              (\<Sum>i\<leftarrow>by_id. nat (rc_weight (sr_candidates r ! i))))
            else by_id)"
    using d(4) unfolding tier_order_def weighted_schedule_def .
qed

text \<open>
  C21: Candidate selection is complete and respects priorities: with a predicate that only looks at the
  candidate, and no cursor within 1024 of wrapping at \<open>2 ^ 64\<close>, the scheduler of a built snapshot returns a candidate of the
  route that satisfies it and has the lowest priority among all that do, and returns nothing exactly
  when no candidate of the route satisfies it.
\<close>

theorem candidate_selection_complete:
  assumes "scheduler_ok sch" "scheduler_low sch"
    "bm_get (rs_routes (cs_snapshot sch)) route_id = Some route"
    "select_eligible route_id (\<lambda>c s. (p c, s)) sch s = (r, sch', s')"
  shows "scheduler_ok sch' \<and> (case r of
      Some c \<Rightarrow> c \<in> set (sr_candidates route) \<and> p c \<and>
        (\<forall>d \<in> set (sr_candidates route). p d \<longrightarrow> rc_priority c \<le> rc_priority d)
    | None \<Rightarrow> \<forall>c \<in> set (sr_candidates route). \<not> p c)"
  using pure_candidate.selection [OF assms(1,2) _ assms(3,4)] select_eligible_keeps [OF assms(1,4)]
  by (auto split: option.splits)

text \<open>
  C28: What an access group sees is exactly what it can resolve: in a built snapshot a model is listed
  for a group exactly when resolving its own name for the group yields it; and a name resolves for a
  group only to a model that has the name or that the alias names, whose route the group permits
  and has a hard-eligible candidate.
\<close>

theorem access_group_sees_what_it_resolves:
  assumes "route_snapshot_try_new input = Inr s"
  shows "(m \<in> set (public_models_for_access_group s gid) \<longleftrightarrow>
      resolve_public_model_for_access_group s gid (pm_model_name m) = Some m) \<and>
    (resolve_public_model_for_access_group s gid name = Some m \<longleftrightarrow>
      m \<in> set (map snd (rs_public_models s)) \<and>
      (name = pm_model_name m \<or> bm_get (rs_aliases s) name = Some (pm_id m)) \<and>
      (\<exists>g r. bm_get (rs_access_groups s) gid = Some g \<and> pm_route_id m \<in> ag_allowed_route_ids g \<and>
         bm_get (rs_routes s) (pm_route_id m) = Some r \<and> list_ex rc_is_hard_eligible (sr_candidates r)))"
proof -
  have ok: "snapshot_ok s" using assms by (rule try_new_ok)
  have visible: "public_model_is_visible_to s g m \<longleftrightarrow> pm_route_id m \<in> ag_allowed_route_ids g \<and>
      (\<exists>r. bm_get (rs_routes s) (pm_route_id m) = Some r \<and> list_ex rc_is_hard_eligible (sr_candidates r))" for g
    by (auto simp: public_model_is_visible_to_def ag_permits_route_def has_hard_eligible_candidate_def
        split: option.splits)
  have res: "resolve_public_model_for_access_group s gid n = Some m \<longleftrightarrow>
      (\<exists>g. bm_get (rs_access_groups s) gid = Some g \<and> resolve_public_model s n = Some m
        \<and> public_model_is_visible_to s g m)" for n
    by (auto simp: resolve_public_model_for_access_group_def split: option.splits if_splits)
  have listed: "m \<in> set (public_models_for_access_group s gid) \<longleftrightarrow>
      m \<in> set (map snd (rs_public_models s)) \<and>
      (\<exists>g. bm_get (rs_access_groups s) gid = Some g \<and> public_model_is_visible_to s g m)"
    by (auto simp: public_models_for_access_group_def split: option.splits)
  show ?thesis unfolding res listed resolve_public_model_iff [OF ok] visible by blast
qed

text \<open>
  C30: Publishing and rolling back are inverse: a successful publication makes the given snapshot
  current and reports both versions, and a rollback right after it restores the snapshot that was
  current before. A refused publication (same version, poisoned lock) leaves the registry as it was.
  A rollback from any registry either swaps the current and the previous snapshot, whose versions differ,
  and reports both versions, or is refused for its exact reason (poisoned lock, nothing to roll back to,
  same version) and leaves the registry as it was.
\<close>

theorem registry_publish_then_rollback:
  "(case registry_publish next g of
     (Inr t, g') \<Rightarrow> sg_current g' = next \<and> rs_version next \<noteq> rs_version (sg_current g) \<and>
       t = \<lparr>tr_previous_version = rs_version (sg_current g), tr_current_version = rs_version next\<rparr> \<and>
       fst (registry_rollback g') = Inr \<lparr>tr_previous_version = rs_version next,
         tr_current_version = rs_version (sg_current g)\<rparr> \<and>
       sg_current (snd (registry_rollback g')) = sg_current g \<and>
       sg_previous (snd (registry_rollback g')) = Some next
   | (Inl e, g') \<Rightarrow> g' = g \<and> (e = PublicationLockPoisoned \<and> sg_poisoned g \<or>
       e = SameVersion \<and> \<not> sg_poisoned g \<and> rs_version next = rs_version (sg_current g))) \<and>
   (case registry_rollback g of
     (Inr t, g') \<Rightarrow> \<exists>p. sg_previous g = Some p \<and> rs_version p \<noteq> rs_version (sg_current g) \<and> \<not> sg_poisoned g \<and>
       g' = \<lparr>sg_current = p, sg_previous = Some (sg_current g), sg_poisoned = False\<rparr> \<and>
       t = \<lparr>tr_previous_version = rs_version (sg_current g), tr_current_version = rs_version p\<rparr>
   | (Inl e, g') \<Rightarrow> g' = g \<and>
       (if sg_poisoned g then e = PublicationLockPoisoned
        else case sg_previous g of
            None \<Rightarrow> e = NoRollbackAvailable
          | Some p \<Rightarrow> e = SameVersion \<and> rs_version p = rs_version (sg_current g)))"
  by (auto simp: registry_publish_def registry_rollback_def prepare_publication_def prepare_rollback_def
      publication_commit_def Let_def split: sum.splits option.splits if_splits prod.splits)

text \<open>
  C29: Pinned authentication accepts a presented key exactly when the clock can be read, the current
  snapshot holds a key record under the prefix of the presented key and that record verifies the
  presented key; the client is then bound to that very snapshot and to the record's access group, which
  a built snapshot always contains.
\<close>

theorem authenticate_pinned_exact:
  assumes "snapshot_ok (sg_current g)"
  shows "authenticate_pinned hmac pepper now g presented = Inr c \<longleftrightarrow>
    (\<exists>prefix k t. parse_presented_key_prefix presented = Inr prefix \<and> now = Some t \<and>
       bm_get (rs_client_keys (sg_current g)) prefix = Some k \<and>
       client_key_verify hmac pepper presented (kv_record k) t = Inr True \<and>
       sac_snapshot c = sg_current g \<and> sac_access_group_id c = ck_access_group_id (kv_record k) \<and>
       sac_authenticated_client c = \<lparr>ac_client_key_id = ck_client_key_id (kv_record k),
         ac_access_group_id = Some (ck_access_group_id (kv_record k))\<rparr> \<and>
       (\<exists>ag. bm_get (rs_access_groups (sg_current g)) (sac_access_group_id c) = Some ag \<and>
          kv_allowed_route_ids k = ag_allowed_route_ids ag))"
proof -
  have keys: "\<exists>ag. bm_get (rs_access_groups (sg_current g)) (ck_access_group_id (kv_record k)) = Some ag \<and>
      kv_allowed_route_ids k = ag_allowed_route_ids ag"
    if "bm_get (rs_client_keys (sg_current g)) prefix = Some k" for prefix k
    using assms that unfolding snapshot_ok_def keys_ok_def by blast
  show ?thesis
    using keys
    by (cases c) (auto simp: authenticate_pinned_def authenticate_snapshot_def Let_def
        split: sum.splits option.splits if_splits)
qed

text \<open>A small snapshot for the witnesses: one model with an alias, three candidates, a group and a key.\<close>

definition sample_presented :: string where
  "sample_presented = ''rgw_0123456789abcdef_'' @ replicate 64 CHR ''a''"

definition sample_candidate :: "string \<Rightarrow> i64 \<Rightarrow> i64 \<Rightarrow> snapshot_route_candidate" where
  "sample_candidate i p w =
     \<lparr>rc_id = i, rc_endpoint_id = ''ep'', rc_upstream_id = ''up'',
      rc_endpoint_api_format = ''openai_responses'', rc_upstream_model = ''m'',
      rc_transform_mode = Passthrough, rc_priority = p, rc_weight = w, rc_effective_capabilities = {},
      rc_catalog_admission = AllowedUnlisted, rc_active_binding_count = 1\<rparr>"

definition sample_route :: snapshot_route where
  "sample_route =
     \<lparr>sr_id = ''r'', sr_public_model_id = ''pm'', sr_policy = SmoothWeightedRoundRobin, sr_max_attempts = 2,
      sr_bootstrap_timeout_ms = 1000,
      sr_candidates = [sample_candidate ''a'' 0 2, sample_candidate ''b'' 0 1, sample_candidate ''c'' 1 1]\<rparr>"

definition sample_model :: snapshot_public_model where
  "sample_model =
     \<lparr>pm_id = ''pm'', pm_model_name = ''gpt'', pm_display_name = ''GPT'', pm_required_capabilities = {},
      pm_route_id = ''r''\<rparr>"

definition sample_group :: snapshot_access_group where
  "sample_group = \<lparr>ag_id = ''g'', ag_name = ''team'', ag_allowed_route_ids = {''r''}\<rparr>"

definition sample_key :: snapshot_client_key_view where
  "sample_key =
     \<lparr>kv_record = \<lparr>ck_client_key_id = ''k'', ck_access_group_id = ''g'', ck_prefix = ''rgw_0123456789abcdef'',
        ck_secret_digest = the (sample_hmac [1] sample_presented), ck_status = KeyActive,
        ck_expires_at_ms = Some 100\<rparr>,
      kv_allowed_route_ids = {''r''}\<rparr>"

definition sample_input :: route_snapshot_input where
  "sample_input =
     \<lparr>ri_version = ''v1'', ri_public_models = [sample_model], ri_aliases = [(''fast'', ''pm'')],
      ri_routes = [sample_route], ri_access_groups = [sample_group], ri_client_keys = [sample_key]\<rparr>"

definition sample_tiers :: snapshot_route_schedule where
  "sample_tiers = [\<lparr>st_priority = 0, st_slot_indexes = [0, 1, 0]\<rparr>, \<lparr>st_priority = 1, st_slot_indexes = [2]\<rparr>]"

definition sample_snapshot :: route_snapshot where
  "sample_snapshot =
     \<lparr>rs_version = ''v1'', rs_public_models = [(''gpt'', sample_model)],
      rs_public_model_names_by_id = [(''pm'', ''gpt'')], rs_aliases = [(''fast'', ''pm'')],
      rs_routes = [(''r'', sample_route)], rs_route_schedules = [(''r'', sample_tiers)],
      rs_access_groups = [(''g'', sample_group)], rs_client_keys = [(''rgw_0123456789abcdef'', sample_key)]\<rparr>"

lemma sample_schedule: "schedule_try_compile sample_route = Inr sample_tiers"
  by code_simp

lemma sample_route_facts:
  "sr_id sample_route = ''r''" "sr_public_model_id sample_route = ''pm''" "sr_candidates sample_route \<noteq> []"
  "insert_candidate_ids (sr_candidates sample_route) {} = Inr {''c'', ''b'', ''a''}"
  by (simp_all add: sample_route_def sample_candidate_def)

lemma sample_snapshot_built: "route_snapshot_try_new sample_input = Inr sample_snapshot"
  by (simp add: route_snapshot_try_new_def sample_input_def sample_snapshot_def sample_model_def
      sample_group_def sample_key_def sample_route_facts sample_schedule)

lemmas sample_snapshot_ok = try_new_ok [OF sample_snapshot_built]

theorem snapshot_try_new_integrity_witness:
  "bm_get (rs_aliases sample_snapshot) ''fast'' = Some ''pm'' \<and>
   (\<exists>m. resolve_public_model sample_snapshot ''fast'' = Some m \<and> pm_id m = ''pm'')"
proof -
  have "bm_get (rs_aliases sample_snapshot) ''fast'' = Some ''pm''" by (simp add: sample_snapshot_def)
  then show ?thesis using snapshot_try_new_integrity [OF sample_snapshot_built] by blast
qed

theorem route_schedule_exact_witness:
  "count_list (st_slot_indexes (hd sample_tiers)) 0 = 2 \<and> length (st_slot_indexes (hd sample_tiers)) = 3"
proof -
  have "\<lparr>st_priority = 0, st_slot_indexes = [0, 1, 0]\<rparr> \<in> set sample_tiers" by (simp add: sample_tiers_def)
  from route_schedule_exact [OF sample_schedule, THEN conjunct2, THEN conjunct2, THEN bspec, OF this]
  have "count_list [0, 1, 0] (0 :: nat) =
        (if 0 < length (sr_candidates sample_route) \<and> rc_priority (sr_candidates sample_route ! 0) = 0
         then if sr_policy sample_route = SmoothWeightedRoundRobin
           then nat (rc_weight (sr_candidates sample_route ! 0)) else 1
         else 0)"
    unfolding snapshot_priority_tier.simps by (elim conjE allE)
  then show ?thesis by (simp add: sample_tiers_def sample_route_def sample_candidate_def)
qed

theorem candidate_selection_complete_witness:
  "fst (select_eligible ''r'' (\<lambda>c s. (rc_id c \<noteq> ''a'', s)) (candidate_scheduler_new sample_snapshot) ())
     = Some (sample_candidate ''b'' 0 1)"
proof -
  let ?sch = "candidate_scheduler_new sample_snapshot"
  obtain r sch' s' where run: "select_eligible ''r'' (\<lambda>c s. (rc_id c \<noteq> ''a'', s)) ?sch () = (r, sch', s')"
    by (metis prod_cases3)
  have route: "bm_get (rs_routes (cs_snapshot ?sch)) ''r'' = Some sample_route"
    by (simp add: candidate_scheduler_new_def sample_snapshot_def)
  note ok = candidate_scheduler_new_ok [OF sample_snapshot_ok]
  from candidate_selection_complete [OF conjunct1 [OF ok] conjunct2 [OF ok] route run] run show ?thesis
    by (auto simp: sample_route_def sample_candidate_def split: option.splits)
qed

theorem access_group_sees_what_it_resolves_witness:
  "resolve_public_model_for_access_group sample_snapshot ''g'' ''fast'' = Some sample_model \<and>
   sample_model \<in> set (public_models_for_access_group sample_snapshot ''g'')"
proof -
  have "list_ex rc_is_hard_eligible (sr_candidates sample_route)"
    by (simp add: sample_route_def sample_candidate_def rc_is_hard_eligible_def)
  then show ?thesis
    unfolding access_group_sees_what_it_resolves [OF sample_snapshot_built, THEN conjunct1]
      access_group_sees_what_it_resolves [OF sample_snapshot_built, THEN conjunct2]
    by (simp add: sample_snapshot_def sample_model_def sample_group_def)
qed

theorem authenticate_pinned_exact_witness:
  "authenticate_pinned sample_hmac [1] (Some 99) (registry_new sample_snapshot) sample_presented =
     Inr \<lparr>sac_snapshot = sample_snapshot,
       sac_authenticated_client = \<lparr>ac_client_key_id = ''k'', ac_access_group_id = Some ''g''\<rparr>,
       sac_access_group_id = ''g''\<rparr>"
proof -
  have parse: "parse_presented_key_prefix sample_presented = Inr ''rgw_0123456789abcdef''" by code_simp
  have verify: "client_key_verify sample_hmac [1] sample_presented (kv_record sample_key) 99 = Inr True"
    using parse by (simp add: client_key_verify_def validate_now_def key_digest_def permits_at_def
        sample_key_def sample_hmac_def)
  have ok: "snapshot_ok (sg_current (registry_new sample_snapshot))"
    using sample_snapshot_ok by (simp add: registry_new_def)
  have get: "bm_get (rs_client_keys (sg_current (registry_new sample_snapshot))) ''rgw_0123456789abcdef'' = Some sample_key"
    "bm_get (rs_access_groups (sg_current (registry_new sample_snapshot))) ''g'' = Some sample_group"
    by (simp_all add: registry_new_def sample_snapshot_def)
  have key: "ck_client_key_id (kv_record sample_key) = ''k''" "ck_access_group_id (kv_record sample_key) = ''g''"
    "kv_allowed_route_ids sample_key = ag_allowed_route_ids sample_group"
    by (simp_all add: sample_key_def sample_group_def)
  show ?thesis unfolding authenticate_pinned_exact [OF ok]
    by (rule exI [of _ "''rgw_0123456789abcdef''"], rule exI [of _ sample_key], rule exI [of _ 99])
      (simp add: parse verify get key, simp add: registry_new_def)
qed

end
