(* ===== verification/Credential_Pool.thy ===== *)
theory Credential_Pool
  imports Cyclic_Schedule Gateway_Core
begin

text \<open>
  The per-endpoint credential pool with its concurrency leases
  (\<open>src/crates/gateway-upstream/src/credential_pool.rs\<close>). The pool's atomics are fields of the
  state that the operations return updated; the compare-and-exchange loop of \<open>try_acquire\<close> is
  also modelled step by step under arbitrary interleaving. A lease, in the source an
  \<open>Arc<CredentialSlot>\<close>, is the address of its slot: the endpoint and the index in the pool.
\<close>

section \<open>Data\<close>

datatype credential_pool_build_error =
    EmptyCredentialPool
  | EmptyCredentialSecret
  | EmptyCredentialKind
  | DuplicateCredential
  | InvalidCredentialRevision
  | InvalidCredentialPriority
  | InvalidCredentialWeight
  | InvalidCredentialConcurrency
  | InvalidCredentialExpiry
  | CredentialScheduleTooLarge
  | InconsistentCredentialPool
  | DuplicateEndpointPool

type_synonym credential_secret = string

definition credential_secret_try_new :: "string \<Rightarrow> credential_pool_build_error + credential_secret" where
  "credential_secret_try_new val = (if val = [] then Err EmptyCredentialSecret else Ok val)"

record endpoint_credential_input =
  in_credential_id :: string
  in_credential_kind :: string
  in_credential_revision :: i64
  in_priority :: i64
  in_weight :: i64
  in_concurrency :: i64
  in_expires_at_ms :: "i64 option"
  in_secret :: credential_secret

record credential_slot =
  credential_id :: string
  credential_kind :: string
  credential_revision :: u64
  cs_priority :: i64
  cs_weight :: usize
  maximum_concurrency :: usize
  expires_at_ms :: "i64 option"
  cs_secret :: credential_secret
  active_leases :: usize

record credential_priority_tier =
  tier_priority :: i64
  slot_indexes :: "usize list"

record endpoint_credential_pool =
  pool_endpoint_id :: string
  credentials :: "credential_slot list"
  priority_tiers :: "credential_priority_tier list"
  cursors :: "64 word list"

record credential_pool_entry_snapshot =
  es_credential_id :: string
  es_priority :: i64
  es_weight :: usize
  es_maximum_concurrency :: usize
  es_active_leases :: usize

definition is_saturated :: "credential_pool_entry_snapshot \<Rightarrow> bool" where
  "is_saturated e \<longleftrightarrow> es_maximum_concurrency e \<le> es_active_leases e"

section \<open>Construction\<close>

definition max_credential_schedule_slots :: usize where
  "max_credential_schedule_slots = 1024"

definition validate_entry :: "endpoint_credential_input \<Rightarrow> credential_pool_build_error + unit" where
  "validate_entry e =
     (if in_credential_kind e = [] then Err EmptyCredentialKind
      else if in_credential_revision e < 0 then Err InvalidCredentialRevision
      else if in_priority e < 0 then Err InvalidCredentialPriority
      else if in_weight e \<le> 0 then Err InvalidCredentialWeight
      else if in_concurrency e \<le> 0 then Err InvalidCredentialConcurrency
      else if (case in_expires_at_ms e of None \<Rightarrow> False | Some x \<Rightarrow> x < 0) then Err InvalidCredentialExpiry
      else Ok ())"

text \<open>The slot that the loop body of \<open>try_new\<close> pushes, with its three integer conversions.\<close>

definition slot_of_input :: "endpoint_credential_input \<Rightarrow> credential_pool_build_error + credential_slot" where
  "slot_of_input e =
     (case unsigned_of_i64 (in_credential_revision e) of
        None \<Rightarrow> Err InvalidCredentialRevision
      | Some revision \<Rightarrow>
     (case unsigned_of_i64 (in_weight e) of
        None \<Rightarrow> Err InvalidCredentialWeight
      | Some weight \<Rightarrow>
     (case unsigned_of_i64 (in_concurrency e) of
        None \<Rightarrow> Err InvalidCredentialConcurrency
      | Some concurrency \<Rightarrow>
          Ok \<lparr>credential_id = in_credential_id e, credential_kind = in_credential_kind e,
              credential_revision = revision, cs_priority = in_priority e, cs_weight = weight,
              maximum_concurrency = concurrency, expires_at_ms = in_expires_at_ms e,
              cs_secret = in_secret e, active_leases = 0\<rparr>)))"

text \<open>The loop over the sorted entries: slots so far, indexes by priority, previous identity.\<close>

fun build_slots ::
  "endpoint_credential_input list \<Rightarrow> string option \<Rightarrow> credential_slot list \<Rightarrow> (i64, usize list) bmap \<Rightarrow>
     credential_pool_build_error + (credential_slot list \<times> (i64, usize list) bmap)" where
  "build_slots [] previous slots by_priority = Ok (slots, by_priority)"
| "build_slots (e # es) previous slots by_priority =
     (case validate_entry e of
        Inl err \<Rightarrow> Err err
      | Inr _ \<Rightarrow>
          if previous = Some (in_credential_id e) then Err DuplicateCredential
          else (case slot_of_input e of
                  Inl err \<Rightarrow> Err err
                | Inr slot \<Rightarrow>
                    build_slots es (Some (in_credential_id e)) (slots @ [slot])
                      (push_index (in_priority e) (length slots) by_priority)))"

text \<open>The first loop of \<open>smooth_weighted_slots\<close>: total and weights.\<close>

fun collect_weights ::
  "credential_slot list \<Rightarrow> usize list \<Rightarrow> usize \<Rightarrow> i64 list \<Rightarrow>
     credential_pool_build_error + (usize \<times> i64 list)" where
  "collect_weights creds [] total_slots weights = Ok (total_slots, weights)"
| "collect_weights creds (i # is) total_slots weights =
     (if length creds \<le> i then Err InconsistentCredentialPool
      else (case checked_add_u64 total_slots (cs_weight (creds ! i)) of
              None \<Rightarrow> Err CredentialScheduleTooLarge
            | Some total' \<Rightarrow>
                if max_credential_schedule_slots < total' then Err CredentialScheduleTooLarge
                else (case i64_of_unsigned (cs_weight (creds ! i)) of
                        None \<Rightarrow> Err CredentialScheduleTooLarge
                      | Some w \<Rightarrow> collect_weights creds is total' (weights @ [w]))))"

definition smooth_weighted_slots ::
  "credential_slot list \<Rightarrow> usize list \<Rightarrow> credential_pool_build_error + usize list" where
  "smooth_weighted_slots creds is =
     (case collect_weights creds is 0 [] of
        Inl err \<Rightarrow> Err err
      | Inr (total_slots, weights) \<Rightarrow>
          (case i64_of_unsigned total_slots of
             None \<Rightarrow> Err CredentialScheduleTooLarge
           | Some total_weight \<Rightarrow>
               ok_or CredentialScheduleTooLarge
                 (weighted_rounds checked_add_i64 checked_sub_i64 weights total_weight is total_slots
                    (replicate (length weights) 0))))"

fun build_tiers ::
  "credential_slot list \<Rightarrow> (i64, usize list) bmap \<Rightarrow>
     credential_pool_build_error + credential_priority_tier list" where
  "build_tiers creds [] = Ok []"
| "build_tiers creds ((p, is) # m) =
     (case smooth_weighted_slots creds is of
        Inl err \<Rightarrow> Err err
      | Inr slots \<Rightarrow>
          (case build_tiers creds m of
             Inl err \<Rightarrow> Err err
           | Inr tiers \<Rightarrow> Ok (\<lparr>tier_priority = p, slot_indexes = slots\<rparr> # tiers)))"

definition pool_try_new ::
  "string \<Rightarrow> endpoint_credential_input list \<Rightarrow> credential_pool_build_error + endpoint_credential_pool" where
  "pool_try_new endpoint entries =
     (if entries = [] then Err EmptyCredentialPool
      else (case build_slots (sort_key in_credential_id entries) None [] [] of
              Inl err \<Rightarrow> Err err
            | Inr (slots, by_priority) \<Rightarrow>
                (case build_tiers slots by_priority of
                   Inl err \<Rightarrow> Err err
                 | Inr tiers \<Rightarrow>
                     Ok \<lparr>pool_endpoint_id = endpoint, credentials = slots, priority_tiers = tiers,
                         cursors = replicate (length tiers) 0\<rparr>)))"

section \<open>Leases\<close>

text \<open>
  \<open>CredentialSlot::try_acquire\<close> and \<open>release\<close> as one uninterrupted call. The subtraction of
  \<open>fetch_sub\<close> wraps at zero.
\<close>

definition has_capacity :: "credential_slot \<Rightarrow> bool" where
  "has_capacity c \<longleftrightarrow> active_leases c < maximum_concurrency c"

definition try_acquire :: "credential_slot \<Rightarrow> bool \<times> credential_slot" where
  "try_acquire c =
     (if maximum_concurrency c \<le> active_leases c then (False, c)
      else (True, c\<lparr>active_leases := active_leases c + 1\<rparr>))"

definition slot_release :: "credential_slot \<Rightarrow> credential_slot" where
  "slot_release c =
     c\<lparr>active_leases := (if active_leases c = 0 then 2 ^ 64 - 1 else active_leases c - 1)\<rparr>"

record credential_lease =
  lease_endpoint :: string
  lease_index :: usize

text \<open>The body of the scan: eligibility first (it may change the caller's state), then capacity.\<close>

definition lease_body ::
  "(credential_slot \<Rightarrow> 's \<Rightarrow> bool \<times> 's) \<Rightarrow> usize \<Rightarrow> credential_slot list \<times> 's \<Rightarrow>
     scan_step \<times> credential_slot list \<times> 's" where
  "lease_body is_eligible i t =
     (let (creds, s) = t in
      if length creds \<le> i then (Abort, creds, s)
      else (let (eligible, s') = is_eligible (creds ! i) s in
            if \<not> eligible then (Skip, creds, s')
            else (let (acquired, c) = try_acquire (creds ! i) in
                  if acquired then (Accept, creds[i := c], s') else (Skip, creds, s'))))"

definition try_lease_slots ::
  "(credential_slot \<Rightarrow> 's \<Rightarrow> bool \<times> 's) \<Rightarrow> endpoint_credential_pool \<Rightarrow> 's \<Rightarrow>
     credential_lease option \<times> endpoint_credential_pool \<times> 's" where
  "try_lease_slots is_eligible pool s =
     (let (r, cs, creds, s') =
            scan_tiers (lease_body is_eligible) (map slot_indexes (priority_tiers pool)) (cursors pool)
              (credentials pool, s)
      in (case r of
            Found i \<Rightarrow> Some \<lparr>lease_endpoint = pool_endpoint_id pool, lease_index = i\<rparr>
          | _ \<Rightarrow> None,
          pool\<lparr>credentials := creds, cursors := cs\<rparr>, s'))"

definition try_lease_eligible ::
  "(string \<Rightarrow> 's \<Rightarrow> bool \<times> 's) \<Rightarrow> endpoint_credential_pool \<Rightarrow> 's \<Rightarrow>
     credential_lease option \<times> endpoint_credential_pool \<times> 's" where
  "try_lease_eligible is_eligible = try_lease_slots (\<lambda>c. is_eligible (credential_id c))"

definition pool_try_lease ::
  "endpoint_credential_pool \<Rightarrow> credential_lease option \<times> endpoint_credential_pool" where
  "pool_try_lease pool =
     (let (l, pool', _) = try_lease_eligible (\<lambda>_ s. (True, s)) pool () in (l, pool'))"

definition unexpired :: "i64 \<Rightarrow> credential_slot \<Rightarrow> bool" where
  "unexpired now c \<longleftrightarrow> (case expires_at_ms c of None \<Rightarrow> True | Some x \<Rightarrow> now < x)"

definition try_lease_eligible_at ::
  "i64 \<Rightarrow> (string \<Rightarrow> 's \<Rightarrow> bool \<times> 's) \<Rightarrow> endpoint_credential_pool \<Rightarrow> 's \<Rightarrow>
     credential_lease option \<times> endpoint_credential_pool \<times> 's" where
  "try_lease_eligible_at now is_eligible =
     try_lease_slots (\<lambda>c s. if unexpired now c then is_eligible (credential_id c) s else (False, s))"

text \<open>Dropping a lease releases its slot.\<close>

definition lease_drop :: "credential_lease \<Rightarrow> endpoint_credential_pool \<Rightarrow> endpoint_credential_pool" where
  "lease_drop l pool =
     pool\<lparr>credentials := (credentials pool)[lease_index l := slot_release (credentials pool ! lease_index l)]\<rparr>"

section \<open>Diagnostics\<close>

definition slot_snapshot :: "credential_slot \<Rightarrow> credential_pool_entry_snapshot" where
  "slot_snapshot c =
     \<lparr>es_credential_id = credential_id c, es_priority = cs_priority c, es_weight = cs_weight c,
      es_maximum_concurrency = maximum_concurrency c, es_active_leases = active_leases c\<rparr>"

definition active_lease_count :: "endpoint_credential_pool \<Rightarrow> string \<Rightarrow> usize option" where
  "active_lease_count pool c =
     map_option active_leases (find (\<lambda>s. credential_id s = c) (credentials pool))"

definition diagnostic_entries :: "endpoint_credential_pool \<Rightarrow> credential_pool_entry_snapshot list" where
  "diagnostic_entries pool = map slot_snapshot (credentials pool)"

text \<open>The peek reads capacity after eligibility and keeps the pool as it is.\<close>

definition peek_body ::
  "credential_slot list \<Rightarrow> (string \<Rightarrow> 's \<Rightarrow> bool \<times> 's) \<Rightarrow> usize \<Rightarrow> 's \<Rightarrow> scan_step \<times> 's" where
  "peek_body creds is_eligible i s =
     (if length creds \<le> i then (Abort, s)
      else (let (eligible, s') = is_eligible (credential_id (creds ! i)) s
            in (if eligible \<and> has_capacity (creds ! i) then Accept else Skip, s')))"

fun peek_tiers ::
  "(usize \<Rightarrow> 's \<Rightarrow> scan_step \<times> 's) \<Rightarrow> usize list list \<Rightarrow> 64 word \<Rightarrow> 's \<Rightarrow> scan_outcome \<times> 's" where
  "peek_tiers f [] start s = (Exhausted, s)"
| "peek_tiers f (slots # tiers) start s =
     (case scan_slots f slots start s of
        (Exhausted, s') \<Rightarrow> peek_tiers f tiers start s'
      | (r, s') \<Rightarrow> (r, s'))"

definition peek_eligible_from ::
  "endpoint_credential_pool \<Rightarrow> 64 word \<Rightarrow> (string \<Rightarrow> 's \<Rightarrow> bool \<times> 's) \<Rightarrow> 's \<Rightarrow>
     credential_pool_entry_snapshot option \<times> 's" where
  "peek_eligible_from pool start is_eligible s =
     (let (r, s') = peek_tiers (peek_body (credentials pool) is_eligible)
                      (map slot_indexes (priority_tiers pool)) start s
      in (case r of Found i \<Rightarrow> Some (slot_snapshot (credentials pool ! i)) | _ \<Rightarrow> None, s'))"

section \<open>The set of pools\<close>

type_synonym endpoint_credential_pools = "(string, endpoint_credential_pool) bmap"

fun pools_insert_all ::
  "(string \<times> endpoint_credential_pool) list \<Rightarrow> endpoint_credential_pools \<Rightarrow>
     credential_pool_build_error + endpoint_credential_pools" where
  "pools_insert_all [] pools = Ok pools"
| "pools_insert_all ((endpoint, pool) # ps) pools =
     (if bm_get pools endpoint \<noteq> None then Err DuplicateEndpointPool
      else pools_insert_all ps (bm_insert endpoint pool pools))"

definition pools_try_new ::
  "endpoint_credential_pool list \<Rightarrow> credential_pool_build_error + endpoint_credential_pools" where
  "pools_try_new ps = pools_insert_all (map (\<lambda>p. (pool_endpoint_id p, p)) ps) []"

definition pools_merge ::
  "endpoint_credential_pools \<Rightarrow> endpoint_credential_pools \<Rightarrow>
     credential_pool_build_error + endpoint_credential_pools" where
  "pools_merge self other = pools_insert_all other self"

definition pools_try_lease_eligible_at ::
  "string \<Rightarrow> i64 \<Rightarrow> (string \<Rightarrow> 's \<Rightarrow> bool \<times> 's) \<Rightarrow> endpoint_credential_pools \<Rightarrow> 's \<Rightarrow>
     credential_lease option \<times> endpoint_credential_pools \<times> 's" where
  "pools_try_lease_eligible_at endpoint now is_eligible pools s =
     (case bm_get pools endpoint of
        None \<Rightarrow> (None, pools, s)
      | Some pool \<Rightarrow>
          (let (l, pool', s') = try_lease_eligible_at now is_eligible pool s
           in (l, bm_insert endpoint pool' pools, s')))"

definition pools_try_lease_eligible ::
  "string \<Rightarrow> (string \<Rightarrow> 's \<Rightarrow> bool \<times> 's) \<Rightarrow> endpoint_credential_pools \<Rightarrow> 's \<Rightarrow>
     credential_lease option \<times> endpoint_credential_pools \<times> 's" where
  "pools_try_lease_eligible endpoint is_eligible pools s =
     (case bm_get pools endpoint of
        None \<Rightarrow> (None, pools, s)
      | Some pool \<Rightarrow>
          (let (l, pool', s') = try_lease_eligible is_eligible pool s
           in (l, bm_insert endpoint pool' pools, s')))"

definition pools_try_lease ::
  "string \<Rightarrow> endpoint_credential_pools \<Rightarrow> credential_lease option \<times> endpoint_credential_pools" where
  "pools_try_lease endpoint pools =
     (let (l, pools', _) = pools_try_lease_eligible endpoint (\<lambda>_ s. (True, s)) pools () in (l, pools'))"

definition pools_release :: "credential_lease \<Rightarrow> endpoint_credential_pools \<Rightarrow> endpoint_credential_pools" where
  "pools_release l pools =
     (case bm_get pools (lease_endpoint l) of
        None \<Rightarrow> pools
      | Some pool \<Rightarrow> bm_insert (lease_endpoint l) (lease_drop l pool) pools)"

section \<open>What construction accepts and builds\<close>

definition entry_valid :: "endpoint_credential_input \<Rightarrow> bool" where
  "entry_valid e \<longleftrightarrow> validate_entry e = Inr ()"

definition slot_of :: "endpoint_credential_input \<Rightarrow> credential_slot" where
  "slot_of e = projr (slot_of_input e)"

lemma entry_valid_iff:
  "entry_valid e \<longleftrightarrow> in_credential_kind e \<noteq> [] \<and> 0 \<le> in_credential_revision e \<and> 0 \<le> in_priority e \<and>
     0 < in_weight e \<and> 0 < in_concurrency e \<and> (\<forall>x. in_expires_at_ms e = Some x \<longrightarrow> 0 \<le> x)"
  by (auto simp: entry_valid_def validate_entry_def not_less not_le split: option.splits)

lemma slot_of_input_valid:
  assumes "entry_valid e"
  shows "slot_of_input e = Inr (slot_of e)" and "credential_id (slot_of e) = in_credential_id e"
    and "cs_priority (slot_of e) = in_priority e" and "int (cs_weight (slot_of e)) = in_weight e"
    and "int (maximum_concurrency (slot_of e)) = in_concurrency e" and "active_leases (slot_of e) = 0"
    and "0 < cs_weight (slot_of e)" and "0 < maximum_concurrency (slot_of e)"
  using assms by (simp_all add: entry_valid_iff slot_of_def slot_of_input_def unsigned_of_i64_def)

definition prefix_id :: "string option \<Rightarrow> string list" where
  "prefix_id p = (case p of None \<Rightarrow> [] | Some x \<Rightarrow> [x])"

lemma build_slots_iff:
  "build_slots es prev slots m = Inr (slots', m') \<longleftrightarrow>
     list_all entry_valid es \<and> distinct_adj (prefix_id prev @ map in_credential_id es) \<and>
     slots' = slots @ map slot_of es \<and>
     m' = snd (fold (\<lambda>e (n, m). (Suc n, push_index (in_priority e) n m)) es (length slots, m))"
proof (induction es arbitrary: prev slots m)
  case Nil
  then show ?case by (cases prev) (auto simp: prefix_id_def)
next
  case (Cons e es)
  have valid: "validate_entry e = Inr x \<longleftrightarrow> entry_valid e" for x by (simp add: entry_valid_def)
  show ?case
  proof (cases "entry_valid e \<and> prev \<noteq> Some (in_credential_id e)")
    case True
    then have "validate_entry e = Inr ()" "slot_of_input e = Inr (slot_of e)"
      by (simp_all add: entry_valid_def slot_of_input_valid)
    with True show ?thesis
      by (cases prev) (auto simp: Cons.IH prefix_id_def)
  next
    case False
    then show ?thesis
      by (cases prev) (auto simp: prefix_id_def valid split: sum.splits)
  qed
qed

lemma fold_push_grouped:
  "grouped ps m \<Longrightarrow>
     grouped (ps @ map in_priority es)
       (snd (fold (\<lambda>e (n, m). (Suc n, push_index (in_priority e) n m)) es (length ps, m)))"
proof (induction es arbitrary: ps m)
  case (Cons e es)
  from Cons.IH [OF grouped_push [OF Cons.prems, of "in_priority e"]] show ?case by simp
qed simp

lemma sorted_distinct_adj: "sorted (xs :: 'a::linorder list) \<Longrightarrow> distinct_adj xs \<longleftrightarrow> distinct xs"
proof (induction xs rule: induct_list012)
  case (3 x y zs)
  then show ?case by (auto simp: order_le_less)
qed auto

lemma collect_weights_iff:
  "collect_weights creds is total_slots ws = Inr (t, ws') \<longleftrightarrow>
     (\<forall>i \<in> set is. i < length creds) \<and> t = total_slots + (\<Sum>i\<leftarrow>is. cs_weight (creds ! i)) \<and>
     ws' = ws @ map (\<lambda>i. int (cs_weight (creds ! i))) is \<and>
     (is \<noteq> [] \<longrightarrow> t \<le> max_credential_schedule_slots)"
proof (induction "is" arbitrary: total_slots ws)
  case (Cons i "is")
  show ?case
  proof (cases "i < length creds \<and> total_slots + cs_weight (creds ! i) \<le> max_credential_schedule_slots")
    case True
    then have "total_slots + cs_weight (creds ! i) < 2 ^ 64" "cs_weight (creds ! i) < 2 ^ 63"
      by (simp_all add: max_credential_schedule_slots_def)
    with True Cons.IH show ?thesis
      by (auto simp: checked_add_u64_def i64_of_unsigned_def)
  next
    case False
    then show ?thesis by (auto simp: checked_add_u64_def not_le)
  qed
qed auto

definition tier_indexes :: "credential_slot list \<Rightarrow> i64 \<Rightarrow> usize list" where
  "tier_indexes creds p = indexes_of (map cs_priority creds) p"

definition tier_total :: "credential_slot list \<Rightarrow> i64 \<Rightarrow> nat" where
  "tier_total creds p = (\<Sum>i\<leftarrow>tier_indexes creds p. cs_weight (creds ! i))"

lemma tier_indexes_set:
  "set (tier_indexes creds p) = {i. i < length creds \<and> cs_priority (creds ! i) = p}"
  by (auto simp: tier_indexes_def indexes_of_set)

lemma tier_indexes_distinct: "distinct (tier_indexes creds p)"
  by (simp add: tier_indexes_def indexes_of_distinct)

lemma smooth_weighted_slots_iff:
  assumes pos: "\<forall>i \<in> set is. i < length creds \<and> 0 < cs_weight (creds ! i)" and ne: "is \<noteq> []"
  shows "smooth_weighted_slots creds is = Inr slots \<longleftrightarrow>
     (\<Sum>i\<leftarrow>is. cs_weight (creds ! i)) \<le> max_credential_schedule_slots \<and>
     slots = weighted_schedule (\<lambda>i. cs_weight (creds ! i)) is"
proof (cases "(\<Sum>i\<leftarrow>is. cs_weight (creds ! i)) \<le> max_credential_schedule_slots")
  case True
  let ?w = "\<lambda>i. cs_weight (creds ! i)" and ?t = "\<Sum>i\<leftarrow>is. cs_weight (creds ! i)"
  have collect: "collect_weights creds is 0 [] = Inr (?t, map (\<lambda>i. int (?w i)) is)"
    using True pos by (simp add: collect_weights_iff)
  have "?t < 2 ^ 63" using True by (simp add: max_credential_schedule_slots_def)
  moreover have "weighted_rounds checked_add_i64 checked_sub_i64 (map (\<lambda>i. int (?w i)) is) (int ?t) is ?t
      (replicate (length is) 0) = Some (weighted_schedule ?w is)"
    using True pos ne
    by (intro weighted_rounds_eq exact_i64) (simp_all add: max_credential_schedule_slots_def)
  ultimately show ?thesis using True collect
    by (auto simp: smooth_weighted_slots_def i64_of_unsigned_def)
next
  case False
  then have "collect_weights creds is 0 [] \<noteq> Inr (t, ws)" for t ws
    using ne by (auto simp: collect_weights_iff)
  then show ?thesis using False by (auto simp: smooth_weighted_slots_def split: sum.splits)
qed

definition tier_of :: "credential_slot list \<Rightarrow> i64 \<Rightarrow> credential_priority_tier" where
  "tier_of creds p =
     \<lparr>tier_priority = p,
      slot_indexes = weighted_schedule (\<lambda>i. cs_weight (creds ! i)) (tier_indexes creds p)\<rparr>"

lemma build_tiers_iff:
  assumes "list_all (\<lambda>c. 0 < cs_weight c) creds"
    and "\<forall>(p, is) \<in> set m. is = tier_indexes creds p \<and> is \<noteq> []"
  shows "build_tiers creds m = Inr tiers \<longleftrightarrow>
     (\<forall>p \<in> fst ` set m. tier_total creds p \<le> max_credential_schedule_slots) \<and>
     tiers = map (\<lambda>e. tier_of creds (fst e)) m"
  using assms(2)
proof (induction m arbitrary: tiers)
  case (Cons e m)
  obtain p "is" where e: "e = (p, is)" by fastforce
  have ix: "is = tier_indexes creds p" "is \<noteq> []" using Cons.prems e by auto
  have pos: "\<forall>i \<in> set is. i < length creds \<and> 0 < cs_weight (creds ! i)"
    using assms(1) by (auto simp: ix(1) tier_indexes_set list_all_length)
  have IH: "build_tiers creds m = Inr ts \<longleftrightarrow>
     (\<forall>p \<in> fst ` set m. tier_total creds p \<le> max_credential_schedule_slots) \<and>
     ts = map (\<lambda>e. tier_of creds (fst e)) m" for ts
    using Cons.IH Cons.prems by simp
  note slots = smooth_weighted_slots_iff [OF pos ix(2)]
  show ?case
  proof (cases "smooth_weighted_slots creds is")
    case (Inl err)
    then show ?thesis using slots by (auto simp: e ix(1) tier_total_def)
  next
    case (Inr sl)
    then have "tier_total creds p \<le> max_credential_schedule_slots"
      "tier_of creds p = \<lparr>tier_priority = p, slot_indexes = sl\<rparr>"
      using slots [of sl] by (simp_all add: ix(1) tier_total_def tier_of_def)
    then show ?thesis using Inr IH
      by (cases "build_tiers creds m") (auto simp: e)
  qed
qed auto


lemma tier_total_filter:
  "tier_total creds p = sum_list (map cs_weight (filter (\<lambda>c. cs_priority c = p) creds))"
  by (simp add: tier_total_def tier_indexes_def flip: map_nth_indexes_of [of creds cs_priority p])
    (simp add: comp_def)

definition entry_total :: "endpoint_credential_input list \<Rightarrow> i64 \<Rightarrow> int" where
  "entry_total es p = sum_list (map in_weight (filter (\<lambda>e. in_priority e = p) es))"

lemma entry_total_sort: "distinct es \<Longrightarrow> entry_total (sort_key f es) p = entry_total es p"
  by (simp add: entry_total_def sum_list_distinct_conv_sum_set)

lemma tier_total_entries:
  "list_all entry_valid es \<Longrightarrow> int (tier_total (map slot_of es) p) = entry_total es p"
  by (induction es) (auto simp: tier_total_filter entry_total_def slot_of_input_valid)

lemma tier_total_none: "p \<notin> cs_priority ` set creds \<Longrightarrow> tier_total creds p = 0"
  by (auto simp: tier_total_filter filter_empty_conv)

text \<open>The pool that a valid configuration gives.\<close>

definition config_valid :: "endpoint_credential_input list \<Rightarrow> bool" where
  "config_valid es \<longleftrightarrow> es \<noteq> [] \<and> list_all entry_valid es \<and> distinct (map in_credential_id es) \<and>
     (\<forall>p \<in> in_priority ` set es. entry_total es p \<le> 1024)"

definition built_pool :: "string \<Rightarrow> endpoint_credential_input list \<Rightarrow> endpoint_credential_pool" where
  "built_pool endpoint es =
     (let creds = map slot_of (sort_key in_credential_id es);
          priorities = sorted_list_of_set (in_priority ` set es)
      in \<lparr>pool_endpoint_id = endpoint, credentials = creds,
          priority_tiers = map (tier_of creds) priorities, cursors = replicate (length priorities) 0\<rparr>)"

lemma sorted_entries_built:
  assumes "list_all entry_valid es" "distinct (map in_credential_id es)"
  defines "creds \<equiv> map slot_of (sort_key in_credential_id es)"
  obtains m where "build_slots (sort_key in_credential_id es) None [] [] = Inr (creds, m)"
    and "grouped (map cs_priority creds) m"
    and "map fst m = sorted_list_of_set (in_priority ` set es)"
proof -
  let ?es = "sort_key in_credential_id es"
  let ?m = "snd (fold (\<lambda>e (n, m). (Suc n, push_index (in_priority e) n m)) ?es (0, []))"
  have valid: "list_all entry_valid ?es" using assms by (simp add: list_all_iff)
  have "distinct_adj (map in_credential_id ?es)"
    using assms by (simp add: sorted_distinct_adj distinct_map)
  with valid have slots: "build_slots ?es None [] [] = Inr (creds, ?m)"
    by (simp add: build_slots_iff prefix_id_def creds_def)
  have prio: "map cs_priority creds = map in_priority ?es"
    using valid by (auto simp: list_all_iff slot_of_input_valid creds_def)
  have grp: "grouped (map cs_priority creds) ?m"
    using fold_push_grouped [OF grouped_Nil, of ?es] unfolding prio by simp
  have "set (map fst ?m) = in_priority ` set es"
    using grouped_keys [OF grp] unfolding prio by simp
  then have "map fst ?m = sorted_list_of_set (in_priority ` set es)"
    using grouped_sorted [OF grp] by (intro strict_sorted_equal) simp_all
  with that slots grp show ?thesis by blast
qed

lemma built_tiers_iff:
  assumes valid: "list_all entry_valid es" and dist: "distinct (map in_credential_id es)" and ne: "es \<noteq> []"
  defines "creds \<equiv> map slot_of (sort_key in_credential_id es)"
  assumes grp: "grouped (map cs_priority creds) m"
    and keys: "map fst m = sorted_list_of_set (in_priority ` set es)"
  shows "build_tiers creds m = Inr ts \<longleftrightarrow>
    config_valid es \<and> ts = map (tier_of creds) (sorted_list_of_set (in_priority ` set es))"
proof -
  have w: "list_all (\<lambda>c. 0 < cs_weight c) creds"
    using valid by (auto simp: list_all_iff slot_of_input_valid creds_def)
  have total: "int (tier_total creds p) = entry_total es p" for p
    using tier_total_entries [of "sort_key in_credential_id es" p] entry_total_sort [of es] valid dist
    by (simp add: creds_def list_all_iff distinct_map)
  have ks: "fst ` set m = in_priority ` set es" using arg_cong [OF keys, of set] by simp
  have "(\<forall>p \<in> fst ` set m. tier_total creds p \<le> max_credential_schedule_slots) \<longleftrightarrow> config_valid es"
    unfolding config_valid_def max_credential_schedule_slots_def ks total [symmetric]
    using valid dist ne by simp
  moreover have "map (\<lambda>e. tier_of creds (fst e)) m = map (tier_of creds) (map fst m)" by simp
  ultimately show ?thesis
    using build_tiers_iff [OF w, of m ts] grouped_entry [OF grp] unfolding keys
    by (auto simp: tier_indexes_def)
qed

lemma pool_try_new_iff:
  "pool_try_new endpoint es = Inr pool \<longleftrightarrow> config_valid es \<and> pool = built_pool endpoint es"
proof (cases "es \<noteq> [] \<and> list_all entry_valid es \<and> distinct (map in_credential_id es)")
  case True
  let ?creds = "map slot_of (sort_key in_credential_id es)"
  obtain m where slots: "build_slots (sort_key in_credential_id es) None [] [] = Inr (?creds, m)"
    and grp: "grouped (map cs_priority ?creds) m"
    and keys: "map fst m = sorted_list_of_set (in_priority ` set es)"
    using sorted_entries_built True by blast
  have tiers: "build_tiers ?creds m = Inr ts \<longleftrightarrow>
    config_valid es \<and> ts = map (tier_of ?creds) (sorted_list_of_set (in_priority ` set es))" for ts
    using True grp keys by (intro built_tiers_iff) simp_all
  show ?thesis
  proof (cases "build_tiers ?creds m")
    case (Inl err)
    then show ?thesis using True slots tiers by (auto simp: pool_try_new_def)
  next
    case (Inr ts)
    then show ?thesis using True slots tiers [of ts]
      by (auto simp: pool_try_new_def built_pool_def Let_def)
  qed
next
  case False
  have "build_slots (sort_key in_credential_id es) None [] [] \<noteq> Inr r" if "es \<noteq> []" for r
    using False that by (cases r) (auto simp: build_slots_iff prefix_id_def sorted_distinct_adj
        list_all_iff distinct_map)
  then show ?thesis using False
    by (auto simp: pool_try_new_def config_valid_def split: sum.splits)
qed

section \<open>The invariant\<close>

definition slot_ok :: "credential_slot \<Rightarrow> bool" where
  "slot_ok c \<longleftrightarrow> 0 < cs_weight c \<and> 0 < maximum_concurrency c \<and> active_leases c \<le> maximum_concurrency c"

definition pool_ok :: "endpoint_credential_pool \<Rightarrow> bool" where
  "pool_ok pool \<longleftrightarrow>
     credentials pool \<noteq> [] \<and> list_all slot_ok (credentials pool) \<and>
     sorted_wrt (<) (map credential_id (credentials pool)) \<and>
     priority_tiers pool =
       map (tier_of (credentials pool)) (sorted_list_of_set (cs_priority ` set (credentials pool))) \<and>
     (\<forall>p. tier_total (credentials pool) p \<le> 1024) \<and>
     length (cursors pool) = length (priority_tiers pool)"

lemma built_pool_ok:
  assumes "config_valid es"
  shows "pool_ok (built_pool endpoint es)"
proof -
  let ?es = "sort_key in_credential_id es"
  have valid: "\<forall>e \<in> set es. entry_valid e" and dist: "distinct (map in_credential_id es)"
    using assms by (simp_all add: config_valid_def list_all_iff)
  have prio: "cs_priority ` slot_of ` set es = in_priority ` set es"
    unfolding image_image using valid by (intro image_cong) (simp_all add: slot_of_input_valid)
  have "tier_total (map slot_of ?es) p \<le> 1024" for p
  proof (cases "p \<in> in_priority ` set es")
    case True
    have "int (tier_total (map slot_of ?es) p) = entry_total es p"
      using tier_total_entries [of ?es p] entry_total_sort [of es] valid dist
      by (simp add: list_all_iff distinct_map)
    with True assms show ?thesis by (fastforce simp: config_valid_def)
  next
    case False
    then show ?thesis using prio by (subst tier_total_none) auto
  qed
  moreover have "sorted_wrt (<) (map (credential_id \<circ> slot_of) ?es)"
  proof -
    have "map (credential_id \<circ> slot_of) ?es = map in_credential_id ?es"
      using valid by (simp add: slot_of_input_valid)
    then show ?thesis using dist by (simp only: strict_sorted_iff) (simp add: distinct_map)
  qed
  moreover have "list_all slot_ok (map slot_of ?es)"
    using valid by (simp add: list_all_iff slot_ok_def slot_of_input_valid)
  moreover have "?es \<noteq> []" using assms by (metis config_valid_def set_empty set_sort)
  ultimately show ?thesis
    using prio by (simp add: pool_ok_def built_pool_def Let_def)
qed

text \<open>Leases change no priority and no weight, hence no tier.\<close>

lemma tier_of_update:
  assumes "cs_priority c = cs_priority (creds ! i)" "cs_weight c = cs_weight (creds ! i)"
  shows "tier_of (creds[i := c]) = tier_of creds" and "tier_total (creds[i := c]) = tier_total creds"
    and "cs_priority ` set (creds[i := c]) = cs_priority ` set creds"
proof -
  have nth: "f (creds[i := c] ! j) = f (creds ! j)" if "f c = f (creds ! i)" for f j
    using that by (cases "i < length creds"; cases "j = i") (auto simp: list_update_beyond not_less)
  have map_f: "map f (creds[i := c]) = map f creds" if "f c = f (creds ! i)" for f
    using that by (cases "i < length creds")
      (simp_all add: map_update list_update_same_conv list_update_beyond not_less)
  have ix: "tier_indexes (creds[i := c]) p = tier_indexes creds p" for p
    by (simp add: tier_indexes_def map_f [of cs_priority] assms)
  show "tier_of (creds[i := c]) = tier_of creds" "tier_total (creds[i := c]) = tier_total creds"
    by (simp_all add: fun_eq_iff tier_of_def tier_total_def ix nth [of cs_weight] assms)
  show "cs_priority ` set (creds[i := c]) = cs_priority ` set creds"
    using arg_cong [OF map_f [of cs_priority], of set] assms by simp
qed

lemma pool_ok_update:
  assumes "pool_ok pool" "i < length (credentials pool)" "slot_ok c" "length cs = length (cursors pool)"
    "cs_priority c = cs_priority (credentials pool ! i)" "cs_weight c = cs_weight (credentials pool ! i)"
    "credential_id c = credential_id (credentials pool ! i)"
  shows "pool_ok (pool\<lparr>credentials := (credentials pool)[i := c], cursors := cs\<rparr>)"
proof -
  have "map credential_id ((credentials pool)[i := c]) = map credential_id (credentials pool)"
    using assms(2,7) by (simp add: map_update list_update_same_conv)
  moreover have "list_all slot_ok ((credentials pool)[i := c])"
    using assms(1,3) by (auto simp: pool_ok_def list_all_iff dest: set_update_subset_insert [THEN subsetD])
  ultimately show ?thesis
    using assms(1,4) tier_of_update [OF assms(5,6)] unfolding pool_ok_def by simp
qed

section \<open>What a lease attempt does\<close>

lemma try_lease_slots_state:
  assumes run: "try_lease_slots elig pool s = (r, pool', s')"
    and keep: "\<And>c s. J s \<Longrightarrow> J (snd (elig c s))" and s: "J s"
  shows "case r of
      None \<Rightarrow> credentials pool' = credentials pool \<and> J s'
    | Some l \<Rightarrow> lease_endpoint l = pool_endpoint_id pool \<and> lease_index l < length (credentials pool)
        \<and> has_capacity (credentials pool ! lease_index l)
        \<and> (\<exists>s0. J s0 \<and> elig (credentials pool ! lease_index l) s0 = (True, s'))
        \<and> credentials pool' = (credentials pool)[lease_index l :=
             snd (try_acquire (credentials pool ! lease_index l))]"
    and "length (cursors pool') = length (cursors pool)"
    and "pool' = pool\<lparr>credentials := credentials pool', cursors := cursors pool'\<rparr>"
proof -
  let ?f = "lease_body elig" and ?I = "\<lambda>(cs, s). cs = credentials pool \<and> J s"
  obtain o' cs' creds' s1 where
    scan: "scan_tiers ?f (map slot_indexes (priority_tiers pool)) (cursors pool) (credentials pool, s)
      = (o', cs', creds', s1)" by (metis prod_cases4)
  have kept: "J s1" if "elig c s0 = (b, s1)" "J s0" for c s0 b s1 using keep [OF that(2), of c] that(1) by simp
  have keep': "?I t \<Longrightarrow> fst (?f i t) \<noteq> Accept \<Longrightarrow> ?I (snd (?f i t))" for i t
    by (auto simp: lease_body_def Let_def intro: kept split: prod.splits if_splits)
  have out: "length cs' = length (cursors pool) \<and>
      (case o' of Found i \<Rightarrow> \<exists>t0. ?I t0 \<and> ?f i t0 = (Accept, creds', s1) | _ \<Rightarrow> ?I (creds', s1))"
    by (rule scan_tiers_state [where I = ?I and f = ?f, OF keep' _ scan]) (simp_all add: s)
  have acc: "lease_body elig i (credentials pool, s0) = (Accept, creds', s1) \<Longrightarrow>
      i < length (credentials pool) \<and> has_capacity (credentials pool ! i)
      \<and> elig (credentials pool ! i) s0 = (True, s1)
      \<and> creds' = (credentials pool)[i := snd (try_acquire (credentials pool ! i))]" for i s0
    by (auto simp: lease_body_def Let_def try_acquire_def has_capacity_def
        split: prod.splits if_splits)
  have res: "s' = s1" "credentials pool' = creds'" "cursors pool' = cs'"
    "r = (case o' of Found i \<Rightarrow> Some \<lparr>lease_endpoint = pool_endpoint_id pool, lease_index = i\<rparr> | _ \<Rightarrow> None)"
    and pool': "pool' = pool\<lparr>credentials := creds', cursors := cs'\<rparr>"
    using run scan by (auto simp: try_lease_slots_def)
  show "length (cursors pool') = length (cursors pool)" using out by (simp add: res)
  show "pool' = pool\<lparr>credentials := credentials pool', cursors := cursors pool'\<rparr>"
    using pool' res by simp
  show "case r of
      None \<Rightarrow> credentials pool' = credentials pool \<and> J s'
    | Some l \<Rightarrow> lease_endpoint l = pool_endpoint_id pool \<and> lease_index l < length (credentials pool)
        \<and> has_capacity (credentials pool ! lease_index l)
        \<and> (\<exists>s0. J s0 \<and> elig (credentials pool ! lease_index l) s0 = (True, s'))
        \<and> credentials pool' = (credentials pool)[lease_index l :=
             snd (try_acquire (credentials pool ! lease_index l))]"
    using out acc by (cases o') (auto simp: res)
qed

lemma try_lease_slots_outcome:
  assumes "try_lease_slots elig pool s = (r, pool', s')"
  shows "case r of
      None \<Rightarrow> credentials pool' = credentials pool
    | Some l \<Rightarrow> lease_endpoint l = pool_endpoint_id pool \<and> lease_index l < length (credentials pool)
        \<and> has_capacity (credentials pool ! lease_index l)
        \<and> (\<exists>s0. elig (credentials pool ! lease_index l) s0 = (True, s'))
        \<and> credentials pool' = (credentials pool)[lease_index l :=
             snd (try_acquire (credentials pool ! lease_index l))]"
    and "length (cursors pool') = length (cursors pool)"
    and "pool' = pool\<lparr>credentials := credentials pool', cursors := cursors pool'\<rparr>"
    and "priority_tiers pool' = priority_tiers pool" and "pool_endpoint_id pool' = pool_endpoint_id pool"
proof -
  note state = try_lease_slots_state [where J = "\<lambda>_. True", OF assms, simplified]
  show "case r of
      None \<Rightarrow> credentials pool' = credentials pool
    | Some l \<Rightarrow> lease_endpoint l = pool_endpoint_id pool \<and> lease_index l < length (credentials pool)
        \<and> has_capacity (credentials pool ! lease_index l)
        \<and> (\<exists>s0. elig (credentials pool ! lease_index l) s0 = (True, s'))
        \<and> credentials pool' = (credentials pool)[lease_index l :=
             snd (try_acquire (credentials pool ! lease_index l))]"
    using state(1) by (simp split: option.splits)
  show "length (cursors pool') = length (cursors pool)" by (rule state(2))
  show eq: "pool' = pool\<lparr>credentials := credentials pool', cursors := cursors pool'\<rparr>" by (rule state(3))
  show "priority_tiers pool' = priority_tiers pool" "pool_endpoint_id pool' = pool_endpoint_id pool"
    by (subst eq, simp)+
qed

lemma try_acquire_ok:
  "slot_ok c \<Longrightarrow> slot_ok (snd (try_acquire c))"
  "cs_priority (snd (try_acquire c)) = cs_priority c" "cs_weight (snd (try_acquire c)) = cs_weight c"
  "credential_id (snd (try_acquire c)) = credential_id c"
  by (auto simp: try_acquire_def slot_ok_def)

lemma try_lease_slots_ok:
  assumes "pool_ok pool" "try_lease_slots elig pool s = (r, pool', s')"
  shows "pool_ok pool'"
proof -
  note out = try_lease_slots_outcome [OF assms(2)]
  show ?thesis
  proof (cases r)
    case None
    then have "credentials pool' = credentials pool" using out(1) by simp
    then show ?thesis using assms(1) out(2,4) by (simp add: pool_ok_def)
  next
    case (Some l)
    let ?i = "lease_index l"
    have i: "?i < length (credentials pool)"
      "credentials pool' = (credentials pool)[?i := snd (try_acquire (credentials pool ! ?i))]"
      using out(1) Some by auto
    then have "slot_ok (credentials pool ! ?i)" using assms(1) by (simp add: pool_ok_def list_all_length)
    then show ?thesis using i out(2)
      by (subst out(3), simp only: i(2)) (intro pool_ok_update [OF assms(1)] try_acquire_ok)
  qed
qed

lemma lease_drop_ok:
  assumes "pool_ok pool" "lease_index l < length (credentials pool)"
    "0 < active_leases (credentials pool ! lease_index l)"
  shows "pool_ok (lease_drop l pool)"
proof -
  let ?c = "slot_release (credentials pool ! lease_index l)"
  have "slot_ok (credentials pool ! lease_index l)" using assms by (simp add: pool_ok_def list_all_length)
  then have "slot_ok ?c" using assms(3) by (auto simp: slot_ok_def slot_release_def)
  then have "pool_ok (pool\<lparr>credentials := (credentials pool)[lease_index l := ?c], cursors := cursors pool\<rparr>)"
    by (rule pool_ok_update [OF assms(1,2)]) (simp_all add: slot_release_def)
  then show ?thesis by (simp add: lease_drop_def)
qed

section \<open>Completeness and priority of the lease search\<close>

text \<open>
  The contract between the pool and the caller's eligibility predicate: on states that satisfy
  a condition the predicate decides a fixed property of the slot, and it keeps the condition.
\<close>

locale lease_eligibility =
  fixes is_eligible :: "credential_slot \<Rightarrow> 's \<Rightarrow> bool \<times> 's"
    and cond :: "'s \<Rightarrow> bool"
    and eligible :: "credential_slot \<Rightarrow> bool"
  assumes decides: "cond s \<Longrightarrow> fst (is_eligible c s) = eligible c"
    and keeps: "cond s \<Longrightarrow> cond (snd (is_eligible c s))"
begin

lemma scan_contract:
  "scan_body (lease_body is_eligible) (\<lambda>_ (cs, s). cs = creds \<and> cond s)
     (\<lambda>i. eligible (creds ! i) \<and> has_capacity (creds ! i)) (\<lambda>i. i < length creds)"
proof
  fix n :: nat and t i
  assume t: "case t of (cs, s) \<Rightarrow> cs = creds \<and> cond s" and i: "i < length creds"
  then obtain s where s: "t = (creds, s)" "cond s" by (cases t) auto
  note d = decides [OF s(2), of "creds ! i"] keeps [OF s(2), of "creds ! i"]
  show "fst (lease_body is_eligible i t) = Accept" if "eligible (creds ! i) \<and> has_capacity (creds ! i)"
    using that d i s
    by (auto simp: lease_body_def try_acquire_def has_capacity_def split_beta Let_def)
  show "fst (lease_body is_eligible i t) = Skip
    \<and> (case snd (lease_body is_eligible i t) of (cs, s) \<Rightarrow> cs = creds \<and> cond s)"
    if "\<not> (eligible (creds ! i) \<and> has_capacity (creds ! i))"
    using that d i s
    by (auto simp: lease_body_def try_acquire_def has_capacity_def split_beta Let_def)
qed

end

definition available :: "(credential_slot \<Rightarrow> bool) \<Rightarrow> endpoint_credential_pool \<Rightarrow> usize \<Rightarrow> bool" where
  "available eligible pool i \<longleftrightarrow> i < length (credentials pool) \<and> eligible (credentials pool ! i)
     \<and> has_capacity (credentials pool ! i)"

definition cursors_low :: "endpoint_credential_pool \<Rightarrow> bool" where
  "cursors_low pool \<longleftrightarrow> list_all (\<lambda>c. unat c + 1024 \<le> 2 ^ 64) (cursors pool)"

lemma tier_of_slots:
  assumes "list_all slot_ok creds" "p \<in> cs_priority ` set creds"
  shows "count_list (slot_indexes (tier_of creds p)) i =
      (if i < length creds \<and> cs_priority (creds ! i) = p then cs_weight (creds ! i) else 0)"
    and "set (slot_indexes (tier_of creds p)) = {i. i < length creds \<and> cs_priority (creds ! i) = p}"
    and "slot_indexes (tier_of creds p) \<noteq> []"
    and "length (slot_indexes (tier_of creds p)) = tier_total creds p"
    and "k \<le> tier_total creds p \<Longrightarrow> i < length creds \<Longrightarrow> cs_priority (creds ! i) = p \<Longrightarrow>
      tier_total creds p * count_list (take k (slot_indexes (tier_of creds p))) i
        < k * cs_weight (creds ! i) + tier_total creds p"
proof -
  let ?w = "\<lambda>i. cs_weight (creds ! i)" and ?is = "tier_indexes creds p"
  have slots: "slot_indexes (tier_of creds p) = weighted_schedule ?w ?is" by (simp add: tier_of_def)
  have pos: "\<forall>i \<in> set ?is. 0 < ?w i"
    using assms(1) by (auto simp: tier_indexes_set list_all_length slot_ok_def)
  obtain j where j: "j < length creds" "cs_priority (creds ! j) = p"
    using assms(2) by (auto simp: in_set_conv_nth)
  then have "j \<in> set ?is" by (simp add: tier_indexes_set)
  then have ne: "?is \<noteq> []" by auto
  show cnt: "count_list (slot_indexes (tier_of creds p)) i =
      (if i < length creds \<and> cs_priority (creds ! i) = p then ?w i else 0)" for i
    unfolding slots using weighted_schedule_count [OF pos ne tier_indexes_distinct]
    by (simp add: tier_indexes_set)
  have mem: "i \<in> set (slot_indexes (tier_of creds p)) \<longleftrightarrow> i < length creds \<and> cs_priority (creds ! i) = p" for i
    using cnt [of i] count_list_0_iff [of "slot_indexes (tier_of creds p)" i] pos
    by (auto simp: tier_indexes_set split: if_splits)
  then show "set (slot_indexes (tier_of creds p)) = {i. i < length creds \<and> cs_priority (creds ! i) = p}"
    by blast
  show "slot_indexes (tier_of creds p) \<noteq> []" using mem [of j] j by auto
  show "length (slot_indexes (tier_of creds p)) = tier_total creds p"
    unfolding slots using weighted_schedule_length [OF pos ne] by (simp add: tier_total_def)
  show "tier_total creds p * count_list (take k (slot_indexes (tier_of creds p))) i
        < k * ?w i + tier_total creds p"
    if "k \<le> tier_total creds p" "i < length creds" "cs_priority (creds ! i) = p"
    using weighted_schedule_fair [OF pos ne tier_indexes_distinct, of i k] that
    by (simp add: slots tier_total_def tier_indexes_set)
qed

lemma pool_tier:
  assumes "pool_ok pool" "t \<in> set (priority_tiers pool)"
  shows "t = tier_of (credentials pool) (tier_priority t)"
    and "tier_priority t \<in> cs_priority ` set (credentials pool)"
  using assms by (auto simp: pool_ok_def tier_of_def)

lemma pool_tier_slots:
  assumes "pool_ok pool" "t \<in> set (priority_tiers pool)"
  shows "set (slot_indexes t) =
      {i. i < length (credentials pool) \<and> cs_priority (credentials pool ! i) = tier_priority t}"
    and "slot_indexes t \<noteq> []" and "length (slot_indexes t) \<le> 1024"
proof -
  have ok: "list_all slot_ok (credentials pool)" and le: "\<And>p. tier_total (credentials pool) p \<le> 1024"
    using assms(1) by (simp_all add: pool_ok_def)
  note p = pool_tier [OF assms] and facts = tier_of_slots [OF ok pool_tier(2) [OF assms]]
  show "set (slot_indexes t) =
      {i. i < length (credentials pool) \<and> cs_priority (credentials pool ! i) = tier_priority t}"
    by (subst p(1)) (rule facts(2))
  show "slot_indexes t \<noteq> []" by (subst p(1)) (rule facts(3))
  show "length (slot_indexes t) \<le> 1024" by (subst p(1)) (simp only: facts(4) le)
qed

lemma pool_tier_exists:
  assumes "pool_ok pool" "i < length (credentials pool)"
  shows "\<exists>t \<in> set (priority_tiers pool). tier_priority t = cs_priority (credentials pool ! i)"
  using assms by (auto simp: pool_ok_def tier_of_def)

lemma pool_tiers_sorted: "pool_ok pool \<Longrightarrow> sorted_wrt (<) (map tier_priority (priority_tiers pool))"
  by (simp add: pool_ok_def tier_of_def comp_def)

lemma pool_slot_covered:
  assumes ok: "pool_ok pool" and i: "i < length (credentials pool)"
  shows "\<exists>t \<in> set (priority_tiers pool). i \<in> set (slot_indexes t)"
proof -
  obtain t where t: "t \<in> set (priority_tiers pool)" "tier_priority t = cs_priority (credentials pool ! i)"
    using pool_tier_exists [OF ok i] by blast
  then have "i \<in> set (slot_indexes t)" using i by (simp add: pool_tier_slots(1) [OF ok])
  with t(1) show ?thesis by blast
qed

lemma pool_cursors_fit:
  assumes ok: "pool_ok pool" and low: "cursors_low pool"
  shows "\<forall>(slots, c) \<in> set (zip (map slot_indexes (priority_tiers pool)) (cursors pool)).
    unat c + length slots \<le> 2 ^ 64"
proof clarify
  fix slots c assume "(slots, c) \<in> set (zip (map slot_indexes (priority_tiers pool)) (cursors pool))"
  then have "slots \<in> set (map slot_indexes (priority_tiers pool))" "c \<in> set (cursors pool)"
    by (auto dest: set_zip_leftD set_zip_rightD)
  then have "length slots \<le> 1024" "unat c + 1024 \<le> 2 ^ 64"
    using low pool_tier_slots(3) [OF ok] by (auto simp: cursors_low_def list_all_iff)
  then show "unat c + length slots \<le> 2 ^ 64" by linarith
qed

lemma first_tier_lowest:
  assumes ok: "pool_ok pool" and first: "in_first_tier good (map slot_indexes (priority_tiers pool)) i"
    and j: "j < length (credentials pool)" "good j"
  shows "cs_priority (credentials pool ! i) \<le> cs_priority (credentials pool ! j)"
proof -
  let ?ts = "map (\<lambda>t. (tier_priority t, slot_indexes t)) (priority_tiers pool)"
  obtain t where t: "t \<in> set (priority_tiers pool)" "j \<in> set (slot_indexes t)"
    using pool_slot_covered [OF ok j(1)] by blast
  show ?thesis
  proof (rule in_first_tier_priority [of ?ts "\<lambda>i. cs_priority (credentials pool ! i)" good i])
    show "sorted_wrt (<) (map fst ?ts)" using pool_tiers_sorted [OF ok] by (simp add: comp_def)
    show "(tier_priority t, slot_indexes t) \<in> set ?ts" using t(1) by simp
    show "in_first_tier good (map snd ?ts) i" using first by (simp add: comp_def)
    show "\<forall>(p, slots) \<in> set ?ts. \<forall>i \<in> set slots. cs_priority (credentials pool ! i) = p"
      using pool_tier_slots(1) [OF ok] by auto
  qed (use t j in auto)
qed

context lease_eligibility
begin

lemma scan_result:
  assumes ok: "pool_ok pool" and low: "cursors_low pool" and s: "cond s"
  defines "good \<equiv> \<lambda>i. eligible (credentials pool ! i) \<and> has_capacity (credentials pool ! i)"
  shows "case scan_tiers (lease_body is_eligible) (map slot_indexes (priority_tiers pool)) (cursors pool)
           (credentials pool, s) of
      (Found i, _, _) \<Rightarrow> good i \<and> in_first_tier good (map slot_indexes (priority_tiers pool)) i
    | (Exhausted, _, t') \<Rightarrow> cond (snd t')
        \<and> (\<forall>t \<in> set (priority_tiers pool). \<forall>i \<in> set (slot_indexes t). \<not> good i)
    | (Aborted, _, _) \<Rightarrow> False"
proof -
  have inv: "case (credentials pool, s) of (cs, s) \<Rightarrow> cs = credentials pool \<and> cond s" using s by simp
  have tiers: "\<forall>slots \<in> set (map slot_indexes (priority_tiers pool)).
      slots \<noteq> [] \<and> list_all (\<lambda>i. i < length (credentials pool)) slots"
    using pool_tier_slots(1,2) [OF ok] by (auto simp: list_all_iff)
  have len: "length (cursors pool) = length (map slot_indexes (priority_tiers pool))"
    using ok by (simp add: pool_ok_def)
  show ?thesis
    unfolding good_def
    using scan_body.scan_tiers_spec [OF scan_contract inv len tiers pool_cursors_fit [OF ok low]]
    by (auto simp del: in_first_tier.simps split: prod.splits scan_outcome.splits)
qed

text \<open>A search finds a lease exactly when one is available, in the lowest tier that has one.\<close>

lemma search:
  assumes ok: "pool_ok pool" and low: "cursors_low pool" and s: "cond s"
    and run: "try_lease_slots is_eligible pool s = (r, pool', s')"
  shows "case r of
      Some l \<Rightarrow> available eligible pool (lease_index l) \<and>
        (\<forall>i. available eligible pool i \<longrightarrow>
           cs_priority (credentials pool ! lease_index l) \<le> cs_priority (credentials pool ! i))
    | None \<Rightarrow> (\<forall>i. \<not> available eligible pool i) \<and> cond s'"
proof -
  let ?creds = "credentials pool" and ?ts = "priority_tiers pool"
  let ?good = "\<lambda>i. eligible (?creds ! i) \<and> has_capacity (?creds ! i)"
  obtain o' cs' creds' s1 where
    scan: "scan_tiers (lease_body is_eligible) (map slot_indexes ?ts) (cursors pool) (?creds, s)
      = (o', cs', creds', s1)" by (metis prod_cases4)
  have res: "s' = s1"
    "r = (case o' of Found i \<Rightarrow> Some \<lparr>lease_endpoint = pool_endpoint_id pool, lease_index = i\<rparr> | _ \<Rightarrow> None)"
    using run scan by (auto simp: try_lease_slots_def)
  note spec = scan_result [OF ok low s, unfolded scan]
  show ?thesis
  proof (cases o')
    case (Found i)
    then have i: "?good i" "in_first_tier ?good (map slot_indexes ?ts) i" using spec by auto
    moreover have "i < length ?creds"
      using try_lease_slots_outcome(1) [OF run] Found by (simp add: res)
    ultimately show ?thesis using first_tier_lowest [OF ok i(2)] Found
      by (auto simp: res available_def)
  next
    case Exhausted
    then have none: "\<forall>t \<in> set ?ts. \<forall>i \<in> set (slot_indexes t). \<not> ?good i" and "cond s1"
      using spec by auto
    have "\<not> available eligible pool i" for i
      using none pool_slot_covered [OF ok, of i] unfolding available_def by blast
    then show ?thesis using \<open>cond s1\<close> Exhausted by (simp add: res)
  next
    case Aborted
    then show ?thesis using spec by simp
  qed
qed

end

text \<open>A predicate that only reads the slot, as the pool's own operations pass it.\<close>

interpretation pure_lease: lease_eligibility "\<lambda>c s. (p c, s)" "\<lambda>_. True" p for p
  by unfold_locales simp_all

section \<open>Acquisition and release under interleaving\<close>

text \<open>
  \<open>try_acquire\<close> step by step: load the counter, compare it with the limit, exchange it if it
  still has the loaded value (the weak exchange may also fail although it has), otherwise go
  round again with the value observed. A holder's drop is one atomic subtraction. Any number of
  threads may interleave.
\<close>

datatype acquire_pc = Outside | Loaded usize | Holding | Refused

inductive acquire_step ::
  "usize \<Rightarrow> usize \<times> (nat \<Rightarrow> acquire_pc) \<Rightarrow> usize \<times> (nat \<Rightarrow> acquire_pc) \<Rightarrow> bool" for limit where
  load: "pc t = Outside \<Longrightarrow> acquire_step limit (c, pc) (c, pc(t := Loaded c))"
| refuse: "pc t = Loaded v \<Longrightarrow> limit \<le> v \<Longrightarrow> acquire_step limit (c, pc) (c, pc(t := Refused))"
| exchange: "pc t = Loaded c \<Longrightarrow> c < limit \<Longrightarrow> acquire_step limit (c, pc) (c + 1, pc(t := Holding))"
| observe: "pc t = Loaded v \<Longrightarrow> v < limit \<Longrightarrow> acquire_step limit (c, pc) (c, pc(t := Loaded c))"
| drop: "pc t = Holding \<Longrightarrow>
    acquire_step limit (c, pc) (if c = 0 then 2 ^ 64 - 1 else c - 1, pc(t := Outside))"
| again: "pc t = Refused \<Longrightarrow> acquire_step limit (c, pc) (c, pc(t := Outside))"

inductive acquire_reachable :: "usize \<Rightarrow> usize \<times> (nat \<Rightarrow> acquire_pc) \<Rightarrow> bool" for limit where
  start: "acquire_reachable limit (0, \<lambda>_. Outside)"
| step: "acquire_reachable limit st \<Longrightarrow> acquire_step limit st st' \<Longrightarrow> acquire_reachable limit st'"

definition holders :: "(nat \<Rightarrow> acquire_pc) \<Rightarrow> nat set" where
  "holders pc = {t. pc t = Holding}"

lemma holders_upd: "holders (pc(t := x)) = (if x = Holding then insert t (holders pc) else holders pc - {t})"
  by (auto simp: holders_def)

lemma holders_same: "pc t \<noteq> Holding \<Longrightarrow> x \<noteq> Holding \<Longrightarrow> holders (pc(t := x)) = holders pc"
  by (auto simp: holders_def)

definition counts_holders :: "usize \<Rightarrow> usize \<times> (nat \<Rightarrow> acquire_pc) \<Rightarrow> bool" where
  "counts_holders limit st \<longleftrightarrow>
     finite (holders (snd st)) \<and> fst st = card (holders (snd st)) \<and> fst st \<le> limit"

lemma counts_holders_step:
  "acquire_step limit st st' \<Longrightarrow> counts_holders limit st \<Longrightarrow> counts_holders limit st'"
proof (induction rule: acquire_step.induct)
  case (exchange pc t c)
  then have "t \<notin> holders pc" by (simp add: holders_def)
  with exchange show ?case by (simp add: counts_holders_def holders_upd)
next
  case (drop pc t c)
  then have t: "t \<in> holders pc" by (simp add: holders_def)
  then have "0 < card (holders pc)" using drop card_gt_0_iff by (auto simp: counts_holders_def)
  with drop t show ?case by (auto simp: counts_holders_def holders_upd)
qed (simp_all add: counts_holders_def holders_same)

lemma counts_holders_reachable: "acquire_reachable limit st \<Longrightarrow> counts_holders limit st"
proof (induction rule: acquire_reachable.induct)
  case start
  then show ?case by (simp add: counts_holders_def holders_def)
qed (rule counts_holders_step)

text \<open>
  C25: Under every interleaving of loads, weak compare-and-exchange attempts and drops by any number
  of threads, the lease counter of a slot equals the number of leases held and never exceeds the
  slot's maximum concurrency, and dropping a lease never wraps the counter.
\<close>

theorem concurrent_leases_bounded:
  assumes "acquire_reachable limit (c, pc)"
  shows "finite {t. pc t = Holding} \<and> c = card {t. pc t = Holding} \<and> c \<le> limit
    \<and> (pc t = Holding \<longrightarrow> 0 < c)"
  using counts_holders_reachable [OF assms] card_gt_0_iff [of "{t. pc t = Holding}"]
  by (auto simp: counts_holders_def holders_def)

theorem concurrent_leases_bounded_witness:
  "\<exists>pc. acquire_reachable 1 (1, pc) \<and> pc 0 = Holding \<and> pc 1 = Refused \<and> card {t. pc t = Holding} = 1"
proof -
  let ?p1 = "(\<lambda>_ :: nat. Outside)(0 := Loaded 0)"
  let ?p2 = "?p1(1 := Loaded 0)"
  let ?p3 = "?p2(0 := Holding)"
  let ?p4 = "?p3(1 := Loaded 1)"
  let ?p5 = "?p4(1 := Refused)"
  have "acquire_reachable 1 (0, ?p1)"
    by (rule acquire_reachable.step [OF acquire_reachable.start]) (rule load, simp)
  then have "acquire_reachable 1 (0, ?p2)" by (rule acquire_reachable.step) (rule load, simp)
  then have "acquire_reachable 1 (0 + 1, ?p3)" by (rule acquire_reachable.step) (rule exchange, simp_all)
  then have "acquire_reachable 1 (0 + 1, ?p4)"
    using observe [of ?p3 1 0 1 "0 + 1"] by (auto intro: acquire_reachable.step)
  then have "acquire_reachable 1 (0 + 1, ?p5)"
    using refuse [of ?p4 1 1 1 "0 + 1"] by (auto intro: acquire_reachable.step)
  then have r: "acquire_reachable 1 (1, ?p5)" by simp
  from concurrent_leases_bounded [OF r, of 0] have "1 = card {t. ?p5 t = Holding}"
    by (elim conjE)
  then have "card {t. ?p5 t = Holding} = 1" by (rule sym)
  moreover have "?p5 0 = Holding" "?p5 1 = Refused" by simp_all
  ultimately show ?thesis using r by blast
qed


section \<open>Properties of the pool\<close>

lemma pool_try_new_ok: "pool_try_new endpoint es = Inr pool \<Longrightarrow> pool_ok pool"
  using built_pool_ok [of es endpoint] by (auto simp: pool_try_new_iff)

text \<open>
  \<open>EndpointCredentialPool::try_new\<close> succeeds exactly on non-empty lists of valid entries with
  pairwise different credential ids whose weights sum to at most 1024 in every priority tier; the
  checked arithmetic of the schedule construction never fails by itself.
\<close>

lemma pool_try_new_accepts_exactly:
  "(\<exists>pool. pool_try_new endpoint es = Inr pool) \<longleftrightarrow>
     es \<noteq> [] \<and> list_all (\<lambda>e. validate_entry e = Inr ()) es \<and> distinct (map in_credential_id es) \<and>
     list_all (\<lambda>p. sum_list (map in_weight (filter (\<lambda>e. in_priority e = p) es)) \<le> 1024) (map in_priority es)"
  by (simp add: pool_try_new_iff config_valid_def entry_total_def entry_valid_def list_all_iff)

text \<open>
  C26: In a constructed pool the tiers are in strictly ascending priority and every tier's schedule
  contains each of its credentials exactly as often as its weight (and no other credential), has at
  most 1024 slots, and is smooth: in each of its prefixes no credential is a full slot ahead of its
  proportional share.
\<close>

theorem pool_schedule_exact_and_smooth:
  assumes "pool_try_new endpoint es = Inr pool"
  shows "sorted_wrt (<) (map tier_priority (priority_tiers pool)) \<and>
    tier_priority ` set (priority_tiers pool) = in_priority ` set es \<and>
    (\<forall>t \<in> set (priority_tiers pool). length (slot_indexes t) \<le> 1024 \<and>
      (\<forall>i. count_list (slot_indexes t) i =
        (if i < length (credentials pool) \<and> cs_priority (credentials pool ! i) = tier_priority t
         then cs_weight (credentials pool ! i) else 0)) \<and>
      (\<forall>i k. i \<in> set (slot_indexes t) \<longrightarrow> k \<le> length (slot_indexes t) \<longrightarrow>
         length (slot_indexes t) * count_list (take k (slot_indexes t)) i
           < k * cs_weight (credentials pool ! i) + length (slot_indexes t)))"
proof -
  have cfg: "config_valid es" and pool: "pool = built_pool endpoint es"
    using assms by (simp_all add: pool_try_new_iff)
  have ok: "pool_ok pool" using built_pool_ok [OF cfg] pool by simp
  have slots: "list_all slot_ok (credentials pool)" using ok by (simp add: pool_ok_def)
  have prios: "tier_priority ` set (priority_tiers pool) = in_priority ` set es"
    by (simp add: pool built_pool_def Let_def tier_of_def image_image)
  have tier: "count_list (slot_indexes t) i =
        (if i < length (credentials pool) \<and> cs_priority (credentials pool ! i) = tier_priority t
         then cs_weight (credentials pool ! i) else 0)"
    "i \<in> set (slot_indexes t) \<Longrightarrow> k \<le> length (slot_indexes t) \<Longrightarrow>
         length (slot_indexes t) * count_list (take k (slot_indexes t)) i
           < k * cs_weight (credentials pool ! i) + length (slot_indexes t)"
    if t: "t \<in> set (priority_tiers pool)" for t i k
    using tier_of_slots [OF slots pool_tier(2) [OF ok t]] pool_tier(1) [OF ok t] pool_tier_slots(1) [OF ok t]
    by (metis, metis (mono_tags, lifting) mem_Collect_eq)
  show ?thesis
    using pool_tiers_sorted [OF ok] prios pool_tier_slots(3) [OF ok] tier by blast
qed

text \<open>
  C20: Whatever the caller's eligibility predicate does to its own state, a lease attempt keeps the
  pool's invariant (no slot above its maximum concurrency), takes exactly one unit of capacity of
  one slot that had capacity and that the predicate accepted, and changes no slot when it fails;
  dropping the lease restores every slot.
\<close>

theorem pool_lease_conserves:
  assumes "pool_ok pool" "try_lease_slots is_eligible pool s = (r, pool', s')"
  shows "pool_ok pool' \<and>
    (case r of
       None \<Rightarrow> credentials pool' = credentials pool
     | Some l \<Rightarrow>
         has_capacity (credentials pool ! lease_index l) \<and>
         (\<exists>s0. is_eligible (credentials pool ! lease_index l) s0 = (True, s')) \<and>
         active_leases (credentials pool' ! lease_index l)
           = active_leases (credentials pool ! lease_index l) + 1 \<and>
         (\<forall>j. j \<noteq> lease_index l \<longrightarrow> credentials pool' ! j = credentials pool ! j) \<and>
         credentials (lease_drop l pool') = credentials pool \<and> pool_ok (lease_drop l pool'))"
proof (cases r)
  case None
  then show ?thesis using try_lease_slots_ok [OF assms] try_lease_slots_outcome(1) [OF assms(2)] by simp
next
  case (Some l)
  let ?i = "lease_index l" and ?creds = "credentials pool"
  have out: "?i < length ?creds" "has_capacity (?creds ! ?i)"
    "\<exists>s0. is_eligible (?creds ! ?i) s0 = (True, s')"
    "credentials pool' = ?creds[?i := snd (try_acquire (?creds ! ?i))]"
    using try_lease_slots_outcome(1) [OF assms(2)] Some by auto
  have acq: "snd (try_acquire (?creds ! ?i)) = (?creds ! ?i)\<lparr>active_leases := active_leases (?creds ! ?i) + 1\<rparr>"
    using out(2) by (simp add: try_acquire_def has_capacity_def)
  have "credentials (lease_drop l pool') = ?creds"
    using out(1) by (simp add: lease_drop_def out(4) acq slot_release_def)
  moreover have ok': "pool_ok pool'" by (rule try_lease_slots_ok [OF assms])
  moreover have "pool_ok (lease_drop l pool')"
    using out(1) by (intro lease_drop_ok [OF ok']) (simp_all add: out(4) acq)
  ultimately show ?thesis using out acq Some by simp
qed

text \<open>
  C24: As long as no cursor is within 1024 of wrapping at \<open>2 ^ 64\<close>, the expiry-aware lease search is
  complete and respects priority: it returns a lease exactly when some credential is unexpired,
  eligible and below its concurrency limit, and then the lease is for one of those with the lowest
  priority value.
\<close>

theorem pool_lease_complete:
  assumes "pool_ok pool" "cursors_low pool"
    "try_lease_eligible_at now (\<lambda>c s. (p c, s)) pool s = (r, pool', s')"
  shows "case r of
      Some l \<Rightarrow> available (\<lambda>c. unexpired now c \<and> p (credential_id c)) pool (lease_index l) \<and>
        (\<forall>i. available (\<lambda>c. unexpired now c \<and> p (credential_id c)) pool i \<longrightarrow>
           cs_priority (credentials pool ! lease_index l) \<le> cs_priority (credentials pool ! i))
    | None \<Rightarrow> \<forall>i. \<not> available (\<lambda>c. unexpired now c \<and> p (credential_id c)) pool i"
proof -
  have "(\<lambda>c (s :: 'a). if unexpired now c then (p (credential_id c), s) else (False, s))
      = (\<lambda>c s. (unexpired now c \<and> p (credential_id c), s))"
    by (auto simp: fun_eq_iff)
  then have "try_lease_slots (\<lambda>c s. (unexpired now c \<and> p (credential_id c), s)) pool s = (r, pool', s')"
    using assms(3) by (simp add: try_lease_eligible_at_def)
  from pure_lease.search [OF assms(1,2) _ this] show ?thesis by (simp split: option.splits)
qed


text \<open>A small pool for the witnesses: weights 2 and 1 at priority 0, a fallback at priority 1.\<close>

definition sample_entry :: "string \<Rightarrow> i64 \<Rightarrow> i64 \<Rightarrow> i64 option \<Rightarrow> endpoint_credential_input" where
  "sample_entry i p w x =
     \<lparr>in_credential_id = i, in_credential_kind = ''api_key'', in_credential_revision = 1, in_priority = p,
      in_weight = w, in_concurrency = 1, in_expires_at_ms = x, in_secret = ''s''\<rparr>"

definition sample_entries :: "endpoint_credential_input list" where
  "sample_entries = [sample_entry ''b'' 0 1 None, sample_entry ''a'' 0 2 (Some 50), sample_entry ''c'' 1 1 None]"

definition sample_slot :: "string \<Rightarrow> i64 \<Rightarrow> usize \<Rightarrow> i64 option \<Rightarrow> credential_slot" where
  "sample_slot i p w x =
     \<lparr>credential_id = i, credential_kind = ''api_key'', credential_revision = 1, cs_priority = p,
      cs_weight = w, maximum_concurrency = 1, expires_at_ms = x, cs_secret = ''s'', active_leases = 0\<rparr>"

definition sample_pool :: endpoint_credential_pool where
  "sample_pool =
     \<lparr>pool_endpoint_id = ''ep'',
      credentials = [sample_slot ''a'' 0 2 (Some 50), sample_slot ''b'' 0 1 None, sample_slot ''c'' 1 1 None],
      priority_tiers = [\<lparr>tier_priority = 0, slot_indexes = [0, 1, 0]\<rparr>,
                        \<lparr>tier_priority = 1, slot_indexes = [2]\<rparr>],
      cursors = [0, 0]\<rparr>"

lemma sample_pool_built: "pool_try_new ''ep'' sample_entries = Inr sample_pool"
  by code_simp

lemma sample_pool_ok: "pool_ok sample_pool" and sample_pool_low: "cursors_low sample_pool"
proof -
  show "pool_ok sample_pool" by (rule pool_try_new_ok [OF sample_pool_built])
  show "cursors_low sample_pool" by code_simp
qed

theorem pool_schedule_exact_and_smooth_witness:
  "pool_try_new ''ep'' sample_entries = Inr sample_pool \<and>
   map slot_indexes (priority_tiers sample_pool) = [[0, 1, 0], [2]] \<and>
   sorted_wrt (<) (map tier_priority (priority_tiers sample_pool))"
proof -
  have "map slot_indexes (priority_tiers sample_pool) = [[0, 1, 0], [2]]" by (simp add: sample_pool_def)
  then show ?thesis
    using pool_schedule_exact_and_smooth [OF sample_pool_built] sample_pool_built by blast
qed

theorem pool_lease_conserves_witness:
  "fst (try_lease_slots (\<lambda>_ s. (True, s)) sample_pool ()) = Some \<lparr>lease_endpoint = ''ep'', lease_index = 0\<rparr> \<and>
   pool_ok (fst (snd (try_lease_slots (\<lambda>_ s. (True, s)) sample_pool ())))"
proof -
  obtain r pool' s' where run: "try_lease_slots (\<lambda>_ s. (True, s)) sample_pool () = (r, pool', s')"
    by (metis prod_cases3)
  have "fst (try_lease_slots (\<lambda>_ s. (True, s)) sample_pool ()) = Some \<lparr>lease_endpoint = ''ep'', lease_index = 0\<rparr>"
    by code_simp
  then show ?thesis using pool_lease_conserves [OF sample_pool_ok run] run by simp
qed

theorem pool_lease_complete_witness:
  "fst (try_lease_eligible_at 70 (\<lambda>c s. (c \<noteq> ''b'', s)) sample_pool ())
     = Some \<lparr>lease_endpoint = ''ep'', lease_index = 2\<rparr> \<and>
   available (\<lambda>c. unexpired 70 c \<and> credential_id c \<noteq> ''b'') sample_pool 2"
proof -
  obtain r pool' s' where
    run: "try_lease_eligible_at 70 (\<lambda>c s. (c \<noteq> ''b'', s)) sample_pool () = (r, pool', s')"
    by (metis prod_cases3)
  have "fst (try_lease_eligible_at 70 (\<lambda>c s. (c \<noteq> ''b'', s)) sample_pool ())
     = Some \<lparr>lease_endpoint = ''ep'', lease_index = 2\<rparr>"
    by code_simp
  then show ?thesis using pool_lease_complete [OF sample_pool_ok sample_pool_low run] run by simp
qed

definition three_equal :: "64 word \<Rightarrow> endpoint_credential_pool" where
  "three_equal cursor =
     \<lparr>pool_endpoint_id = ''ep'',
      credentials = [sample_slot ''a'' 0 1 None, sample_slot ''b'' 0 1 None, sample_slot ''c'' 0 1 None],
      priority_tiers = [\<lparr>tier_priority = 0, slot_indexes = [0, 1, 2]\<rparr>], cursors = [cursor]\<rparr>"

lemma three_equal_built:
  "pool_try_new ''ep'' [sample_entry ''a'' 0 1 None, sample_entry ''b'' 0 1 None, sample_entry ''c'' 0 1 None]
    = Inr (three_equal 0)"
  by code_simp

text \<open>
  When a cursor wraps inside a scan the search can miss a credential: in a pool of three equal
  credentials whose cursor is \<open>2 ^ 64 - 1\<close> and where only the third is eligible, \<open>try_lease_eligible\<close>
  returns no lease although that credential is idle. (The offset is added with \<open>wrapping_add\<close> before
  the remainder is taken, and 3 does not divide \<open>2 ^ 64\<close>.)
\<close>

lemma pool_lease_misses_at_wrap:
  "pool_ok (three_equal (- 1)) \<and> available (\<lambda>c. credential_id c = ''c'') (three_equal (- 1)) 2 \<and>
   fst (try_lease_eligible (\<lambda>c s. (c = ''c'', s)) (three_equal (- 1)) ()) = None"
proof (intro conjI)
  show "pool_ok (three_equal (- 1))"
  proof -
    have "three_equal (- 1) = (three_equal 0)\<lparr>cursors := [- 1]\<rparr>" by (simp add: three_equal_def)
    moreover have "length (cursors (three_equal 0)) = 1" by (simp add: three_equal_def)
    ultimately show ?thesis using pool_try_new_ok [OF three_equal_built] by (simp add: pool_ok_def)
  qed
  show "available (\<lambda>c. credential_id c = ''c'') (three_equal (- 1)) 2" by code_simp
  show "fst (try_lease_eligible (\<lambda>c s. (c = ''c'', s)) (three_equal (- 1)) ()) = None" by code_simp
qed

end
