(* ===== verification/Runtime_Quota.thy ===== *)
theory Runtime_Quota
  imports Sharded_Registry Gateway_Core
begin

text \<open>
  The runtime quota registry (\<open>src/crates/gateway-router/src/runtime_quota.rs\<close>): validated quota
  snapshots per binding or model, rate-limit observations, and recovery tickets that are the only way
  back to ordinary scheduling after an exhausted window. Operations take the reading of the
  registry's clock as an argument.
\<close>

section \<open>Targets, windows and snapshots\<close>

datatype runtime_quota_target =
    EndpointCredentialTarget string string
  | EndpointCredentialModelTarget string string string

fun quota_target_rank :: "runtime_quota_target \<Rightarrow> nat \<times> string \<times> string \<times> string" where
  "quota_target_rank (EndpointCredentialTarget e c) = (0, e, c, [])"
| "quota_target_rank (EndpointCredentialModelTarget e c m) = (1, e, c, m)"

lemma quota_target_rank_inj: "quota_target_rank a = quota_target_rank b \<Longrightarrow> a = b"
  by (cases a; cases b) auto

instantiation runtime_quota_target :: linorder
begin

definition less_eq_runtime_quota_target :: "runtime_quota_target \<Rightarrow> runtime_quota_target \<Rightarrow> bool" where
  "less_eq_runtime_quota_target a b \<longleftrightarrow> quota_target_rank a \<le> quota_target_rank b"

definition less_runtime_quota_target :: "runtime_quota_target \<Rightarrow> runtime_quota_target \<Rightarrow> bool" where
  "less_runtime_quota_target a b \<longleftrightarrow> quota_target_rank a < quota_target_rank b"

instance
  by standard (auto simp: less_eq_runtime_quota_target_def less_runtime_quota_target_def less_le_not_le
      dest: quota_target_rank_inj)

end

datatype runtime_quota_target_error = EmptyUpstreamModel

definition quota_target_model :: "string \<Rightarrow> string \<Rightarrow> string \<Rightarrow> runtime_quota_target_error + runtime_quota_target" where
  "quota_target_model e c m =
     (if m = [] then Err EmptyUpstreamModel else Ok (EndpointCredentialModelTarget e c m))"

fun quota_target_endpoint_id :: "runtime_quota_target \<Rightarrow> string" where
  "quota_target_endpoint_id (EndpointCredentialTarget e _) = e"
| "quota_target_endpoint_id (EndpointCredentialModelTarget e _ _) = e"

fun quota_target_credential_id :: "runtime_quota_target \<Rightarrow> string" where
  "quota_target_credential_id (EndpointCredentialTarget _ c) = c"
| "quota_target_credential_id (EndpointCredentialModelTarget _ c _) = c"

fun quota_target_upstream_model :: "runtime_quota_target \<Rightarrow> string option" where
  "quota_target_upstream_model (EndpointCredentialTarget _ _) = None"
| "quota_target_upstream_model (EndpointCredentialModelTarget _ _ m) = Some m"

datatype quota_source = HeaderSource | BillingSource | RestSource | GrpcSource | EstimatedSource

datatype quota_confidence = AuthoritativeConfidence | ObservedConfidence | EstimatedConfidence

record quota_window =
  qw_label :: string
  qw_limit :: "u64 option"
  qw_remaining :: "u64 option"
  qw_reset_at_ms :: "i64 option"

datatype quota_window_error = EmptyLabel | LabelTooLong | RemainingExceedsLimit

definition max_quota_window_label_bytes :: usize where
  "max_quota_window_label_bytes = 64"

definition max_quota_windows_per_snapshot :: usize where
  "max_quota_windows_per_snapshot = 8"

definition quota_window_try_new ::
  "string \<Rightarrow> u64 option \<Rightarrow> u64 option \<Rightarrow> i64 option \<Rightarrow> quota_window_error + quota_window" where
  "quota_window_try_new label limit remaining reset_at =
     (if label = [] then Err EmptyLabel
      else if max_quota_window_label_bytes < length label then Err LabelTooLong
      else if (case (limit, remaining) of (Some l, Some r) \<Rightarrow> l < r | _ \<Rightarrow> False) then Err RemainingExceedsLimit
      else Ok \<lparr>qw_label = label, qw_limit = limit, qw_remaining = remaining, qw_reset_at_ms = reset_at\<rparr>)"

definition window_is_exhausted :: "quota_window \<Rightarrow> bool" where
  "window_is_exhausted w \<longleftrightarrow> qw_remaining w = Some 0"

record quota_snapshot =
  qs_target :: runtime_quota_target
  qs_windows :: "quota_window list"
  qs_source :: quota_source
  qs_confidence :: quota_confidence
  qs_observed_at_ms :: i64

datatype quota_snapshot_error =
    TooManyWindows
  | DuplicateWindowLabel
  | ExhaustedWindowWithoutFutureReset
  | EstimatedSourceConfidenceMismatch

text \<open>\<open>for window in &windows\<close> of \<open>QuotaSnapshot::try_new\<close>, with the labels seen so far.\<close>

fun check_windows :: "i64 \<Rightarrow> string set \<Rightarrow> quota_window list \<Rightarrow> quota_snapshot_error + unit" where
  "check_windows observed labels [] = Ok ()"
| "check_windows observed labels (w # ws) =
     (if qw_label w \<in> labels then Err DuplicateWindowLabel
      else if window_is_exhausted w \<and> (case qw_reset_at_ms w of None \<Rightarrow> True | Some r \<Rightarrow> r \<le> observed)
      then Err ExhaustedWindowWithoutFutureReset
      else check_windows observed (insert (qw_label w) labels) ws)"

definition quota_snapshot_try_new ::
  "runtime_quota_target \<Rightarrow> quota_window list \<Rightarrow> quota_source \<Rightarrow> quota_confidence \<Rightarrow> i64 \<Rightarrow>
     quota_snapshot_error + quota_snapshot" where
  "quota_snapshot_try_new target windows source confidence observed =
     (if max_quota_windows_per_snapshot < length windows then Err TooManyWindows
      else (case check_windows observed {} windows of
              Inl e \<Rightarrow> Err e
            | Inr _ \<Rightarrow>
                if (source = EstimatedSource) \<noteq> (confidence = EstimatedConfidence)
                then Err EstimatedSourceConfidenceMismatch
                else Ok \<lparr>qs_target = target, qs_windows = windows, qs_source = source,
                         qs_confidence = confidence, qs_observed_at_ms = observed\<rparr>))"

text \<open>\<open>filter\<close>, \<open>filter_map\<close> and \<open>max\<close> over the windows.\<close>

definition blocking_reset_at_ms :: "quota_snapshot \<Rightarrow> i64 option" where
  "blocking_reset_at_ms s =
     (case List.map_filter qw_reset_at_ms (filter window_is_exhausted (qs_windows s)) of
        [] \<Rightarrow> None
      | r # rs \<Rightarrow> Some (fold max rs r))"

section \<open>The registry\<close>

datatype runtime_quota_availability =
    QuotaAvailable
  | QuotaExhausted i64
  | QuotaRecoveryRequired i64
  | QuotaRecoveryProbeInFlight i64 i64

definition quota_is_available :: "runtime_quota_availability \<Rightarrow> bool" where
  "quota_is_available a \<longleftrightarrow> a = QuotaAvailable"

record runtime_quota_status_snapshot =
  qst_availability :: runtime_quota_availability
  qst_snapshot :: "quota_snapshot option"

record runtime_quota_recovery_probe =
  qp_target :: runtime_quota_target
  qp_probe_id :: u64
  qp_expires_at_ms :: i64

datatype runtime_quota_error =
    QuotaClockUnavailable
  | QuotaShardLockPoisoned
  | QuotaShardCapacityExceeded
  | ObservationTimeRegressed
  | RecoveryProbeDeadlineNotInFuture
  | RecoveryProbeIdOverflow
  | StaleRecoveryProbe
  | RecoverySnapshotTargetMismatch
  | FallbackDurationOverflow
  | FallbackDurationNotPositive

record quota_probe_state =
  qps_probe_id :: u64
  qps_expires_at_ms :: i64

record runtime_quota_state =
  qe_snapshot :: quota_snapshot
  qe_recovery_probe :: "quota_probe_state option"

definition quota_state_availability_at :: "runtime_quota_state \<Rightarrow> i64 \<Rightarrow> runtime_quota_availability" where
  "quota_state_availability_at st now =
     (case blocking_reset_at_ms (qe_snapshot st) of
        None \<Rightarrow> QuotaAvailable
      | Some reset_at \<Rightarrow>
          if now < reset_at then QuotaExhausted reset_at
          else (case qe_recovery_probe st of
                  Some probe \<Rightarrow>
                    if now < qps_expires_at_ms probe
                    then QuotaRecoveryProbeInFlight reset_at (qps_expires_at_ms probe)
                    else QuotaRecoveryRequired reset_at
                | None \<Rightarrow> QuotaRecoveryRequired reset_at))"

type_synonym quota_states = "(runtime_quota_target, runtime_quota_state) bmap"

record runtime_quota_registry =
  qr_shards :: "(runtime_quota_target, runtime_quota_state) shards"
  qr_next_recovery_probe_id :: u64

definition default_runtime_quota_shard_count :: usize where
  "default_runtime_quota_shard_count = 64"

definition max_runtime_quota_shard_count :: usize where
  "max_runtime_quota_shard_count = 1024"

definition max_runtime_quota_entries_per_shard :: usize where
  "max_runtime_quota_entries_per_shard = 1024"

definition quota_registry_new :: runtime_quota_registry where
  "quota_registry_new =
     \<lparr>qr_shards = build_shards default_runtime_quota_shard_count, qr_next_recovery_probe_id = 1\<rparr>"

definition quota_registry_try_with_shards :: "usize \<Rightarrow> shard_count_error + runtime_quota_registry" where
  "quota_registry_try_with_shards n =
     (case validate_shard_count max_runtime_quota_shard_count n of
        Inl e \<Rightarrow> Err e
      | Inr _ \<Rightarrow> Ok \<lparr>qr_shards = build_shards n, qr_next_recovery_probe_id = 1\<rparr>)"

definition quota_store ::
  "runtime_quota_target hasher \<Rightarrow> runtime_quota_target \<Rightarrow> quota_states \<Rightarrow> runtime_quota_registry \<Rightarrow>
     runtime_quota_registry" where
  "quota_store hash k states reg = reg\<lparr>qr_shards := store_shard hash k states (qr_shards reg)\<rparr>"

definition quota_ensure_insert_capacity ::
  "quota_states \<Rightarrow> i64 \<Rightarrow> (runtime_quota_error + unit) \<times> quota_states" where
  "quota_ensure_insert_capacity states now =
     (if length states < max_runtime_quota_entries_per_shard then (Ok (), states)
      else (let states' = bm_retain (\<lambda>_ st. \<not> quota_is_available (quota_state_availability_at st now)) states in
            if max_runtime_quota_entries_per_shard \<le> length states' then (Err QuotaShardCapacityExceeded, states')
            else (Ok (), states')))"

definition record_snapshot ::
  "runtime_quota_target hasher \<Rightarrow> clock_reading \<Rightarrow> quota_snapshot \<Rightarrow> runtime_quota_registry \<Rightarrow>
     (runtime_quota_error + quota_snapshot) \<times> runtime_quota_registry" where
  "record_snapshot hash clock snapshot reg =
     (let target = qs_target snapshot; st = \<lparr>qe_snapshot = snapshot, qe_recovery_probe = None\<rparr> in
      case clock of
        None \<Rightarrow> (Err QuotaClockUnavailable, reg)
      | Some now \<Rightarrow>
     (case lock_shard hash (qr_shards reg) target of
        None \<Rightarrow> (Err QuotaShardLockPoisoned, reg)
      | Some states \<Rightarrow>
     (case bm_get states target of
        Some previous \<Rightarrow>
          if qs_observed_at_ms snapshot < qs_observed_at_ms (qe_snapshot previous)
          then (Err ObservationTimeRegressed, reg)
          else (Ok snapshot, quota_store hash target (bm_insert target st states) reg)
      | None \<Rightarrow>
     (case quota_ensure_insert_capacity states now of
        (Inl e, states') \<Rightarrow> (Err e, quota_store hash target states' reg)
      | (Inr _, states') \<Rightarrow> (Ok snapshot, quota_store hash target (bm_insert target st states') reg)))))"

definition add_duration_to_timestamp :: "i64 \<Rightarrow> duration \<Rightarrow> runtime_quota_error + i64" where
  "add_duration_to_timestamp now d =
     (case i64_of_unsigned (as_millis d) of
        None \<Rightarrow> Err FallbackDurationOverflow
      | Some ms \<Rightarrow> ok_or FallbackDurationOverflow (checked_add_i64 now ms))"

definition rate_limit_evidence ::
  "duration option \<Rightarrow> duration \<Rightarrow> duration \<times> quota_source \<times> quota_confidence" where
  "rate_limit_evidence retry_after fallback =
     (case retry_after of
        Some d \<Rightarrow> if d \<noteq> 0 then (d, HeaderSource, ObservedConfidence) else (fallback, EstimatedSource, EstimatedConfidence)
      | None \<Rightarrow> (fallback, EstimatedSource, EstimatedConfidence))"

definition record_rate_limited ::
  "runtime_quota_target hasher \<Rightarrow> clock_reading \<Rightarrow> runtime_quota_target \<Rightarrow> i64 \<Rightarrow> duration option \<Rightarrow> duration \<Rightarrow>
     runtime_quota_registry \<Rightarrow> (runtime_quota_error + quota_snapshot) \<times> runtime_quota_registry" where
  "record_rate_limited hash clock target observed retry_after fallback reg =
     (let (d, source, confidence) = rate_limit_evidence retry_after fallback in
      if d = 0 then (Err FallbackDurationNotPositive, reg)
      else
     (case add_duration_to_timestamp observed d of
        Inl e \<Rightarrow> (Err e, reg)
      | Inr reset_at \<Rightarrow>
     (case quota_window_try_new ''rate_limit'' None (Some 0) (Some reset_at) of
        Inl _ \<Rightarrow> (Err FallbackDurationOverflow, reg)
      | Inr window \<Rightarrow>
     (case quota_snapshot_try_new target [window] source confidence observed of
        Inl _ \<Rightarrow> (Err FallbackDurationOverflow, reg)
      | Inr snapshot \<Rightarrow> record_snapshot hash clock snapshot reg))))"

definition quota_get_snapshot ::
  "runtime_quota_target hasher \<Rightarrow> runtime_quota_registry \<Rightarrow> runtime_quota_target \<Rightarrow>
     runtime_quota_error + quota_snapshot option" where
  "quota_get_snapshot hash reg target =
     (case lock_shard hash (qr_shards reg) target of
        None \<Rightarrow> Err QuotaShardLockPoisoned
      | Some states \<Rightarrow> Ok (map_option qe_snapshot (bm_get states target)))"

definition quota_availability_at ::
  "runtime_quota_target hasher \<Rightarrow> runtime_quota_registry \<Rightarrow> runtime_quota_target \<Rightarrow> i64 \<Rightarrow>
     runtime_quota_error + runtime_quota_availability" where
  "quota_availability_at hash reg target now =
     (case lock_shard hash (qr_shards reg) target of
        None \<Rightarrow> Err QuotaShardLockPoisoned
      | Some states \<Rightarrow>
          Ok (case bm_get states target of None \<Rightarrow> QuotaAvailable | Some st \<Rightarrow> quota_state_availability_at st now))"

definition quota_availability ::
  "runtime_quota_target hasher \<Rightarrow> runtime_quota_registry \<Rightarrow> runtime_quota_target \<Rightarrow> clock_reading \<Rightarrow>
     runtime_quota_error + runtime_quota_availability" where
  "quota_availability hash reg target clock =
     (case clock of None \<Rightarrow> Err QuotaClockUnavailable | Some now \<Rightarrow> quota_availability_at hash reg target now)"

definition quota_status_at ::
  "runtime_quota_target hasher \<Rightarrow> runtime_quota_registry \<Rightarrow> runtime_quota_target \<Rightarrow> i64 \<Rightarrow>
     runtime_quota_error + runtime_quota_status_snapshot" where
  "quota_status_at hash reg target now =
     (case lock_shard hash (qr_shards reg) target of
        None \<Rightarrow> Err QuotaShardLockPoisoned
      | Some states \<Rightarrow>
          (case bm_get states target of
             None \<Rightarrow> Ok \<lparr>qst_availability = QuotaAvailable, qst_snapshot = None\<rparr>
           | Some st \<Rightarrow> Ok \<lparr>qst_availability = quota_state_availability_at st now, qst_snapshot = Some (qe_snapshot st)\<rparr>))"

definition quota_available ::
  "runtime_quota_target hasher \<Rightarrow> runtime_quota_registry \<Rightarrow> runtime_quota_target \<Rightarrow> clock_reading \<Rightarrow> bool" where
  "quota_available hash reg target clock =
     (case quota_availability hash reg target clock of Inl _ \<Rightarrow> False | Inr a \<Rightarrow> quota_is_available a)"

definition quota_endpoint_credential_is_available ::
  "runtime_quota_target hasher \<Rightarrow> runtime_quota_registry \<Rightarrow> string \<Rightarrow> string \<Rightarrow> clock_reading \<Rightarrow> bool" where
  "quota_endpoint_credential_is_available hash reg e c clock =
     quota_available hash reg (EndpointCredentialTarget e c) clock"

definition quota_endpoint_credential_model_is_available ::
  "runtime_quota_target hasher \<Rightarrow> runtime_quota_registry \<Rightarrow> string \<Rightarrow> string \<Rightarrow> string \<Rightarrow> clock_reading \<Rightarrow> bool" where
  "quota_endpoint_credential_model_is_available hash reg e c m clock =
     (case quota_target_model e c m of Inl _ \<Rightarrow> False | Inr target \<Rightarrow> quota_available hash reg target clock)"

definition next_recovery_probe_id :: "u64 \<Rightarrow> (runtime_quota_error + u64) \<times> u64" where
  "next_recovery_probe_id current =
     (case checked_add_u64 current 1 of
        None \<Rightarrow> (Err RecoveryProbeIdOverflow, current)
      | Some next \<Rightarrow> if next \<noteq> 0 then (Ok current, next) else (Err RecoveryProbeIdOverflow, current))"

definition begin_recovery_probe ::
  "runtime_quota_target hasher \<Rightarrow> clock_reading \<Rightarrow> runtime_quota_target \<Rightarrow> i64 \<Rightarrow> runtime_quota_registry \<Rightarrow>
     (runtime_quota_error + runtime_quota_recovery_probe option) \<times> runtime_quota_registry" where
  "begin_recovery_probe hash clock target expires reg =
     (case clock of
        None \<Rightarrow> (Err QuotaClockUnavailable, reg)
      | Some now \<Rightarrow>
          if expires \<le> now then (Err RecoveryProbeDeadlineNotInFuture, reg)
          else
     (case lock_shard hash (qr_shards reg) target of
        None \<Rightarrow> (Err QuotaShardLockPoisoned, reg)
      | Some states \<Rightarrow>
     (case bm_get states target of
        None \<Rightarrow> (Ok None, reg)
      | Some st \<Rightarrow>
     (case blocking_reset_at_ms (qe_snapshot st) of
        None \<Rightarrow> (Ok None, reg)
      | Some reset_at \<Rightarrow>
          if now < reset_at then (Ok None, reg)
          else if (case qe_recovery_probe st of None \<Rightarrow> False | Some p \<Rightarrow> now < qps_expires_at_ms p) then (Ok None, reg)
          else
     (case next_recovery_probe_id (qr_next_recovery_probe_id reg) of
        (Inl e, _) \<Rightarrow> (Err e, reg)
      | (Inr probe_id, next) \<Rightarrow>
          (Ok (Some \<lparr>qp_target = target, qp_probe_id = probe_id, qp_expires_at_ms = expires\<rparr>),
           quota_store hash target
             (bm_insert target
                (st\<lparr>qe_recovery_probe := Some \<lparr>qps_probe_id = probe_id, qps_expires_at_ms = expires\<rparr>\<rparr>) states)
             (reg\<lparr>qr_next_recovery_probe_id := next\<rparr>)))))))"

definition complete_recovery_probe ::
  "runtime_quota_target hasher \<Rightarrow> clock_reading \<Rightarrow> runtime_quota_recovery_probe \<Rightarrow> quota_snapshot \<Rightarrow>
     runtime_quota_registry \<Rightarrow> (runtime_quota_error + quota_snapshot) \<times> runtime_quota_registry" where
  "complete_recovery_probe hash clock probe snapshot reg =
     (let target = qp_target probe in
      if target \<noteq> qs_target snapshot then (Err RecoverySnapshotTargetMismatch, reg)
      else
     (case clock of
        None \<Rightarrow> (Err QuotaClockUnavailable, reg)
      | Some now \<Rightarrow>
     (case lock_shard hash (qr_shards reg) target of
        None \<Rightarrow> (Err QuotaShardLockPoisoned, reg)
      | Some states \<Rightarrow>
     (case bm_get states target of
        None \<Rightarrow> (Err StaleRecoveryProbe, reg)
      | Some st \<Rightarrow>
     (case qe_recovery_probe st of
        None \<Rightarrow> (Err StaleRecoveryProbe, reg)
      | Some current \<Rightarrow>
          if qps_probe_id current \<noteq> qp_probe_id probe \<or> qps_expires_at_ms current \<noteq> qp_expires_at_ms probe \<or>
             qps_expires_at_ms current \<le> now \<or>
             qs_observed_at_ms snapshot < qs_observed_at_ms (qe_snapshot st)
          then (Err StaleRecoveryProbe, reg)
          else (Ok snapshot,
                quota_store hash target
                  (bm_insert target \<lparr>qe_snapshot = snapshot, qe_recovery_probe = None\<rparr> states) reg))))))"

definition quota_entry_count :: "runtime_quota_registry \<Rightarrow> runtime_quota_error + usize" where
  "quota_entry_count reg = ok_or QuotaShardLockPoisoned (count_entries (qr_shards reg) 0)"

section \<open>Snapshots\<close>

lemma check_windows_ok:
  "check_windows observed labels ws = Inr () \<longleftrightarrow>
     distinct (map qw_label ws) \<and> labels \<inter> qw_label ` set ws = {} \<and>
     (\<forall>w \<in> set ws. window_is_exhausted w \<longrightarrow> (\<exists>r. qw_reset_at_ms w = Some r \<and> observed < r))"
proof (induction ws arbitrary: labels)
  case (Cons w ws)
  show ?case by (auto simp: Cons.IH split: option.splits)
qed simp

lemma fold_max_ge: "x \<le> fold max xs (x :: int)" "\<forall>y \<in> set xs. y \<le> fold max xs x" "fold max xs x \<in> insert x (set xs)"
proof (induction xs arbitrary: x)
  case (Cons y xs)
  { case 1 show ?case using Cons.IH(1) [of "max y x"] by simp }
  { case 2 show ?case using Cons.IH(1,2) [of "max y x"] by auto }
  { case 3 show ?case using Cons.IH(3) [of "max y x"] by (auto simp: max_def) }
qed simp_all

lemma map_filter_Nil: "List.map_filter f xs = [] \<longleftrightarrow> (\<forall>x \<in> set xs. f x = None)"
  by (induction xs) (auto simp: map_filter_simps split: option.splits)

lemma blocking_reset_None:
  "blocking_reset_at_ms s = None \<longleftrightarrow>
     (\<forall>w \<in> set (qs_windows s). window_is_exhausted w \<longrightarrow> qw_reset_at_ms w = None)"
proof -
  have "blocking_reset_at_ms s = None \<longleftrightarrow>
      List.map_filter qw_reset_at_ms (filter window_is_exhausted (qs_windows s)) = []"
    by (simp add: blocking_reset_at_ms_def split: list.splits)
  then show ?thesis by (auto simp: map_filter_Nil)
qed

lemma map_filter_set: "x \<in> set (List.map_filter f xs) \<longleftrightarrow> (\<exists>y \<in> set xs. f y = Some x)"
  by (induction xs) (auto simp: map_filter_simps split: option.splits)

lemma blocking_reset_Some:
  assumes "blocking_reset_at_ms s = Some r"
  shows "(\<exists>w \<in> set (qs_windows s). window_is_exhausted w \<and> qw_reset_at_ms w = Some r) \<and>
    (\<forall>w \<in> set (qs_windows s). window_is_exhausted w \<longrightarrow> (\<forall>x. qw_reset_at_ms w = Some x \<longrightarrow> x \<le> r))"
proof -
  let ?rs = "List.map_filter qw_reset_at_ms (filter window_is_exhausted (qs_windows s))"
  obtain x xs where rs: "?rs = x # xs" "r = fold max xs x"
    using assms by (auto simp: blocking_reset_at_ms_def split: list.splits)
  have "r \<in> set ?rs" "\<forall>y \<in> set ?rs. y \<le> r" using fold_max_ge [where x = x and xs = xs] by (simp_all add: rs)
  then show ?thesis by (auto simp: map_filter_set)
qed

text \<open>
  C38: \<open>QuotaSnapshot::try_new\<close> accepts exactly at most eight windows with pairwise different labels,
  each exhausted one with a reset after the observation, and estimated evidence exactly from an
  estimated source; for an accepted snapshot the blocking reset is the latest reset of its exhausted
  windows, lies after the observation, and exists exactly when some window is exhausted.
\<close>

theorem quota_snapshot_accepts_exactly:
  "(quota_snapshot_try_new target ws source confidence observed = Inr s \<longleftrightarrow>
      s = \<lparr>qs_target = target, qs_windows = ws, qs_source = source, qs_confidence = confidence, qs_observed_at_ms = observed\<rparr> \<and>
      length ws \<le> 8 \<and> distinct (map qw_label ws) \<and>
      list_all (\<lambda>w. \<exists>r. qw_reset_at_ms w = Some r \<and> observed < r) (filter window_is_exhausted ws) \<and>
      (source = EstimatedSource) = (confidence = EstimatedConfidence)) \<and>
   (quota_snapshot_try_new target ws source confidence observed = Inr s \<longrightarrow>
      (case blocking_reset_at_ms s of
         None \<Rightarrow> \<not> list_ex window_is_exhausted ws
       | Some r \<Rightarrow> observed < r \<and> list_ex (\<lambda>w. window_is_exhausted w \<and> qw_reset_at_ms w = Some r) ws \<and>
           list_all (\<lambda>w. the (qw_reset_at_ms w) \<le> r) (filter window_is_exhausted ws)))"
  (is "(?new = Inr s \<longleftrightarrow> ?valid) \<and> (_ \<longrightarrow> ?blocking)")
proof (intro conjI impI)
  show "?new = Inr s \<longleftrightarrow> ?valid"
    using check_windows_ok [of observed "{}" ws]
    by (auto simp: quota_snapshot_try_new_def max_quota_windows_per_snapshot_def list_all_iff split: if_splits sum.splits)
  assume new: "?new = Inr s"
  then have s: "qs_windows s = ws" and win: "\<forall>w \<in> set ws. window_is_exhausted w \<longrightarrow> (\<exists>r. qw_reset_at_ms w = Some r \<and> observed < r)"
    using check_windows_ok [of observed "{}" ws]
    by (auto simp: quota_snapshot_try_new_def split: if_splits sum.splits)
  show ?blocking
  proof (cases "blocking_reset_at_ms s")
    case None
    then have "\<forall>w \<in> set ws. \<not> window_is_exhausted w" using win by (fastforce simp: blocking_reset_None s)
    then show ?thesis using None by (simp add: list_ex_iff)
  next
    case (Some r)
    from blocking_reset_Some [OF Some]
    have r: "\<exists>w \<in> set ws. window_is_exhausted w \<and> qw_reset_at_ms w = Some r"
      "\<forall>w \<in> set ws. window_is_exhausted w \<longrightarrow> (\<forall>x. qw_reset_at_ms w = Some x \<longrightarrow> x \<le> r)" by (simp_all add: s)
    have lt: "observed < r" using r(1) win by fastforce
    have "the (qw_reset_at_ms w) \<le> r" if "w \<in> set ws" "window_is_exhausted w" for w
      using r(2) win that by fastforce
    then show ?thesis using Some lt r(1) by (simp add: list_ex_iff list_all_iff)
  qed
qed

section \<open>One operation seen from one target\<close>

datatype quota_op =
    QRecord quota_snapshot
  | QRateLimited runtime_quota_target i64 "duration option" duration
  | QBegin runtime_quota_target i64
  | QComplete runtime_quota_recovery_probe quota_snapshot

fun quota_exec ::
  "runtime_quota_target hasher \<Rightarrow> clock_reading \<times> quota_op \<Rightarrow> runtime_quota_registry \<Rightarrow> runtime_quota_registry" where
  "quota_exec hash (clock, QRecord s) reg = snd (record_snapshot hash clock s reg)"
| "quota_exec hash (clock, QRateLimited t observed ra fb) reg = snd (record_rate_limited hash clock t observed ra fb reg)"
| "quota_exec hash (clock, QBegin t x) reg = snd (begin_recovery_probe hash clock t x reg)"
| "quota_exec hash (clock, QComplete p s) reg = snd (complete_recovery_probe hash clock p s reg)"

definition quota_get ::
  "runtime_quota_target hasher \<Rightarrow> runtime_quota_registry \<Rightarrow> runtime_quota_target \<Rightarrow> runtime_quota_state option" where
  "quota_get hash reg = shards_get hash (qr_shards reg)"

definition quota_shards_ok :: "runtime_quota_target hasher \<Rightarrow> runtime_quota_registry \<Rightarrow> bool" where
  "quota_shards_ok hash reg \<longleftrightarrow> shards_ok max_runtime_quota_entries_per_shard hash (qr_shards reg)"

text \<open>Only entries that block nothing are reclaimed.\<close>

definition unblocking :: "runtime_quota_state \<Rightarrow> bool" where
  "unblocking st \<longleftrightarrow> blocking_reset_at_ms (qe_snapshot st) = None"

lemma quota_available_unblocking: "quota_is_available (quota_state_availability_at st now) \<longleftrightarrow> unblocking st"
  by (auto simp: quota_is_available_def quota_state_availability_at_def unblocking_def split: option.splits)

text \<open>
  The registry after an operation: the entry of some target is unchanged, replaced by a snapshot
  without a ticket, or given the next ticket; every other target loses at most an unblocking entry.
\<close>

inductive quota_effect ::
  "runtime_quota_target hasher \<Rightarrow> quota_snapshot option \<Rightarrow> runtime_quota_registry \<Rightarrow> runtime_quota_registry \<Rightarrow> bool"
  for hash where
  keep: "quota_shards_ok hash reg' \<Longrightarrow> qr_next_recovery_probe_id reg' = qr_next_recovery_probe_id reg \<Longrightarrow>
    entry_effect unblocking k (quota_get hash reg k) (quota_get hash reg) (quota_get hash reg') \<Longrightarrow>
    quota_effect hash installed reg reg'"
| install: "quota_shards_ok hash reg' \<Longrightarrow> qr_next_recovery_probe_id reg' = qr_next_recovery_probe_id reg \<Longrightarrow>
    entry_effect unblocking (qs_target s) (Some \<lparr>qe_snapshot = s, qe_recovery_probe = None\<rparr>)
      (quota_get hash reg) (quota_get hash reg') \<Longrightarrow>
    quota_effect hash (Some s) reg reg'"
| ticket: "quota_shards_ok hash reg' \<Longrightarrow> qr_next_recovery_probe_id reg' = qr_next_recovery_probe_id reg + 1 \<Longrightarrow>
    quota_get hash reg k = Some st \<Longrightarrow>
    entry_effect unblocking k
      (Some (st\<lparr>qe_recovery_probe := Some \<lparr>qps_probe_id = qr_next_recovery_probe_id reg, qps_expires_at_ms = x\<rparr>\<rparr>))
      (quota_get hash reg) (quota_get hash reg') \<Longrightarrow>
    quota_effect hash None reg reg'"

text \<open>The snapshot an operation installs when it succeeds.\<close>

fun quota_installs :: "quota_op \<Rightarrow> quota_snapshot option" where
  "quota_installs (QRecord s) = Some s"
| "quota_installs (QRateLimited t observed ra fb) =
     (case rate_limit_evidence ra fb of (d, source, confidence) \<Rightarrow>
        Some \<lparr>qs_target = t,
          qs_windows = [\<lparr>qw_label = ''rate_limit'', qw_limit = None, qw_remaining = Some 0,
            qw_reset_at_ms = Some (observed + int (as_millis d))\<rparr>],
          qs_source = source, qs_confidence = confidence, qs_observed_at_ms = observed\<rparr>)"
| "quota_installs (QBegin _ _) = None"
| "quota_installs (QComplete _ s) = Some s"

lemma quota_effect_same: "quota_shards_ok hash reg \<Longrightarrow> quota_effect hash installed reg reg"
  by (rule quota_effect.keep [OF _ refl entry_effect_refl])

lemma lock_quota_get: "lock_shard hash (qr_shards reg) k = Some m \<Longrightarrow> bm_get m k = quota_get hash reg k"
  by (simp add: quota_get_def lock_shard_get)

lemma quota_put:
  assumes ok: "quota_shards_ok hash reg" and m: "lock_shard hash (qr_shards reg) k = Some m"
    and old: "quota_get hash reg k \<noteq> None" and r: "qr_shards r = qr_shards reg"
  shows "quota_shards_ok hash (quota_store hash k (bm_insert k v m) r)"
    "entry_effect unblocking k (Some v) (quota_get hash reg) (quota_get hash (quota_store hash k (bm_insert k v m) r))"
proof -
  have room: "shards_get hash (qr_shards reg) k \<noteq> None \<or> length m < max_runtime_quota_entries_per_shard"
    using old by (simp add: quota_get_def)
  note st = store_insert [OF ok [unfolded quota_shards_ok_def] m room]
  show "quota_shards_ok hash (quota_store hash k (bm_insert k v m) r)"
    using st(1) r by (simp add: quota_shards_ok_def quota_store_def)
  show "entry_effect unblocking k (Some v) (quota_get hash reg) (quota_get hash (quota_store hash k (bm_insert k v m) r))"
    using st(2) r by (simp add: quota_get_def quota_store_def)
qed

lemma record_snapshot_effect:
  assumes ok: "quota_shards_ok hash reg"
  shows "quota_effect hash (Some s) reg (snd (record_snapshot hash clock s reg))"
proof (cases "\<exists>now m. clock = Some now \<and> lock_shard hash (qr_shards reg) (qs_target s) = Some m")
  case False
  then have "snd (record_snapshot hash clock s reg) = reg" by (auto simp: record_snapshot_def Let_def split: option.splits)
  then show ?thesis using quota_effect_same [OF ok] by simp
next
  case True
  then obtain now m where c: "clock = Some now" and m: "lock_shard hash (qr_shards reg) (qs_target s) = Some m" by blast
  let ?k = "qs_target s" and ?st = "\<lparr>qe_snapshot = s, qe_recovery_probe = None\<rparr>"
  let ?keep = "\<lambda>_ st. \<not> quota_is_available (quota_state_availability_at st now)"
  note get = lock_quota_get [OF m] and oks = ok [unfolded quota_shards_ok_def]
  have put: "quota_effect hash (Some s) reg (quota_store hash ?k (bm_insert ?k ?st m) reg)" if "quota_get hash reg ?k \<noteq> None"
    using quota_put [OF ok m that refl, where v = ?st] by (intro quota_effect.install) (simp_all add: quota_store_def)
  show ?thesis
  proof (cases "quota_get hash reg ?k")
    case (Some previous)
    then show ?thesis using put quota_effect_same [OF ok] by (simp add: record_snapshot_def Let_def c m get)
  next
    case None
    then have none: "shards_get hash (qr_shards reg) ?k = None" by (simp add: quota_get_def)
    have keep: "?keep j x \<longleftrightarrow> \<not> unblocking x" for j :: runtime_quota_target and x by (simp add: quota_available_unblocking)
    show ?thesis
    proof (cases "length m < max_runtime_quota_entries_per_shard")
      case True
      note st = store_insert [OF oks m disjI2 [OF True], where v = ?st]
      have "quota_effect hash (Some s) reg (quota_store hash ?k (bm_insert ?k ?st m) reg)"
        using st(1) st(2) [where droppable = unblocking] by (intro quota_effect.install) (simp_all add: quota_store_def quota_shards_ok_def quota_get_def)
      then show ?thesis using True by (simp add: record_snapshot_def Let_def c m get None quota_ensure_insert_capacity_def)
    next
      case False
      note st = store_retain [OF oks m none keep]
      have kept: "quota_effect hash (Some s) reg (quota_store hash ?k (bm_retain ?keep m) reg)"
        using st(1,2) none by (intro quota_effect.keep [where k = ?k]) (simp_all add: quota_store_def quota_shards_ok_def quota_get_def)
      have new: "quota_effect hash (Some s) reg (quota_store hash ?k (bm_insert ?k ?st (bm_retain ?keep m)) reg)"
        if "length (bm_retain ?keep m) < max_runtime_quota_entries_per_shard"
        using st(3) [OF that, where v = ?st] st(4) [where v = ?st]
        by (intro quota_effect.install) (simp_all add: quota_store_def quota_shards_ok_def quota_get_def)
      show ?thesis using False kept new
        by (simp add: record_snapshot_def Let_def c m get None quota_ensure_insert_capacity_def)
    qed
  qed
qed

text \<open>A rate-limit observation is the recording of one exhausted window, or nothing.\<close>

lemma record_rate_limited_records:
  assumes "rate_limit_evidence ra fb = (d, source, confidence)"
  shows "record_rate_limited hash clock t observed ra fb reg =
    (if d = 0 then (Inl FallbackDurationNotPositive, reg)
     else if as_millis d = 0 \<or> \<not> as_millis d < 2 ^ 63 \<or> \<not> in_i64 (observed + int (as_millis d)) then (Inl FallbackDurationOverflow, reg)
     else record_snapshot hash clock (the (quota_installs (QRateLimited t observed ra fb))) reg)"
proof -
  have conf: "(source = EstimatedSource) = (confidence = EstimatedConfidence)"
    using assms by (auto simp: rate_limit_evidence_def split: option.splits if_splits)
  show ?thesis
    using conf
    by (auto simp: record_rate_limited_def assms add_duration_to_timestamp_def i64_of_unsigned_def checked_add_i64_def
        quota_window_try_new_def max_quota_window_label_bytes_def quota_snapshot_try_new_def
        max_quota_windows_per_snapshot_def window_is_exhausted_def)
qed

lemma begin_recovery_probe_changes:
  assumes "snd (begin_recovery_probe hash clock t x reg) \<noteq> reg"
  obtains m st where "lock_shard hash (qr_shards reg) t = Some m" "bm_get m t = Some st"
    "snd (begin_recovery_probe hash clock t x reg) = quota_store hash t (bm_insert t
      (st\<lparr>qe_recovery_probe := Some \<lparr>qps_probe_id = qr_next_recovery_probe_id reg, qps_expires_at_ms = x\<rparr>\<rparr>) m)
      (reg\<lparr>qr_next_recovery_probe_id := qr_next_recovery_probe_id reg + 1\<rparr>)"
  using assms by (auto simp: begin_recovery_probe_def next_recovery_probe_id_def split: option.splits if_splits)

lemma begin_recovery_probe_effect:
  assumes ok: "quota_shards_ok hash reg"
  shows "quota_effect hash None reg (snd (begin_recovery_probe hash clock t x reg))"
proof (cases "snd (begin_recovery_probe hash clock t x reg) = reg")
  case True
  then show ?thesis using quota_effect_same [OF ok] by simp
next
  case False
  then obtain m st where m: "lock_shard hash (qr_shards reg) t = Some m" and st: "bm_get m t = Some st"
    and r: "snd (begin_recovery_probe hash clock t x reg) = quota_store hash t (bm_insert t
      (st\<lparr>qe_recovery_probe := Some \<lparr>qps_probe_id = qr_next_recovery_probe_id reg, qps_expires_at_ms = x\<rparr>\<rparr>) m)
      (reg\<lparr>qr_next_recovery_probe_id := qr_next_recovery_probe_id reg + 1\<rparr>)"
    by (rule begin_recovery_probe_changes)
  have old: "quota_get hash reg t = Some st" using lock_quota_get [OF m] st by simp
  show ?thesis unfolding r
    by (rule quota_effect.ticket [OF quota_put(1) [OF ok m] _ old quota_put(2) [OF ok m]])
      (use old in \<open>simp_all add: quota_store_def\<close>)
qed

lemma begin_recovery_probe_other:
  assumes ok: "quota_shards_ok hash reg" and j: "j \<noteq> t"
  shows "quota_get hash (snd (begin_recovery_probe hash clock t x reg)) j = quota_get hash reg j \<or>
    (\<exists>st. quota_get hash reg j = Some st \<and> unblocking st \<and> quota_get hash (snd (begin_recovery_probe hash clock t x reg)) j = None)"
proof (cases "snd (begin_recovery_probe hash clock t x reg) = reg")
  case False
  then obtain m st where m: "lock_shard hash (qr_shards reg) t = Some m" and st: "bm_get m t = Some st"
    and r: "snd (begin_recovery_probe hash clock t x reg) = quota_store hash t (bm_insert t
      (st\<lparr>qe_recovery_probe := Some \<lparr>qps_probe_id = qr_next_recovery_probe_id reg, qps_expires_at_ms = x\<rparr>\<rparr>) m)
      (reg\<lparr>qr_next_recovery_probe_id := qr_next_recovery_probe_id reg + 1\<rparr>)"
    by (rule begin_recovery_probe_changes)
  have "quota_get hash reg t \<noteq> None" using lock_quota_get [OF m] st by (metis option.distinct(1))
  from quota_put(2) [OF ok m this, of "reg\<lparr>qr_next_recovery_probe_id := qr_next_recovery_probe_id reg + 1\<rparr>"] show ?thesis
    unfolding r entry_effect_def using j by simp
qed simp

lemma complete_recovery_probe_effect:
  assumes ok: "quota_shards_ok hash reg"
  shows "quota_effect hash (Some s) reg (snd (complete_recovery_probe hash clock p s reg))"
proof (cases "snd (complete_recovery_probe hash clock p s reg) = reg")
  case True
  then show ?thesis using quota_effect_same [OF ok] by simp
next
  case False
  then obtain m st where m: "lock_shard hash (qr_shards reg) (qs_target s) = Some m" and st: "bm_get m (qs_target s) = Some st"
    and r: "snd (complete_recovery_probe hash clock p s reg) =
      quota_store hash (qs_target s) (bm_insert (qs_target s) \<lparr>qe_snapshot = s, qe_recovery_probe = None\<rparr> m) reg"
    by (auto simp: complete_recovery_probe_def Let_def split: option.splits if_splits)
  have old: "quota_get hash reg (qs_target s) = Some st" using lock_quota_get [OF m] st by simp
  show ?thesis unfolding r
    by (rule quota_effect.install) (use quota_put [OF ok m _ refl] old in \<open>simp_all add: quota_store_def\<close>)
qed

lemma quota_exec_effect:
  assumes ok: "quota_shards_ok hash reg"
  shows "quota_effect hash (quota_installs (snd cop)) reg (quota_exec hash cop reg)"
proof -
  obtain clock op where cop: "cop = (clock, op)" by fastforce
  show ?thesis
  proof (cases op)
    case (QRateLimited t observed ra fb)
    obtain d source confidence where ev: "rate_limit_evidence ra fb = (d, source, confidence)" by (metis prod_cases3)
    have "quota_effect hash (quota_installs op) reg reg" by (rule quota_effect_same [OF ok])
    moreover have "quota_effect hash (Some (the (quota_installs op))) reg
        (snd (record_snapshot hash clock (the (quota_installs op)) reg))"
      by (rule record_snapshot_effect [OF ok])
    moreover have "Some (the (quota_installs op)) = quota_installs op" by (simp add: QRateLimited ev)
    ultimately show ?thesis unfolding cop QRateLimited
      by (simp add: record_rate_limited_records [OF ev] del: quota_installs.simps)
  qed (simp_all add: cop record_snapshot_effect [OF ok] begin_recovery_probe_effect [OF ok] complete_recovery_probe_effect [OF ok])
qed

section \<open>Invariant and blocks\<close>

definition quota_ok :: "runtime_quota_target hasher \<Rightarrow> runtime_quota_registry \<Rightarrow> bool" where
  "quota_ok hash reg \<longleftrightarrow> quota_shards_ok hash reg \<and>
     (\<forall>k st p. quota_get hash reg k = Some st \<longrightarrow> qe_recovery_probe st = Some p \<longrightarrow>
        qps_probe_id p < qr_next_recovery_probe_id reg)"

lemma entry_effect_cases:
  assumes "entry_effect droppable k v g g'"
  shows "g' j = (if j = k then v else g j) \<or> j \<noteq> k \<and> (\<exists>x. g j = Some x \<and> droppable x \<and> g' j = None)"
  using assms by (auto simp: entry_effect_def)

inductive_cases quota_effectE: "quota_effect hash installed reg reg'"

text \<open>Where an entry after an operation comes from.\<close>

lemma quota_entry_origin:
  assumes "quota_effect hash installed reg reg'" "quota_get hash reg' k = Some st"
  shows "quota_get hash reg k = Some st \<or>
    (\<exists>s. installed = Some s \<and> qs_target s = k \<and> st = \<lparr>qe_snapshot = s, qe_recovery_probe = None\<rparr>) \<or>
    (\<exists>st0 x. quota_get hash reg k = Some st0 \<and>
       st = st0\<lparr>qe_recovery_probe := Some \<lparr>qps_probe_id = qr_next_recovery_probe_id reg, qps_expires_at_ms = x\<rparr>\<rparr> \<and>
       qr_next_recovery_probe_id reg' = qr_next_recovery_probe_id reg + 1)"
  using assms(1)
proof (cases rule: quota_effect.cases)
  case (keep j)
  from entry_effect_cases [OF keep(3), of k] assms(2) show ?thesis by (auto split: if_splits)
next
  case (install s)
  from entry_effect_cases [OF install(4), of k] assms(2) install(1) show ?thesis by (auto split: if_splits)
next
  case (ticket j st0 x)
  from entry_effect_cases [OF ticket(5), of k] assms(2) ticket(3,4) show ?thesis by (auto split: if_splits)
qed

lemma quota_entry_fate:
  assumes "quota_effect hash installed reg reg'" "quota_get hash reg k = Some st"
  shows "(\<exists>p. quota_get hash reg' k = Some (st\<lparr>qe_recovery_probe := p\<rparr>)) \<or>
    quota_get hash reg' k = None \<and> unblocking st \<or>
    (\<exists>s. installed = Some s \<and> qs_target s = k \<and>
       quota_get hash reg' k = Some \<lparr>qe_snapshot = s, qe_recovery_probe = None\<rparr>)"
proof -
  have same: "\<exists>p. Some st = Some (st\<lparr>qe_recovery_probe := p\<rparr>)" by (rule exI [of _ "qe_recovery_probe st"]) simp
  show ?thesis using assms(1)
  proof (cases rule: quota_effect.cases)
    case (keep j)
    from entry_effect_cases [OF keep(3), of k] assms(2) same show ?thesis by (cases "k = j") auto
  next
    case (install s)
    from entry_effect_cases [OF install(4), of k] assms(2) install(1) same show ?thesis by (cases "k = qs_target s") auto
  next
    case (ticket j st0 x)
    from entry_effect_cases [OF ticket(5), of k] assms(2) ticket(4) same show ?thesis by (cases "k = j") auto
  qed
qed

lemma quota_next_mono: "quota_effect hash installed reg reg' \<Longrightarrow> qr_next_recovery_probe_id reg \<le> qr_next_recovery_probe_id reg'"
  by (elim quota_effectE) simp_all

lemma quota_exec_ok:
  assumes "quota_ok hash reg"
  shows "quota_ok hash (quota_exec hash cop reg)"
proof -
  have eff: "quota_effect hash (quota_installs (snd cop)) reg (quota_exec hash cop reg)"
    using assms by (intro quota_exec_effect) (simp add: quota_ok_def)
  have "qps_probe_id p < qr_next_recovery_probe_id (quota_exec hash cop reg)"
    if "quota_get hash (quota_exec hash cop reg) k = Some st" "qe_recovery_probe st = Some p" for k st p
  proof -
    have "qps_probe_id p < qr_next_recovery_probe_id reg \<or> qps_probe_id p = qr_next_recovery_probe_id reg \<and>
        qr_next_recovery_probe_id (quota_exec hash cop reg) = qr_next_recovery_probe_id reg + 1"
      using quota_entry_origin [OF eff that(1)] that(2) assms unfolding quota_ok_def by fastforce
    then show ?thesis using quota_next_mono [OF eff] by linarith
  qed
  moreover have "quota_shards_ok hash (quota_exec hash cop reg)" using eff by (elim quota_effectE)
  ultimately show ?thesis unfolding quota_ok_def by blast
qed

lemma quota_registry_ok:
  assumes "quota_registry_try_with_shards n = Inr reg"
  shows "quota_ok hash reg" "length (qr_shards reg) = n"
proof -
  have n: "validate_shard_count max_runtime_quota_shard_count n = Inr ()" and reg: "qr_shards reg = build_shards n"
    using assms by (auto simp: quota_registry_try_with_shards_def split: sum.splits)
  show "quota_ok hash reg" unfolding quota_ok_def quota_shards_ok_def quota_get_def reg
    by (simp add: build_shards_ok [OF n] shards_get_build [OF n])
  show "length (qr_shards reg) = n" by (simp add: reg build_shards_def)
qed

definition quota_blocked :: "runtime_quota_target hasher \<Rightarrow> runtime_quota_target \<Rightarrow> runtime_quota_registry \<Rightarrow> bool" where
  "quota_blocked hash k reg \<longleftrightarrow> (case quota_get hash reg k of None \<Rightarrow> False | Some st \<Rightarrow> \<not> unblocking st)"

text \<open>An operation that brings a snapshot without an exhausted window for the target.\<close>

definition lifts_quota :: "runtime_quota_target \<Rightarrow> clock_reading \<times> quota_op \<Rightarrow> bool" where
  "lifts_quota k cop \<longleftrightarrow>
     (case quota_installs (snd cop) of
        None \<Rightarrow> False
      | Some s \<Rightarrow> qs_target s = k \<and> blocking_reset_at_ms s = None)"


interpretation quota_block: blocking_registry "quota_exec hash" "quota_ok hash" "quota_blocked hash k" "lifts_quota k"
  for hash k
proof unfold_locales
  fix s cop
  show "quota_ok hash s \<Longrightarrow> quota_ok hash (quota_exec hash cop s)" by (rule quota_exec_ok)
  assume ok: "quota_ok hash s" and b: "quota_blocked hash k s" and l: "\<not> lifts_quota k cop"
  obtain st where st: "quota_get hash s k = Some st" "\<not> unblocking st"
    using b by (auto simp: quota_blocked_def split: option.splits)
  have "quota_effect hash (quota_installs (snd cop)) s (quota_exec hash cop s)"
    using ok by (intro quota_exec_effect) (simp add: quota_ok_def)
  from quota_entry_fate [OF this st(1)] show "quota_blocked hash k (quota_exec hash cop s)"
    using st(2) l by (auto simp: quota_blocked_def lifts_quota_def unblocking_def)
qed


text \<open>An operation leaves the entries of other targets alone, but may reclaim one that blocks nothing.\<close>

fun quota_op_target :: "quota_op \<Rightarrow> runtime_quota_target" where
  "quota_op_target (QRecord s) = qs_target s"
| "quota_op_target (QRateLimited t _ _ _) = t"
| "quota_op_target (QBegin t _) = t"
| "quota_op_target (QComplete _ s) = qs_target s"

lemma quota_other_entry:
  assumes ok: "quota_ok hash reg" and j: "j \<noteq> quota_op_target op"
  shows "quota_get hash (quota_exec hash (clock, op) reg) j = quota_get hash reg j \<or>
    (\<exists>st. quota_get hash reg j = Some st \<and> unblocking st \<and> quota_get hash (quota_exec hash (clock, op) reg) j = None)"
proof (cases "\<exists>t x. op = QBegin t x")
  case True
  then obtain t x where op: "op = QBegin t x" by blast
  then show ?thesis using begin_recovery_probe_other [of hash reg j t clock x] ok j by (simp add: quota_ok_def)
next
  case False
  have "quota_effect hash (quota_installs op) reg (quota_exec hash (clock, op) reg)"
    using ok quota_exec_effect [of hash reg "(clock, op)"] by (simp add: quota_ok_def)
  then show ?thesis
  proof (cases rule: quota_effect.cases)
    case (keep k)
    from entry_effect_cases [OF keep(3), of j] show ?thesis by (auto split: if_splits)
  next
    case (install s)
    have "qs_target s = quota_op_target op" using install(1) False by (cases op) (auto split: prod.splits)
    then show ?thesis using entry_effect_cases [OF install(4), of j] j by auto
  next
    case (ticket k st x)
    then show ?thesis using False by (cases op) (auto split: prod.splits)
  qed
qed

lemma quota_exec_poisoned: "map sh_poisoned (qr_shards (quota_exec hash cop reg)) = map sh_poisoned (qr_shards reg)"
proof -
  have st: "map sh_poisoned (qr_shards (quota_store hash k m r)) = map sh_poisoned (qr_shards r)" for k m r
    by (simp add: quota_store_def store_shard_poisoned)
  obtain clock op where cop: "cop = (clock, op)" by fastforce
  show ?thesis unfolding cop
    by (cases op)
      (simp_all add: st record_rate_limited_def record_snapshot_def begin_recovery_probe_def complete_recovery_probe_def Let_def
        split: option.split sum.split prod.split)
qed

lemma quota_availability_view:
  assumes "quota_ok hash reg"
  shows "quota_availability_at hash reg k t =
    (if map sh_poisoned (qr_shards reg) ! shard_index hash (qr_shards reg) k then Inl QuotaShardLockPoisoned
     else Inr (case quota_get hash reg k of None \<Rightarrow> QuotaAvailable | Some st \<Rightarrow> quota_state_availability_at st t))"
proof -
  have "shard_index hash (qr_shards reg) k < length (qr_shards reg)"
    using assms by (intro shard_index_lt) (simp add: quota_ok_def quota_shards_ok_def shards_ok_def)
  then show ?thesis by (simp add: quota_availability_at_def lock_shard_def quota_get_def shards_get_def Let_def)
qed

text \<open>Operations are isolated: the availability of every other target stays what it is, at every instant.\<close>

lemma quota_operation_isolated:
  assumes ok: "quota_ok hash reg" and j: "j \<noteq> quota_op_target op"
  shows "quota_availability_at hash (quota_exec hash (clock, op) reg) j t = quota_availability_at hash reg j t"
proof -
  have p: "map sh_poisoned (qr_shards (quota_exec hash (clock, op) reg)) = map sh_poisoned (qr_shards reg)"
    by (rule quota_exec_poisoned)
  then have "length (qr_shards (quota_exec hash (clock, op) reg)) = length (qr_shards reg)" by (metis length_map)
  then have idx: "shard_index hash (qr_shards (quota_exec hash (clock, op) reg)) j = shard_index hash (qr_shards reg) j"
    by (simp add: shard_index_def)
  show ?thesis
    unfolding quota_availability_view [OF ok] quota_availability_view [OF quota_exec_ok [OF ok]] p idx
    using quota_other_entry [OF ok j, of clock] by (auto simp: unblocking_def quota_state_availability_at_def)
qed



lemma quota_get_stored:
  assumes "quota_ok hash reg"
  shows "quota_get hash (quota_store hash k (bm_insert k v m) reg) k = Some v"
proof -
  have "shards_ok max_runtime_quota_entries_per_shard hash (qr_shards reg)"
    using assms by (simp add: quota_ok_def quota_shards_ok_def)
  from shards_get_store [OF this] show ?thesis by (simp add: quota_get_def quota_store_def bm_get_insert)
qed




section \<open>Properties of the quota registry\<close>

lemma quota_blocked_unavailable:
  assumes "quota_blocked hash k reg"
  shows "\<not> quota_available hash reg k clock"
proof -
  obtain st where st: "quota_get hash reg k = Some st" "\<not> unblocking st"
    using assms by (auto simp: quota_blocked_def split: option.splits)
  have "\<not> quota_is_available (quota_state_availability_at st now)" for now
    using st(2) by (simp add: quota_available_unblocking)
  then show ?thesis using st(1)
    by (auto simp: quota_available_def quota_availability_def quota_availability_at_def lock_quota_get split: option.splits)
qed

lemma record_snapshot_stored:
  assumes "quota_ok hash reg" "record_snapshot hash clock s reg = (Inr r, reg')"
  shows "quota_get hash reg' (qs_target s) = Some \<lparr>qe_snapshot = s, qe_recovery_probe = None\<rparr>" "quota_ok hash reg'"
    "qr_next_recovery_probe_id reg' = qr_next_recovery_probe_id reg"
proof -
  obtain m where m: "reg' = quota_store hash (qs_target s) (bm_insert (qs_target s) \<lparr>qe_snapshot = s, qe_recovery_probe = None\<rparr> m) reg"
    using assms(2) by (auto simp: record_snapshot_def Let_def split: option.splits if_splits prod.splits sum.splits)
  show "quota_get hash reg' (qs_target s) = Some \<lparr>qe_snapshot = s, qe_recovery_probe = None\<rparr>"
    unfolding m by (rule quota_get_stored [OF assms(1)])
  show "quota_ok hash reg'" using quota_exec_ok [OF assms(1), of "(clock, QRecord s)"] assms(2) by simp
  show "qr_next_recovery_probe_id reg' = qr_next_recovery_probe_id reg" by (simp add: m quota_store_def)
qed

text \<open>
  C33: Passing the reset instant never reopens a target by itself: after a snapshot with an exhausted
  window has been recorded, the target stays unavailable at every reading of the clock through every
  sequence of operations (further rate limits, recovery tickets, evictions, other targets) that does
  not bring a snapshot of this target without an exhausted window.
\<close>

theorem quota_block_survives:
  assumes "quota_ok hash reg" "record_snapshot hash clock s reg = (Inr r, reg')" "blocking_reset_at_ms s = Some reset"
    and "list_all (\<lambda>cop. \<not> lifts_quota (qs_target s) cop) ops"
  shows "\<not> quota_available hash (fold (quota_exec hash) ops reg') (qs_target s) now"
proof -
  note st = record_snapshot_stored [OF assms(1,2)]
  have "quota_blocked hash (qs_target s) reg'" using st(1) assms(3) by (simp add: quota_blocked_def unblocking_def)
  then show ?thesis using quota_block.blocked_run [OF st(2) _ assms(4)] quota_blocked_unavailable by blast
qed





text \<open>A one-shard registry and an exhausted snapshot for the witnesses.\<close>

definition sample_quota_hash :: "runtime_quota_target hasher" where
  "sample_quota_hash k = 0"

definition sample_quota :: runtime_quota_registry where
  "sample_quota = \<lparr>qr_shards = [\<lparr>sh_map = [], sh_poisoned = False\<rparr>], qr_next_recovery_probe_id = 1\<rparr>"

definition sample_exhausted :: quota_snapshot where
  "sample_exhausted =
     \<lparr>qs_target = EndpointCredentialTarget ''e'' ''c'',
      qs_windows = [\<lparr>qw_label = ''rate_limit'', qw_limit = None, qw_remaining = Some 0, qw_reset_at_ms = Some 40\<rparr>],
      qs_source = HeaderSource, qs_confidence = ObservedConfidence, qs_observed_at_ms = 1\<rparr>"

lemma sample_quota_built: "quota_registry_try_with_shards 1 = Inr sample_quota"
  by code_simp

lemma sample_quota_ok: "quota_ok sample_quota_hash sample_quota"
  by (rule quota_registry_ok(1) [OF sample_quota_built])

lemma sample_record:
  "record_snapshot sample_quota_hash (Some 1) sample_exhausted sample_quota =
     (Inr sample_exhausted, snd (record_snapshot sample_quota_hash (Some 1) sample_exhausted sample_quota))"
proof -
  have "fst (record_snapshot sample_quota_hash (Some 1) sample_exhausted sample_quota) = Inr sample_exhausted" by code_simp
  then show ?thesis by (metis prod.collapse)
qed

theorem quota_block_survives_witness:
  "\<not> quota_available sample_quota_hash
     (fold (quota_exec sample_quota_hash) [(Some 50, QBegin (EndpointCredentialTarget ''e'' ''c'') 60),
        (Some 55, QRateLimited (EndpointCredentialTarget ''e'' ''c'') 55 None (from_millis 5))]
        (snd (record_snapshot sample_quota_hash (Some 1) sample_exhausted sample_quota)))
     (EndpointCredentialTarget ''e'' ''c'') (Some 1000)"
proof -
  have reset: "blocking_reset_at_ms sample_exhausted = Some 40" by code_simp
  have t: "qs_target sample_exhausted = EndpointCredentialTarget ''e'' ''c''" by (simp add: sample_exhausted_def)
  have "\<not> lifts_quota (EndpointCredentialTarget ''e'' ''c'')
      (Some 55, QRateLimited (EndpointCredentialTarget ''e'' ''c'') 55 None (from_millis 5))"
    by code_simp
  then have "list_all (\<lambda>cop. \<not> lifts_quota (qs_target sample_exhausted) cop)
      [(Some 50, QBegin (EndpointCredentialTarget ''e'' ''c'') 60),
       (Some 55, QRateLimited (EndpointCredentialTarget ''e'' ''c'') 55 None (from_millis 5))]"
    by (simp add: t) (simp add: lifts_quota_def)
  from quota_block_survives [OF sample_quota_ok sample_record reset this] show ?thesis unfolding t .
qed

theorem quota_snapshot_accepts_exactly_witness: "blocking_reset_at_ms sample_exhausted \<noteq> None"
proof -
  have "quota_snapshot_try_new (qs_target sample_exhausted) (qs_windows sample_exhausted) (qs_source sample_exhausted)
      (qs_confidence sample_exhausted) (qs_observed_at_ms sample_exhausted) = Inr sample_exhausted"
    by code_simp
  from quota_snapshot_accepts_exactly [THEN conjunct2, THEN mp, OF this] show ?thesis
    by (auto simp: sample_exhausted_def window_is_exhausted_def split: option.splits)
qed




end
