(* ===== verification/Credential_Scheduler.thy ===== *)
theory Credential_Scheduler
  imports Route_Snapshot Credential_Pool Runtime_Health Runtime_Quota
begin

text \<open>
  Two-stage selection of a route candidate and a credential lease
  (\<open>src/crates/gateway-router/src/credential_scheduler.rs\<close>): the candidate search runs with a test
  that leases a credential of the candidate's endpoint, after the runtime health and quota of the
  endpoint, the binding and the model have been consulted.

  Each availability test reads the registry's clock anew. A clock is the sequence of its readings,
  and the numbers of readings already taken are part of the state, so consecutive tests may see
  different instants. The caller's predicates on candidates and bindings are functions.
\<close>

section \<open>State\<close>

record route_credential_scheduler =
  rcs_candidates :: route_candidate_scheduler
  rcs_credential_pools :: endpoint_credential_pools

text \<open>The registries a selection consults, with the hash functions and clocks they own.\<close>

record runtime_env =
  re_health_hash :: "runtime_health_key hasher"
  re_health :: runtime_health_registry
  re_health_clock :: "nat \<Rightarrow> clock_reading"
  re_quota_hash :: "runtime_quota_target hasher"
  re_quota :: runtime_quota_registry
  re_quota_clock :: "nat \<Rightarrow> clock_reading"

record clock_reads =
  cr_health :: nat
  cr_quota :: nat

record selected_route_credential =
  sel_candidate :: snapshot_route_candidate
  sel_lease :: credential_lease

definition legacy_no_expiry_observation_ms :: i64 where
  "legacy_no_expiry_observation_ms = - (2 ^ 63)"

definition credential_scheduler_new ::
  "route_snapshot \<Rightarrow> endpoint_credential_pools \<Rightarrow> route_credential_scheduler" where
  "credential_scheduler_new snapshot pools =
     \<lparr>rcs_candidates = candidate_scheduler_new snapshot, rcs_credential_pools = pools\<rparr>"

definition scheduler_route :: "route_credential_scheduler \<Rightarrow> string \<Rightarrow> snapshot_route option" where
  "scheduler_route sch route_id = bm_get (rs_routes (cs_snapshot (rcs_candidates sch))) route_id"

definition credential_unavailable_error :: gateway_error where
  "credential_unavailable_error = gateway_error_new CredentialUnavailable CredentialScope"

section \<open>Availability tests\<close>

text \<open>\<open>&&\<close> on tests that change the state: the second runs only when the first holds.\<close>

definition and_then :: "('s \<Rightarrow> bool \<times> 's) \<Rightarrow> ('s \<Rightarrow> bool \<times> 's) \<Rightarrow> 's \<Rightarrow> bool \<times> 's" where
  "and_then f g s = (let (b, s') = f s in if b then g s' else (False, s'))"

definition health_test ::
  "runtime_env \<Rightarrow> (runtime_health_key hasher \<Rightarrow> runtime_health_registry \<Rightarrow> clock_reading \<Rightarrow> bool) \<Rightarrow>
     clock_reads \<Rightarrow> bool \<times> clock_reads" where
  "health_test env test s =
     (test (re_health_hash env) (re_health env) (re_health_clock env (cr_health s)),
      s\<lparr>cr_health := cr_health s + 1\<rparr>)"

definition quota_test ::
  "runtime_env \<Rightarrow> (runtime_quota_target hasher \<Rightarrow> runtime_quota_registry \<Rightarrow> clock_reading \<Rightarrow> bool) \<Rightarrow>
     clock_reads \<Rightarrow> bool \<times> clock_reads" where
  "quota_test env test s =
     (test (re_quota_hash env) (re_quota env) (re_quota_clock env (cr_quota s)),
      s\<lparr>cr_quota := cr_quota s + 1\<rparr>)"

text \<open>An empty model label fails before the clock is read.\<close>

definition quota_model_test ::
  "runtime_env \<Rightarrow> string \<Rightarrow> string \<Rightarrow> string \<Rightarrow> clock_reads \<Rightarrow> bool \<times> clock_reads" where
  "quota_model_test env e c m s =
     (if m = [] then (False, s)
      else quota_test env (\<lambda>hash reg. quota_endpoint_credential_model_is_available hash reg e c m) s)"

definition binding_quota_is_recovery_due ::
  "runtime_quota_target hasher \<Rightarrow> runtime_quota_registry \<Rightarrow> string \<Rightarrow> string \<Rightarrow> clock_reading \<Rightarrow> bool" where
  "binding_quota_is_recovery_due hash reg e c clock =
     (case quota_availability hash reg (EndpointCredentialTarget e c) clock of
        Inr (QuotaRecoveryRequired _) \<Rightarrow> True
      | _ \<Rightarrow> False)"

text \<open>The binding predicate with the health of the binding and of the model, which all variants share.\<close>

definition health_binding_test ::
  "runtime_env \<Rightarrow> (snapshot_route_candidate \<Rightarrow> string \<Rightarrow> bool) \<Rightarrow> snapshot_route_candidate \<Rightarrow> string \<Rightarrow>
     clock_reads \<Rightarrow> bool \<times> clock_reads" where
  "health_binding_test env binding_ok c cid =
     and_then (\<lambda>s. (binding_ok c cid, s))
       (and_then (health_test env (\<lambda>hash reg. endpoint_credential_is_available hash reg (rc_endpoint_id c) cid))
          (health_test env (\<lambda>hash reg.
             endpoint_credential_model_is_available hash reg (rc_endpoint_id c) cid (rc_upstream_model c))))"

definition quota_binding_test ::
  "runtime_env \<Rightarrow> (snapshot_route_candidate \<Rightarrow> string \<Rightarrow> bool) \<Rightarrow> snapshot_route_candidate \<Rightarrow> string \<Rightarrow>
     clock_reads \<Rightarrow> bool \<times> clock_reads" where
  "quota_binding_test env binding_ok c cid =
     and_then (health_binding_test env binding_ok c cid)
       (and_then (quota_test env (\<lambda>hash reg. quota_endpoint_credential_is_available hash reg (rc_endpoint_id c) cid))
          (quota_model_test env (rc_endpoint_id c) cid (rc_upstream_model c)))"

definition recovery_binding_test ::
  "runtime_env \<Rightarrow> (snapshot_route_candidate \<Rightarrow> string \<Rightarrow> bool) \<Rightarrow> snapshot_route_candidate \<Rightarrow> string \<Rightarrow>
     clock_reads \<Rightarrow> bool \<times> clock_reads" where
  "recovery_binding_test env binding_ok c cid =
     and_then (health_binding_test env binding_ok c cid)
       (and_then (quota_test env (\<lambda>hash reg. binding_quota_is_recovery_due hash reg (rc_endpoint_id c) cid))
          (quota_model_test env (rc_endpoint_id c) cid (rc_upstream_model c)))"

section \<open>Selection\<close>

record lease_search =
  ls_pools :: endpoint_credential_pools
  ls_lease :: "credential_lease option"
  ls_reads :: clock_reads

text \<open>The closure handed to the candidate search: test the endpoint, then lease from its pool.\<close>

definition lease_candidate ::
  "runtime_env \<Rightarrow> i64 \<Rightarrow> (snapshot_route_candidate \<Rightarrow> bool) \<Rightarrow>
     (snapshot_route_candidate \<Rightarrow> string \<Rightarrow> clock_reads \<Rightarrow> bool \<times> clock_reads) \<Rightarrow>
     snapshot_route_candidate \<Rightarrow> lease_search \<Rightarrow> bool \<times> lease_search" where
  "lease_candidate env observed cand_ok binding_test c s =
     (if \<not> cand_ok c then (False, s)
      else
       (let (up, reads) = health_test env (\<lambda>hash reg. endpoint_is_available hash reg (rc_endpoint_id c)) (ls_reads s) in
        if \<not> up then (False, s\<lparr>ls_reads := reads\<rparr>)
        else
         (case pools_try_lease_eligible_at (rc_endpoint_id c) observed (binding_test c) (ls_pools s) reads of
            (None, pools, reads') \<Rightarrow> (False, s\<lparr>ls_pools := pools, ls_reads := reads'\<rparr>)
          | (Some l, pools, reads') \<Rightarrow>
              (True, s\<lparr>ls_pools := pools, ls_lease := Some l, ls_reads := reads'\<rparr>))))"

text \<open>
  Running the search and pairing candidate and lease; a lease without a candidate is dropped with
  the closure's variable.
\<close>

definition finish_selection ::
  "snapshot_route_candidate option \<Rightarrow> route_candidate_scheduler \<Rightarrow> lease_search \<Rightarrow>
     (gateway_error + selected_route_credential) \<times> route_credential_scheduler \<times> clock_reads" where
  "finish_selection candidate cands s =
     (case (candidate, ls_lease s) of
        (Some c, Some l) \<Rightarrow>
          (Ok \<lparr>sel_candidate = c, sel_lease = l\<rparr>,
           \<lparr>rcs_candidates = cands, rcs_credential_pools = ls_pools s\<rparr>, ls_reads s)
      | (None, Some l) \<Rightarrow>
          (Err credential_unavailable_error,
           \<lparr>rcs_candidates = cands, rcs_credential_pools = pools_release l (ls_pools s)\<rparr>, ls_reads s)
      | (_, None) \<Rightarrow>
          (Err credential_unavailable_error,
           \<lparr>rcs_candidates = cands, rcs_credential_pools = ls_pools s\<rparr>, ls_reads s))"

definition run_selection ::
  "string \<Rightarrow> (snapshot_route_candidate \<Rightarrow> lease_search \<Rightarrow> bool \<times> lease_search) \<Rightarrow> route_credential_scheduler \<Rightarrow>
     clock_reads \<Rightarrow> (gateway_error + selected_route_credential) \<times> route_credential_scheduler \<times> clock_reads" where
  "run_selection route_id test sch reads =
     (let (candidate, cands, s) =
            select_eligible route_id test (rcs_candidates sch)
              \<lparr>ls_pools = rcs_credential_pools sch, ls_lease = None, ls_reads = reads\<rparr>
      in finish_selection candidate cands s)"

definition select_eligible_and_lease_with_runtime_health_and_binding_at ::
  "runtime_env \<Rightarrow> string \<Rightarrow> i64 \<Rightarrow> (snapshot_route_candidate \<Rightarrow> bool) \<Rightarrow>
     (snapshot_route_candidate \<Rightarrow> string \<Rightarrow> bool) \<Rightarrow> route_credential_scheduler \<Rightarrow> clock_reads \<Rightarrow>
     (gateway_error + selected_route_credential) \<times> route_credential_scheduler \<times> clock_reads" where
  "select_eligible_and_lease_with_runtime_health_and_binding_at env route_id observed cand_ok binding_ok =
     run_selection route_id (lease_candidate env observed cand_ok (health_binding_test env binding_ok))"

definition select_eligible_and_lease_with_runtime_health_and_binding ::
  "runtime_env \<Rightarrow> string \<Rightarrow> (snapshot_route_candidate \<Rightarrow> bool) \<Rightarrow>
     (snapshot_route_candidate \<Rightarrow> string \<Rightarrow> bool) \<Rightarrow> route_credential_scheduler \<Rightarrow> clock_reads \<Rightarrow>
     (gateway_error + selected_route_credential) \<times> route_credential_scheduler \<times> clock_reads" where
  "select_eligible_and_lease_with_runtime_health_and_binding env route_id cand_ok binding_ok =
     select_eligible_and_lease_with_runtime_health_and_binding_at env route_id legacy_no_expiry_observation_ms
       cand_ok binding_ok"

definition select_eligible_and_lease_with_runtime_health ::
  "runtime_env \<Rightarrow> string \<Rightarrow> (snapshot_route_candidate \<Rightarrow> bool) \<Rightarrow> route_credential_scheduler \<Rightarrow> clock_reads \<Rightarrow>
     (gateway_error + selected_route_credential) \<times> route_credential_scheduler \<times> clock_reads" where
  "select_eligible_and_lease_with_runtime_health env route_id cand_ok =
     select_eligible_and_lease_with_runtime_health_and_binding env route_id cand_ok (\<lambda>_ _. True)"

definition select_runtime_eligible_and_lease ::
  "runtime_env \<Rightarrow> string \<Rightarrow> route_credential_scheduler \<Rightarrow> clock_reads \<Rightarrow>
     (gateway_error + selected_route_credential) \<times> route_credential_scheduler \<times> clock_reads" where
  "select_runtime_eligible_and_lease env route_id =
     select_eligible_and_lease_with_runtime_health env route_id (\<lambda>_. True)"

definition select_eligible_and_lease_with_runtime_health_quota_and_binding_at ::
  "runtime_env \<Rightarrow> string \<Rightarrow> i64 \<Rightarrow> (snapshot_route_candidate \<Rightarrow> bool) \<Rightarrow>
     (snapshot_route_candidate \<Rightarrow> string \<Rightarrow> bool) \<Rightarrow> route_credential_scheduler \<Rightarrow> clock_reads \<Rightarrow>
     (gateway_error + selected_route_credential) \<times> route_credential_scheduler \<times> clock_reads" where
  "select_eligible_and_lease_with_runtime_health_quota_and_binding_at env route_id observed cand_ok binding_ok =
     run_selection route_id (lease_candidate env observed cand_ok (quota_binding_test env binding_ok))"

definition select_eligible_and_lease_with_runtime_health_quota_and_binding ::
  "runtime_env \<Rightarrow> string \<Rightarrow> (snapshot_route_candidate \<Rightarrow> bool) \<Rightarrow>
     (snapshot_route_candidate \<Rightarrow> string \<Rightarrow> bool) \<Rightarrow> route_credential_scheduler \<Rightarrow> clock_reads \<Rightarrow>
     (gateway_error + selected_route_credential) \<times> route_credential_scheduler \<times> clock_reads" where
  "select_eligible_and_lease_with_runtime_health_quota_and_binding env route_id cand_ok binding_ok =
     select_eligible_and_lease_with_runtime_health_quota_and_binding_at env route_id
       legacy_no_expiry_observation_ms cand_ok binding_ok"

definition select_eligible_and_lease_for_quota_recovery_at ::
  "runtime_env \<Rightarrow> string \<Rightarrow> i64 \<Rightarrow> (snapshot_route_candidate \<Rightarrow> bool) \<Rightarrow>
     (snapshot_route_candidate \<Rightarrow> string \<Rightarrow> bool) \<Rightarrow> route_credential_scheduler \<Rightarrow> clock_reads \<Rightarrow>
     (gateway_error + selected_route_credential) \<times> route_credential_scheduler \<times> clock_reads" where
  "select_eligible_and_lease_for_quota_recovery_at env route_id observed cand_ok binding_ok =
     run_selection route_id (lease_candidate env observed cand_ok (recovery_binding_test env binding_ok))"

definition select_eligible_and_lease_for_quota_recovery ::
  "runtime_env \<Rightarrow> string \<Rightarrow> (snapshot_route_candidate \<Rightarrow> bool) \<Rightarrow>
     (snapshot_route_candidate \<Rightarrow> string \<Rightarrow> bool) \<Rightarrow> route_credential_scheduler \<Rightarrow> clock_reads \<Rightarrow>
     (gateway_error + selected_route_credential) \<times> route_credential_scheduler \<times> clock_reads" where
  "select_eligible_and_lease_for_quota_recovery env route_id cand_ok binding_ok =
     select_eligible_and_lease_for_quota_recovery_at env route_id legacy_no_expiry_observation_ms cand_ok binding_ok"

text \<open>The selection without runtime state leases with the pool's own test.\<close>

definition plain_lease_candidate ::
  "(snapshot_route_candidate \<Rightarrow> bool) \<Rightarrow> snapshot_route_candidate \<Rightarrow> lease_search \<Rightarrow> bool \<times> lease_search" where
  "plain_lease_candidate cand_ok c s =
     (if \<not> cand_ok c then (False, s)
      else
       (case pools_try_lease (rc_endpoint_id c) (ls_pools s) of
          (None, pools) \<Rightarrow> (False, s\<lparr>ls_pools := pools\<rparr>)
        | (Some l, pools) \<Rightarrow> (True, s\<lparr>ls_pools := pools, ls_lease := Some l\<rparr>)))"

definition select_eligible_and_lease ::
  "string \<Rightarrow> (snapshot_route_candidate \<Rightarrow> bool) \<Rightarrow> route_credential_scheduler \<Rightarrow>
     (gateway_error + selected_route_credential) \<times> route_credential_scheduler" where
  "select_eligible_and_lease route_id cand_ok sch =
     (let (r, sch', _) = run_selection route_id (plain_lease_candidate cand_ok) sch \<lparr>cr_health = 0, cr_quota = 0\<rparr>
      in (r, sch'))"

definition select_and_lease ::
  "string \<Rightarrow> route_credential_scheduler \<Rightarrow> (gateway_error + selected_route_credential) \<times> route_credential_scheduler" where
  "select_and_lease route_id = select_eligible_and_lease route_id (\<lambda>_. True)"

section \<open>Pools during a search\<close>

definition pools_ok :: "endpoint_credential_pools \<Rightarrow> bool" where
  "pools_ok pools \<longleftrightarrow>
     (\<forall>e pool. bm_get pools e = Some pool \<longrightarrow> pool_ok pool \<and> pool_endpoint_id pool = e)"

text \<open>The same slots in every pool: only cursors may differ.\<close>

definition same_slots :: "endpoint_credential_pools \<Rightarrow> endpoint_credential_pools \<Rightarrow> bool" where
  "same_slots P Q \<longleftrightarrow> (\<forall>e. map_option credentials (bm_get Q e) = map_option credentials (bm_get P e))"

text \<open>One unit of capacity more is taken of the leased slot, and nothing else has changed.\<close>

definition leased :: "credential_lease \<Rightarrow> endpoint_credential_pools \<Rightarrow> endpoint_credential_pools \<Rightarrow> bool" where
  "leased l P Q \<longleftrightarrow>
     (\<exists>pool. bm_get P (lease_endpoint l) = Some pool \<and> lease_index l < length (credentials pool) \<and>
        has_capacity (credentials pool ! lease_index l) \<and>
        (\<forall>e. map_option credentials (bm_get Q e) =
           (if e = lease_endpoint l
            then Some ((credentials pool)[lease_index l := snd (try_acquire (credentials pool ! lease_index l))])
            else map_option credentials (bm_get P e))))"

lemma pools_insert_all_ok:
  "pools_ok pools \<Longrightarrow> list_all (\<lambda>(e, pool). pool_ok pool \<and> pool_endpoint_id pool = e) ps \<Longrightarrow>
     pools_insert_all ps pools = Inr pools' \<Longrightarrow> pools_ok pools'"
proof (induction ps arbitrary: pools)
  case (Cons x ps)
  obtain e pool where x: "x = (e, pool)" by fastforce
  have "pools_ok (bm_insert e pool pools)"
    using Cons.prems(1,2) by (simp add: pools_ok_def bm_get_insert x)
  then show ?case using Cons by (simp add: x split: if_splits)
qed simp

lemma pools_try_new_ok: "list_all pool_ok ps \<Longrightarrow> pools_try_new ps = Inr pools \<Longrightarrow> pools_ok pools"
  unfolding pools_try_new_def
  by (rule pools_insert_all_ok [where pools = "[]"]) (auto simp: pools_ok_def list_all_iff)

lemma same_slots_refl [simp]: "same_slots P P"
  by (simp add: same_slots_def)

lemma same_slots_get:
  "same_slots P Q \<Longrightarrow> bm_get Q e = Some pool \<Longrightarrow> \<exists>pool0. bm_get P e = Some pool0 \<and> credentials pool0 = credentials pool"
  unfolding same_slots_def by (cases "bm_get P e") (auto dest!: spec [of _ e])

lemma pools_try_lease_eligible_at_outcome:
  assumes ok: "pools_ok P" "same_slots P0 P"
    and run: "pools_try_lease_eligible_at e now test P s = (r, Q, s')"
    and keep: "\<And>cid s. J s \<Longrightarrow> J (snd (test cid s))" and s: "J s"
  shows "pools_ok Q \<and>
    (case r of
       None \<Rightarrow> same_slots P0 Q \<and> J s'
     | Some l \<Rightarrow> lease_endpoint l = e \<and> leased l P0 Q \<and>
         (\<exists>pool s0. bm_get P0 e = Some pool \<and> unexpired now (credentials pool ! lease_index l) \<and>
            J s0 \<and> test (credential_id (credentials pool ! lease_index l)) s0 = (True, s')))"
proof (cases "bm_get P e")
  case None
  with ok run s show ?thesis by (auto simp: pools_try_lease_eligible_at_def)
next
  case (Some pool)
  let ?elig = "\<lambda>c s. if unexpired now c then test (credential_id c) s else (False, s)"
  obtain pool' where t: "try_lease_slots ?elig pool s = (r, pool', s')" and Q: "Q = bm_insert e pool' P"
    using run Some
    by (auto simp: pools_try_lease_eligible_at_def try_lease_eligible_at_def split: prod.splits)
  have pok: "pool_ok pool" "pool_endpoint_id pool = e" using ok(1) Some by (auto simp: pools_ok_def)
  have keep': "J s \<Longrightarrow> J (snd (?elig c s))" for c s using keep by simp
  note out = try_lease_slots_state(1) [where J = J, OF t keep' s] and id = try_lease_slots_outcome(5) [OF t]
  have "pool_ok pool'" by (rule try_lease_slots_ok [OF pok(1) t])
  then have Qok: "pools_ok Q" using ok(1) id pok by (auto simp: pools_ok_def Q bm_get_insert)
  obtain pool0 where p0: "bm_get P0 e = Some pool0" "credentials pool0 = credentials pool"
    using same_slots_get [OF ok(2) Some] by blast
  have others: "map_option credentials (bm_get Q j) =
      (if j = e then Some (credentials pool') else map_option credentials (bm_get P0 j))" for j
    using ok(2) by (auto simp: Q bm_get_insert same_slots_def)
  show ?thesis
  proof (cases r)
    case None
    then have "credentials pool' = credentials pool" "J s'" using out by simp_all
    then show ?thesis using None Qok p0 unfolding same_slots_def others by simp
  next
    case (Some l)
    let ?slot = "credentials pool ! lease_index l"
    have l: "lease_endpoint l = e" "lease_index l < length (credentials pool)" "has_capacity ?slot"
      "credentials pool' = (credentials pool)[lease_index l := snd (try_acquire ?slot)]"
      using out Some pok(2) by simp_all
    obtain s0 where "J s0" "?elig ?slot s0 = (True, s')" using out Some by auto
    then have "unexpired now ?slot" "J s0" "test (credential_id ?slot) s0 = (True, s')"
      by (simp_all split: if_splits)
    moreover have "leased l P0 Q" unfolding leased_def others using l p0 by simp
    ultimately show ?thesis using Some Qok l(1) p0(1) unfolding p0(2) [symmetric] by auto
  qed
qed

text \<open>Dropping the lease gives the unit back.\<close>

lemma leased_release:
  assumes "leased l P Q"
  shows "same_slots P (pools_release l Q)"
proof -
  obtain pool where p: "bm_get P (lease_endpoint l) = Some pool" "lease_index l < length (credentials pool)"
    "has_capacity (credentials pool ! lease_index l)"
    and Q: "\<And>e. map_option credentials (bm_get Q e) =
      (if e = lease_endpoint l
       then Some ((credentials pool)[lease_index l := snd (try_acquire (credentials pool ! lease_index l))])
       else map_option credentials (bm_get P e))"
    using assms unfolding leased_def by blast
  obtain pool' where q: "bm_get Q (lease_endpoint l) = Some pool'"
    "credentials pool' = (credentials pool)[lease_index l := snd (try_acquire (credentials pool ! lease_index l))]"
    using Q [of "lease_endpoint l"] by auto
  have "credentials (lease_drop l pool') = credentials pool"
    using p(2,3) by (simp add: lease_drop_def q(2) slot_release_def try_acquire_def has_capacity_def)
  then show ?thesis using p(1) Q q(1) by (simp add: same_slots_def pools_release_def bm_get_insert)
qed

section \<open>Clock readings\<close>

definition reads_le :: "clock_reads \<Rightarrow> clock_reads \<Rightarrow> bool" where
  "reads_le a b \<longleftrightarrow> cr_health a \<le> cr_health b \<and> cr_quota a \<le> cr_quota b"

text \<open>Tests that only take further readings.\<close>

definition reading_test :: "(clock_reads \<Rightarrow> bool \<times> clock_reads) \<Rightarrow> bool" where
  "reading_test f \<longleftrightarrow> (\<forall>s. reads_le s (snd (f s)))"

lemma reads_le_refl [simp]: "reads_le s s"
  by (simp add: reads_le_def)

lemma reads_le_trans: "reads_le a b \<Longrightarrow> reads_le b c \<Longrightarrow> reads_le a c"
  by (simp add: reads_le_def)

lemma reading_test_basic [simp]:
  "reading_test (\<lambda>s. (b, s))" "reading_test (health_test env f)" "reading_test (quota_test env g)"
  "reading_test (quota_model_test env e c m)"
  by (simp_all add: reading_test_def reads_le_def health_test_def quota_test_def quota_model_test_def)

lemma reading_test_and_then [simp]: "reading_test f \<Longrightarrow> reading_test g \<Longrightarrow> reading_test (and_then f g)"
  unfolding reading_test_def and_then_def by (auto simp: split_beta intro: reads_le_trans)

lemma reading_test_bindings [simp]:
  "reading_test (health_binding_test env p c cid)" "reading_test (quota_binding_test env p c cid)"
  "reading_test (recovery_binding_test env p c cid)"
  by (simp_all add: health_binding_test_def quota_binding_test_def recovery_binding_test_def)

lemma and_then_True: "and_then f g s = (True, s') \<longleftrightarrow> (\<exists>s1. f s = (True, s1) \<and> g s1 = (True, s'))"
  by (auto simp: and_then_def split: prod.splits if_splits)

lemma quota_binding_test_True:
  "quota_binding_test env binding_ok c cid s = (True, s') \<longleftrightarrow>
     binding_ok c cid \<and>
     endpoint_credential_is_available (re_health_hash env) (re_health env) (rc_endpoint_id c) cid
       (re_health_clock env (cr_health s)) \<and>
     endpoint_credential_model_is_available (re_health_hash env) (re_health env) (rc_endpoint_id c) cid
       (rc_upstream_model c) (re_health_clock env (cr_health s + 1)) \<and>
     quota_endpoint_credential_is_available (re_quota_hash env) (re_quota env) (rc_endpoint_id c) cid
       (re_quota_clock env (cr_quota s)) \<and>
     quota_endpoint_credential_model_is_available (re_quota_hash env) (re_quota env) (rc_endpoint_id c) cid
       (rc_upstream_model c) (re_quota_clock env (cr_quota s + 1)) \<and>
     s' = s\<lparr>cr_health := cr_health s + 2, cr_quota := cr_quota s + 2\<rparr>"
  by (auto simp: quota_binding_test_def health_binding_test_def and_then_True health_test_def quota_test_def
      quota_model_test_def quota_endpoint_credential_model_is_available_def quota_target_model_def)

section \<open>What a candidate search does with a test\<close>

text \<open>A condition that a failed test keeps holds at the successful test, or at the end.\<close>

lemma scan_offsets_candidates:
  assumes keep: "\<And>c s s'. I s \<Longrightarrow> test c s = (False, s') \<Longrightarrow> I s'"
  shows "I s \<Longrightarrow> scan_offsets (candidate_body cs test) slots start offs s = (r, s') \<Longrightarrow>
    (case r of Found i \<Rightarrow> i < length cs \<and> (\<exists>s0. I s0 \<and> test (cs ! i) s0 = (True, s')) | _ \<Rightarrow> I s')"
proof (induction offs arbitrary: s)
  case (Cons off offs)
  let ?i = "slots ! slot_at start (length slots) off"
  obtain b s1 where t: "test (cs ! ?i) s = (b, s1)" by fastforce
  then have body: "candidate_body cs test ?i s =
      (if length cs \<le> ?i then (Abort, s) else (if b then Accept else Skip, s1))"
    by (simp add: candidate_body_def)
  consider "length cs \<le> ?i" | "?i < length cs" b | "?i < length cs" "\<not> b" by linarith
  then show ?case
  proof cases
    case 1
    then show ?thesis using Cons.prems body by (auto simp: Let_def)
  next
    case 2
    then show ?thesis using Cons.prems body t by (auto simp: Let_def)
  next
    case 3
    then have "I s1" using keep Cons.prems(1) t by auto
    then show ?thesis using Cons.IH [of s1] Cons.prems body 3 by (simp add: Let_def)
  qed
qed auto

lemma select_tiers_candidates:
  assumes keep: "\<And>c s s'. I s \<Longrightarrow> test c s = (False, s') \<Longrightarrow> I s'"
  shows "I s \<Longrightarrow> select_tiers (candidate_body cs test) tiers ks s = (r, ks', s') \<Longrightarrow>
    (case r of Found i \<Rightarrow> i < length cs \<and> (\<exists>s0. I s0 \<and> test (cs ! i) s0 = (True, s')) | _ \<Rightarrow> I s')"
proof (induction tiers arbitrary: ks ks' s)
  case (Cons slots tiers)
  show ?case
  proof (cases "ks = [] \<or> slots = []")
    case True
    with Cons.prems show ?thesis by (cases ks) auto
  next
    case False
    then obtain c cs1 where c: "ks = c # cs1" by (cases ks) auto
    obtain r1 s1 where s: "scan_slots (candidate_body cs test) slots c s = (r1, s1)" by fastforce
    have "case r1 of Found i \<Rightarrow> i < length cs \<and> (\<exists>s0. I s0 \<and> test (cs ! i) s0 = (True, s1)) | _ \<Rightarrow> I s1"
      by (rule scan_offsets_candidates [of I test, OF keep Cons.prems(1) s [unfolded scan_slots_def]])
    then show ?thesis using Cons.prems(2) Cons.IH [of s1 cs1] s c False
      by (cases r1) (auto split: prod.splits)
  qed
qed auto

lemma select_eligible_outcome:
  assumes keep: "\<And>c s s'. I s \<Longrightarrow> test c s = (False, s') \<Longrightarrow> I s'"
    and "I s" "select_eligible route_id test sch s = (r, sch', s')"
  shows "case r of
      None \<Rightarrow> I s'
    | Some c \<Rightarrow> (\<exists>route s0. bm_get (rs_routes (cs_snapshot sch)) route_id = Some route \<and>
        c \<in> set (sr_candidates route) \<and> I s0 \<and> test c s0 = (True, s'))"
proof (cases "bm_get (rs_routes (cs_snapshot sch)) route_id = None \<or>
    bm_get (rs_route_schedules (cs_snapshot sch)) route_id = None \<or> bm_get (cs_cursors sch) route_id = None")
  case True
  then show ?thesis using assms(2,3) by (auto simp: select_eligible_def split: option.splits)
next
  case False
  then obtain route tiers ks where g: "bm_get (rs_routes (cs_snapshot sch)) route_id = Some route"
    "bm_get (rs_route_schedules (cs_snapshot sch)) route_id = Some tiers" "bm_get (cs_cursors sch) route_id = Some ks"
    by auto
  obtain o' cs1 s1 where t: "select_tiers (candidate_body (sr_candidates route) test) (map st_slot_indexes tiers) ks s
      = (o', cs1, s1)" by (metis prod_cases3)
  have "s' = s1" "r = (case o' of Found i \<Rightarrow> Some (sr_candidates route ! i) | _ \<Rightarrow> None)"
    using assms(3) by (auto simp: select_eligible_def g t)
  note res = this
  have out: "case o' of
      Found i \<Rightarrow> i < length (sr_candidates route) \<and> (\<exists>s0. I s0 \<and> test (sr_candidates route ! i) s0 = (True, s1))
    | _ \<Rightarrow> I s1"
    by (rule select_tiers_candidates [of I test, OF keep assms(2) t])
  show ?thesis
  proof (cases o')
    case (Found i)
    then obtain s0 where "i < length (sr_candidates route)" "I s0" "test (sr_candidates route ! i) s0 = (True, s')"
      using out res(1) by auto
    then show ?thesis using g(1) by (simp add: res(2) Found) (meson nth_mem)
  qed (use out res in simp_all)
qed

section \<open>What a selection does\<close>

text \<open>The state of the search before a candidate is tried.\<close>

definition searching :: "endpoint_credential_pools \<Rightarrow> clock_reads \<Rightarrow> lease_search \<Rightarrow> bool" where
  "searching P reads s \<longleftrightarrow>
     pools_ok (ls_pools s) \<and> same_slots P (ls_pools s) \<and> ls_lease s = None \<and> reads_le reads (ls_reads s)"

lemma lease_candidate_outcome:
  assumes mono: "\<And>c cid. reading_test (test c cid)" and s: "searching P reads s"
    and run: "lease_candidate env observed cand_ok test c s = (b, s')"
  shows "if b
    then cand_ok c \<and> pools_ok (ls_pools s') \<and>
      (\<exists>l pool h s0. ls_lease s' = Some l \<and> lease_endpoint l = rc_endpoint_id c \<and> leased l P (ls_pools s') \<and>
        bm_get P (rc_endpoint_id c) = Some pool \<and> unexpired observed (credentials pool ! lease_index l) \<and>
        cr_health reads \<le> h \<and> h < cr_health s0 \<and> reads_le reads s0 \<and>
        endpoint_is_available (re_health_hash env) (re_health env) (rc_endpoint_id c) (re_health_clock env h) \<and>
        test c (credential_id (credentials pool ! lease_index l)) s0 = (True, ls_reads s'))
    else searching P reads s'"
proof -
  let ?e = "rc_endpoint_id c"
  let ?up = "endpoint_is_available (re_health_hash env) (re_health env) ?e (re_health_clock env (cr_health (ls_reads s)))"
  let ?r1 = "(ls_reads s)\<lparr>cr_health := cr_health (ls_reads s) + 1\<rparr>"
  have r1: "reads_le reads ?r1" using s by (simp add: searching_def reads_le_def)
  show ?thesis
  proof (cases "cand_ok c \<and> ?up")
    case False
    then have "b = False" "s' = s \<or> s' = s\<lparr>ls_reads := ?r1\<rparr>"
      using run by (auto simp: lease_candidate_def health_test_def split: if_splits)
    then show ?thesis using s r1 by (auto simp: searching_def)
  next
    case True
    obtain lo Q r2 where t: "pools_try_lease_eligible_at ?e observed (test c) (ls_pools s) ?r1 = (lo, Q, r2)"
      by (metis prod_cases3)
    have res: "b = (lo \<noteq> None)" "s' = s\<lparr>ls_pools := Q, ls_reads := r2, ls_lease := (if lo = None then ls_lease s else lo)\<rparr>"
      using run True t by (auto simp: lease_candidate_def health_test_def split: option.splits)
    have keep: "reads_le ?r1 (snd (test c cid x))" if "reads_le ?r1 x" for cid x
      using mono [of c cid] that unfolding reading_test_def by (meson reads_le_trans)
    have out: "pools_ok Q \<and> (case lo of
        None \<Rightarrow> same_slots P Q \<and> reads_le ?r1 r2
      | Some l \<Rightarrow> lease_endpoint l = ?e \<and> leased l P Q \<and>
          (\<exists>pool s0. bm_get P ?e = Some pool \<and> unexpired observed (credentials pool ! lease_index l) \<and>
             reads_le ?r1 s0 \<and> test c (credential_id (credentials pool ! lease_index l)) s0 = (True, r2)))"
      by (rule pools_try_lease_eligible_at_outcome [OF _ _ t, where J = "reads_le ?r1"])
        (use s keep in \<open>auto simp: searching_def\<close>)
    show ?thesis
    proof (cases lo)
      case None
      then show ?thesis using out res s r1 by (auto simp: searching_def intro: reads_le_trans)
    next
      case (Some l)
      then obtain pool s0 where p: "bm_get P ?e = Some pool" "unexpired observed (credentials pool ! lease_index l)"
        "reads_le ?r1 s0" "test c (credential_id (credentials pool ! lease_index l)) s0 = (True, r2)"
        using out by auto
      have h: "cr_health reads \<le> cr_health (ls_reads s)" "cr_health (ls_reads s) < cr_health s0" "reads_le reads s0"
        using s r1 p(3) by (auto simp: searching_def reads_le_def)
      have "lease_endpoint l = ?e" "leased l P Q" "pools_ok Q" using out Some by auto
      then show ?thesis using True Some res p h by (simp) blast
    qed
  qed
qed

text \<open>
  What every health-aware selection does, whatever its binding test: the selected candidate is one of
  the route's, and the tests of its endpoint and of the leased binding succeeded during the selection.
\<close>

definition tested_selection ::
  "runtime_env \<Rightarrow> i64 \<Rightarrow> (snapshot_route_candidate \<Rightarrow> bool) \<Rightarrow>
     (snapshot_route_candidate \<Rightarrow> string \<Rightarrow> clock_reads \<Rightarrow> bool \<times> clock_reads) \<Rightarrow> snapshot_route option \<Rightarrow>
     endpoint_credential_pools \<Rightarrow> clock_reads \<Rightarrow> clock_reads \<Rightarrow> snapshot_route_candidate \<Rightarrow> credential_lease \<Rightarrow> bool" where
  "tested_selection env observed cand_ok test route P reads reads' c l \<longleftrightarrow>
     lease_endpoint l = rc_endpoint_id c \<and> cand_ok c \<and>
     (\<exists>rt pool h s0. route = Some rt \<and> c \<in> set (sr_candidates rt) \<and>
        bm_get P (rc_endpoint_id c) = Some pool \<and> unexpired observed (credentials pool ! lease_index l) \<and>
        cr_health reads \<le> h \<and> h < cr_health s0 \<and> reads_le reads s0 \<and>
        endpoint_is_available (re_health_hash env) (re_health env) (rc_endpoint_id c) (re_health_clock env h) \<and>
        test c (credential_id (credentials pool ! lease_index l)) s0 = (True, reads'))"

lemma run_selection_outcome:
  assumes ok: "scheduler_ok (rcs_candidates sch)" "pools_ok (rcs_credential_pools sch)"
    and mono: "\<And>c cid. reading_test (test c cid)"
    and run: "run_selection route_id (lease_candidate env observed cand_ok test) sch reads = (r, sch', reads')"
  shows "scheduler_ok (rcs_candidates sch')" "cs_snapshot (rcs_candidates sch') = cs_snapshot (rcs_candidates sch)"
    and "pools_ok (rcs_credential_pools sch') \<and>
     (case r of
        Inl e \<Rightarrow> e = credential_unavailable_error \<and> reads_le reads reads' \<and>
          same_slots (rcs_credential_pools sch) (rcs_credential_pools sch')
      | Inr sel \<Rightarrow> leased (sel_lease sel) (rcs_credential_pools sch) (rcs_credential_pools sch') \<and>
          tested_selection env observed cand_ok test (scheduler_route sch route_id) (rcs_credential_pools sch)
            reads reads' (sel_candidate sel) (sel_lease sel))"
proof -
  let ?test = "lease_candidate env observed cand_ok test" and ?P = "rcs_credential_pools sch"
  let ?s = "\<lparr>ls_pools = ?P, ls_lease = None, ls_reads = reads\<rparr>"
  obtain c cands s where sel: "select_eligible route_id ?test (rcs_candidates sch) ?s = (c, cands, s)"
    by (metis prod_cases3)
  have fin: "finish_selection c cands s = (r, sch', reads')" using run sel by (simp add: run_selection_def)
  have cands: "rcs_candidates sch' = cands" using fin by (auto simp: finish_selection_def split: option.splits)
  show "scheduler_ok (rcs_candidates sch')" "cs_snapshot (rcs_candidates sch') = cs_snapshot (rcs_candidates sch)"
    using select_eligible_keeps [OF ok(1) sel] by (simp_all add: cands)
  have start: "searching ?P reads ?s" using ok(2) by (simp add: searching_def)
  have keep: "searching ?P reads x'" if "searching ?P reads x" "?test c x = (False, x')" for c x x'
    using lease_candidate_outcome [OF mono that] by simp
  have out: "case c of
      None \<Rightarrow> searching ?P reads s
    | Some c \<Rightarrow> \<exists>route s0. scheduler_route sch route_id = Some route \<and> c \<in> set (sr_candidates route) \<and>
        searching ?P reads s0 \<and> ?test c s0 = (True, s)"
    unfolding scheduler_route_def
    by (rule select_eligible_outcome [of "searching ?P reads", OF keep start sel])
  show "pools_ok (rcs_credential_pools sch') \<and>
     (case r of
        Inl e \<Rightarrow> e = credential_unavailable_error \<and> reads_le reads reads' \<and> same_slots ?P (rcs_credential_pools sch')
      | Inr sel \<Rightarrow> leased (sel_lease sel) ?P (rcs_credential_pools sch') \<and>
          tested_selection env observed cand_ok test (scheduler_route sch route_id) ?P
            reads reads' (sel_candidate sel) (sel_lease sel))"
  proof (cases c)
    case None
    then have "searching ?P reads s" using out by simp
    then show ?thesis using fin None by (auto simp: finish_selection_def searching_def)
  next
    case (Some cand)
    then obtain route s0 where c: "scheduler_route sch route_id = Some route" "cand \<in> set (sr_candidates route)"
      "searching ?P reads s0" "?test cand s0 = (True, s)" using out by auto
    note cand = lease_candidate_outcome [OF mono c(3,4), simplified]
    then obtain l where l: "ls_lease s = Some l" by blast
    have "r = Inr \<lparr>sel_candidate = cand, sel_lease = l\<rparr>" "rcs_credential_pools sch' = ls_pools s" "reads' = ls_reads s"
      using fin Some l by (auto simp: finish_selection_def)
    then show ?thesis using cand l c(1,2) unfolding tested_selection_def by simp
  qed
qed

section \<open>Completeness while the clocks stand still\<close>

definition freeze :: "clock_reading \<Rightarrow> clock_reading \<Rightarrow> runtime_env \<Rightarrow> runtime_env" where
  "freeze t u env = env\<lparr>re_health_clock := \<lambda>_. t, re_quota_clock := \<lambda>_. u\<rparr>"

definition binding_admissible ::
  "runtime_env \<Rightarrow> clock_reading \<Rightarrow> clock_reading \<Rightarrow> (snapshot_route_candidate \<Rightarrow> string \<Rightarrow> bool) \<Rightarrow>
     snapshot_route_candidate \<Rightarrow> string \<Rightarrow> bool" where
  "binding_admissible env t u binding_ok c cid \<longleftrightarrow> binding_ok c cid \<and>
     endpoint_credential_is_available (re_health_hash env) (re_health env) (rc_endpoint_id c) cid t \<and>
     endpoint_credential_model_is_available (re_health_hash env) (re_health env) (rc_endpoint_id c) cid
       (rc_upstream_model c) t \<and>
     quota_endpoint_credential_is_available (re_quota_hash env) (re_quota env) (rc_endpoint_id c) cid u \<and>
     quota_endpoint_credential_model_is_available (re_quota_hash env) (re_quota env) (rc_endpoint_id c) cid
       (rc_upstream_model c) u"

definition slot_admissible ::
  "runtime_env \<Rightarrow> clock_reading \<Rightarrow> clock_reading \<Rightarrow> i64 \<Rightarrow> (snapshot_route_candidate \<Rightarrow> string \<Rightarrow> bool) \<Rightarrow>
     snapshot_route_candidate \<Rightarrow> credential_slot \<Rightarrow> bool" where
  "slot_admissible env t u observed binding_ok c slot \<longleftrightarrow>
     unexpired observed slot \<and> binding_admissible env t u binding_ok c (credential_id slot)"

definition candidate_leasable ::
  "runtime_env \<Rightarrow> clock_reading \<Rightarrow> clock_reading \<Rightarrow> i64 \<Rightarrow> (snapshot_route_candidate \<Rightarrow> bool) \<Rightarrow>
     (snapshot_route_candidate \<Rightarrow> string \<Rightarrow> bool) \<Rightarrow> endpoint_credential_pools \<Rightarrow> snapshot_route_candidate \<Rightarrow> bool" where
  "candidate_leasable env t u observed cand_ok binding_ok P c \<longleftrightarrow> cand_ok c \<and>
     endpoint_is_available (re_health_hash env) (re_health env) (rc_endpoint_id c) t \<and>
     (\<exists>pool i. bm_get P (rc_endpoint_id c) = Some pool \<and>
        available (slot_admissible env t u observed binding_ok c) pool i)"

text \<open>No pool's cursor comes within a schedule's length of wrapping in the next \<open>n\<close> searches.\<close>

definition pools_low :: "nat \<Rightarrow> endpoint_credential_pools \<Rightarrow> bool" where
  "pools_low n pools \<longleftrightarrow>
     (\<forall>e pool. bm_get pools e = Some pool \<longrightarrow> list_all (\<lambda>c. unat c + 1024 + n \<le> 2 ^ 64) (cursors pool))"

lemma fst_and_then: "fst (and_then f g s) \<longleftrightarrow> fst (f s) \<and> fst (g (snd (f s)))"
  by (simp add: and_then_def split_beta)

lemma frozen_binding_test:
  "fst (quota_binding_test (freeze t u env) binding_ok c cid s) = binding_admissible env t u binding_ok c cid"
  by (auto simp: quota_binding_test_def health_binding_test_def fst_and_then health_test_def quota_test_def
      quota_model_test_def quota_endpoint_credential_model_is_available_def quota_target_model_def
      binding_admissible_def freeze_def)

interpretation frozen_binding: lease_eligibility
  "\<lambda>slot s. if unexpired observed slot
     then quota_binding_test (freeze t u env) binding_ok c (credential_id slot) s else (False, s)"
  "\<lambda>_. True" "slot_admissible env t u observed binding_ok c"
  for env t u observed binding_ok c
  by unfold_locales (simp_all add: slot_admissible_def frozen_binding_test)

lemma scan_tiers_cursors:
  "scan_tiers f tiers ks x = (r, ks', x') \<Longrightarrow> list_all2 (\<lambda>k k'. k' = k \<or> k' = k + 1) ks ks'"
proof (induction f tiers ks x arbitrary: r ks' x' rule: scan_tiers.induct)
  case (1 f slots tiers k ks x)
  obtain r1 x1 where "scan_slots f slots k x = (r1, x1)" by fastforce
  with 1 show ?case by (cases r1) (auto split: prod.splits simp: list.rel_refl)
qed (auto simp: list.rel_refl)

lemma unat_succ_le: "unat (c + 1 :: 64 word) \<le> unat c + 1"
  by (simp add: unat_word_ariths)

lemma try_lease_slots_low:
  assumes "try_lease_slots elig pool s = (r, pool', s')"
    and low: "list_all (\<lambda>c. unat c + 1024 + Suc n \<le> 2 ^ 64) (cursors pool)"
  shows "list_all (\<lambda>c. unat c + 1024 + n \<le> 2 ^ 64) (cursors pool')"
proof -
  have rel: "list_all2 (\<lambda>k k'. k' = k \<or> k' = k + 1) (cursors pool) (cursors pool')"
    using assms(1) by (auto simp: try_lease_slots_def split: prod.splits dest: scan_tiers_cursors)
  have "unat (cursors pool' ! i) + 1024 + n \<le> 2 ^ 64" if "i < length (cursors pool')" for i
  proof -
    have i: "cursors pool' ! i = cursors pool ! i \<or> cursors pool' ! i = cursors pool ! i + 1"
      "i < length (cursors pool)"
      using rel that by (auto simp: list_all2_conv_all_nth)
    moreover have "unat (cursors pool ! i) + 1024 + Suc n \<le> 2 ^ 64" using low i(2) by (simp add: list_all_length)
    ultimately show ?thesis using unat_succ_le [of "cursors pool ! i"] by auto
  qed
  then show ?thesis by (simp add: list_all_length)
qed

lemma pools_low_Suc: "pools_low (Suc n) P \<Longrightarrow> pools_low n P"
  by (fastforce simp: pools_low_def list_all_iff)

text \<open>One pool of the set, searched with standing clocks.\<close>

lemma frozen_pool_search:
  assumes ok: "pools_ok P" "pools_low (Suc n) P"
    and run: "pools_try_lease_eligible_at (rc_endpoint_id c) observed
      (quota_binding_test (freeze t u env) binding_ok c) P s = (r, Q, s')"
  shows "pools_low n Q \<and> (case r of
      None \<Rightarrow> \<not> (\<exists>pool i. bm_get P (rc_endpoint_id c) = Some pool \<and>
        available (slot_admissible env t u observed binding_ok c) pool i)
    | Some l \<Rightarrow> (\<exists>pool. bm_get P (rc_endpoint_id c) = Some pool \<and>
        available (slot_admissible env t u observed binding_ok c) pool (lease_index l) \<and>
        (\<forall>i. available (slot_admissible env t u observed binding_ok c) pool i \<longrightarrow>
          cs_priority (credentials pool ! lease_index l) \<le> cs_priority (credentials pool ! i))))"
proof (cases "bm_get P (rc_endpoint_id c)")
  case None
  then show ?thesis using pools_low_Suc [OF ok(2)] run by (auto simp: pools_try_lease_eligible_at_def)
next
  case (Some pool)
  let ?elig = "\<lambda>slot s. if unexpired observed slot
     then quota_binding_test (freeze t u env) binding_ok c (credential_id slot) s else (False, s)"
  obtain pool' where l: "try_lease_slots ?elig pool s = (r, pool', s')" and Q: "Q = bm_insert (rc_endpoint_id c) pool' P"
    using run Some by (auto simp: pools_try_lease_eligible_at_def try_lease_eligible_at_def split: prod.splits)
  have pool: "pool_ok pool" "list_all (\<lambda>c. unat c + 1024 + Suc n \<le> 2 ^ 64) (cursors pool)"
    using ok Some by (auto simp: pools_ok_def pools_low_def)
  then have low: "cursors_low pool" by (auto simp: cursors_low_def list_all_iff)
  have "pools_low n Q"
    using try_lease_slots_low [OF l pool(2)] pools_low_Suc [OF ok(2)] by (auto simp: pools_low_def Q bm_get_insert)
  moreover note frozen_binding.search [OF pool(1) low TrueI l]
  ultimately show ?thesis using Some by (simp split: option.splits)
qed

lemma available_credentials:
  "credentials pool = credentials pool' \<Longrightarrow> available f pool i = available f pool' i"
  by (simp add: available_def)

definition frozen_search :: "endpoint_credential_pools \<Rightarrow> nat \<Rightarrow> lease_search \<Rightarrow> bool" where
  "frozen_search P n s \<longleftrightarrow> pools_ok (ls_pools s) \<and> same_slots P (ls_pools s) \<and> pools_low n (ls_pools s)"

definition best_slot :: "(credential_slot \<Rightarrow> bool) \<Rightarrow> endpoint_credential_pool \<Rightarrow> usize \<Rightarrow> bool" where
  "best_slot adm pool i \<longleftrightarrow> available adm pool i \<and>
     (\<forall>j. available adm pool j \<longrightarrow> cs_priority (credentials pool ! i) \<le> cs_priority (credentials pool ! j))"

lemma frozen_lease_candidate:
  assumes s: "frozen_search P (Suc n) s"
    and run: "lease_candidate (freeze t u env) observed cand_ok (quota_binding_test (freeze t u env) binding_ok) c s
      = (b, s')"
  shows "b = candidate_leasable env t u observed cand_ok binding_ok P c \<and>
    (if b then \<exists>l pool. ls_lease s' = Some l \<and> bm_get P (rc_endpoint_id c) = Some pool \<and>
        best_slot (slot_admissible env t u observed binding_ok c) pool (lease_index l)
      else frozen_search P n s')"
proof -
  let ?e = "rc_endpoint_id c" and ?adm = "slot_admissible env t u observed binding_ok c"
  let ?r1 = "(ls_reads s)\<lparr>cr_health := cr_health (ls_reads s) + 1\<rparr>"
  have ok: "pools_ok (ls_pools s)" "same_slots P (ls_pools s)" "pools_low (Suc n) (ls_pools s)"
    using s by (simp_all add: frozen_search_def)
  have same: "\<exists>pool0. bm_get P ?e = Some pool0 \<and> credentials pool0 = credentials pool"
    if "bm_get (ls_pools s) ?e = Some pool" for pool using same_slots_get [OF ok(2) that] .
  have here: "\<exists>pool. bm_get (ls_pools s) ?e = Some pool \<and> credentials pool0 = credentials pool"
    if "bm_get P ?e = Some pool0" for pool0
    using ok(2) that unfolding same_slots_def by (cases "bm_get (ls_pools s) ?e") (auto dest!: spec [of _ ?e])
  have avail: "(\<exists>pool i. bm_get P ?e = Some pool \<and> available ?adm pool i) \<longleftrightarrow>
      (\<exists>pool i. bm_get (ls_pools s) ?e = Some pool \<and> available ?adm pool i)"
    using same here available_credentials by metis
  show ?thesis
  proof (cases "cand_ok c \<and> endpoint_is_available (re_health_hash env) (re_health env) ?e t")
    case False
    then have "b = False" "ls_pools s' = ls_pools s"
      using run by (auto simp: lease_candidate_def health_test_def freeze_def split: if_splits)
    then show ?thesis
      using False ok pools_low_Suc [OF ok(3)] by (auto simp: candidate_leasable_def frozen_search_def)
  next
    case True
    obtain lo Q r2 where p: "pools_try_lease_eligible_at ?e observed (quota_binding_test (freeze t u env) binding_ok c)
        (ls_pools s) ?r1 = (lo, Q, r2)" by (metis prod_cases3)
    have res: "b = (lo \<noteq> None)" "ls_pools s' = Q" "lo \<noteq> None \<Longrightarrow> ls_lease s' = lo"
      using run True p by (auto simp: lease_candidate_def health_test_def freeze_def split: option.splits)
    note search = frozen_pool_search [OF ok(1,3) p]
      and out = pools_try_lease_eligible_at_outcome [OF ok(1,2) p, where J = "\<lambda>_. True", simplified]
    show ?thesis
    proof (cases lo)
      case None
      then show ?thesis using True search out res avail by (simp add: candidate_leasable_def frozen_search_def)
    next
      case (Some l)
      then obtain pool where l: "bm_get (ls_pools s) ?e = Some pool" "best_slot ?adm pool (lease_index l)"
        using search by (auto simp: best_slot_def)
      obtain pool0 where "bm_get P ?e = Some pool0" "credentials pool0 = credentials pool" using same [OF l(1)] by blast
      with l(2) have "bm_get P ?e = Some pool0" "best_slot ?adm pool0 (lease_index l)"
        by (simp_all add: best_slot_def available_def)
      then show ?thesis using True Some res(1,3) by (auto simp: candidate_leasable_def best_slot_def)
    qed
  qed
qed

interpretation frozen_candidate: candidate_eligibility
  "lease_candidate (freeze t u env) observed cand_ok (quota_binding_test (freeze t u env) binding_ok)"
  "frozen_search P" "candidate_leasable env t u observed cand_ok binding_ok P"
  for env t u observed cand_ok binding_ok P
proof
  fix n s c
  let ?f = "lease_candidate (freeze t u env) observed cand_ok (quota_binding_test (freeze t u env) binding_ok) c s"
  assume s: "frozen_search P (Suc n) s"
  note cand = frozen_lease_candidate [OF s prod.collapse [symmetric, of ?f]]
  then show "fst ?f = candidate_leasable env t u observed cand_ok binding_ok P c" ..
  show "frozen_search P n (snd ?f)" if "\<not> candidate_leasable env t u observed cand_ok binding_ok P c"
    using cand that by simp
qed

section \<open>Properties of the selection\<close>

text \<open>
  C3: A selection under runtime health and quota is sound, whatever its clocks read in the meantime: the
  selected candidate belongs to the route and passes the caller's test; the leased credential belongs
  to the candidate's endpoint, has not expired, had capacity and passes the caller's test; endpoint,
  binding and model were each available at a reading taken during the selection, with the endpoint
  read first; exactly one unit of capacity of that credential is taken, and dropping the lease gives it
  back. A failed selection is the safe credential error and leaves every slot as it was.
\<close>

theorem credential_selection_sound:
  assumes "scheduler_ok (rcs_candidates sch)" "pools_ok (rcs_credential_pools sch)"
    "select_eligible_and_lease_with_runtime_health_quota_and_binding_at env route_id observed cand_ok binding_ok
       sch reads = (r, sch', reads')"
  shows "scheduler_ok (rcs_candidates sch') \<and> pools_ok (rcs_credential_pools sch') \<and>
    (case r of
       Inl e \<Rightarrow> e = credential_unavailable_error \<and> same_slots (rcs_credential_pools sch) (rcs_credential_pools sch')
     | Inr sel \<Rightarrow>
         let c = sel_candidate sel; l = sel_lease sel in
         leased l (rcs_credential_pools sch) (rcs_credential_pools sch') \<and>
         same_slots (rcs_credential_pools sch) (pools_release l (rcs_credential_pools sch')) \<and>
         (\<exists>route pool cid h0 h q. scheduler_route sch route_id = Some route \<and> c \<in> set (sr_candidates route) \<and>
            cand_ok c \<and> lease_endpoint l = rc_endpoint_id c \<and>
            bm_get (rcs_credential_pools sch) (rc_endpoint_id c) = Some pool \<and>
            unexpired observed (credentials pool ! lease_index l) \<and>
            cid = credential_id (credentials pool ! lease_index l) \<and> binding_ok c cid \<and>
            cr_health reads \<le> h0 \<and> h0 < h \<and> h + 2 = cr_health reads' \<and> cr_quota reads \<le> q \<and> q + 2 = cr_quota reads' \<and>
            endpoint_is_available (re_health_hash env) (re_health env) (rc_endpoint_id c) (re_health_clock env h0) \<and>
            endpoint_credential_is_available (re_health_hash env) (re_health env) (rc_endpoint_id c) cid
              (re_health_clock env h) \<and>
            endpoint_credential_model_is_available (re_health_hash env) (re_health env) (rc_endpoint_id c) cid
              (rc_upstream_model c) (re_health_clock env (h + 1)) \<and>
            quota_endpoint_credential_is_available (re_quota_hash env) (re_quota env) (rc_endpoint_id c) cid
              (re_quota_clock env q) \<and>
            quota_endpoint_credential_model_is_available (re_quota_hash env) (re_quota env) (rc_endpoint_id c) cid
              (rc_upstream_model c) (re_quota_clock env (q + 1))))"
proof -
  note out = run_selection_outcome [OF assms(1,2) _
      assms(3) [unfolded select_eligible_and_lease_with_runtime_health_quota_and_binding_at_def], simplified]
  show ?thesis
  proof (cases r)
    case (Inl e)
    then show ?thesis using out by simp
  next
    case (Inr sel)
    obtain c l where sel: "sel = \<lparr>sel_candidate = c, sel_lease = l\<rparr>" by (cases sel)
    have lo: "leased l (rcs_credential_pools sch) (rcs_credential_pools sch')" "pools_ok (rcs_credential_pools sch')"
      and t: "tested_selection env observed cand_ok (quota_binding_test env binding_ok) (scheduler_route sch route_id)
        (rcs_credential_pools sch) reads reads' c l"
      using out(3) Inr sel by simp_all
    then show ?thesis using out(1) leased_release [OF lo(1)]
      unfolding Inr sel tested_selection_def quota_binding_test_True reads_le_def by (simp) fastforce
  qed
qed

text \<open>
  C4: While the clocks stand still, no candidate cursor is within 1024 of wrapping at \<open>2 ^ 64\<close>, and no
  credential cursor within 1024 plus the number of the route's slots, the selection is complete and
  respects both priorities: it fails exactly when no candidate of the route can be leased, and otherwise picks a
  candidate of the lowest priority value among those that can, and for it a credential of the lowest
  priority value among the usable ones of its endpoint.
\<close>

theorem credential_selection_complete:
  assumes "scheduler_ok (rcs_candidates sch)" "scheduler_low (rcs_candidates sch)" "pools_ok (rcs_credential_pools sch)"
    "pools_low (route_slots (cs_snapshot (rcs_candidates sch)) route_id) (rcs_credential_pools sch)"
    "scheduler_route sch route_id = Some route"
    "select_eligible_and_lease_with_runtime_health_quota_and_binding_at (freeze t u env) route_id observed
       cand_ok binding_ok sch reads = (r, sch', reads')"
  shows "case r of
      Inl e \<Rightarrow> \<forall>c \<in> set (sr_candidates route).
        \<not> candidate_leasable env t u observed cand_ok binding_ok (rcs_credential_pools sch) c
    | Inr sel \<Rightarrow>
        let c = sel_candidate sel; l = sel_lease sel in
        c \<in> set (sr_candidates route) \<and>
        candidate_leasable env t u observed cand_ok binding_ok (rcs_credential_pools sch) c \<and>
        (\<forall>d \<in> set (sr_candidates route).
           candidate_leasable env t u observed cand_ok binding_ok (rcs_credential_pools sch) d \<longrightarrow>
           rc_priority c \<le> rc_priority d) \<and>
        (\<exists>pool. bm_get (rcs_credential_pools sch) (rc_endpoint_id c) = Some pool \<and>
           best_slot (slot_admissible env t u observed binding_ok c) pool (lease_index l))"
proof -
  let ?P = "rcs_credential_pools sch" and ?leasable = "candidate_leasable env t u observed cand_ok binding_ok (rcs_credential_pools sch)"
  let ?test = "lease_candidate (freeze t u env) observed cand_ok (quota_binding_test (freeze t u env) binding_ok)"
  let ?s = "\<lparr>ls_pools = ?P, ls_lease = None, ls_reads = reads\<rparr>"
  obtain co cands s where sel: "select_eligible route_id ?test (rcs_candidates sch) ?s = (co, cands, s)"
    by (metis prod_cases3)
  have fin: "finish_selection co cands s = (r, sch', reads')"
    using assms(6) sel by (simp add: run_selection_def select_eligible_and_lease_with_runtime_health_quota_and_binding_at_def)
  have start: "frozen_search ?P (0 + route_slots (cs_snapshot (rcs_candidates sch)) route_id) ?s"
    using assms(3,4) by (simp add: frozen_search_def)
  note search = frozen_candidate.selection [OF assms(1,2) start assms(5) [unfolded scheduler_route_def] sel]
  show ?thesis
  proof (cases co)
    case None
    then have "\<exists>e. r = Inl e" using fin by (auto simp: finish_selection_def split: option.splits)
    then show ?thesis using search None by auto
  next
    case (Some c)
    then obtain m s0 where c: "c \<in> set (sr_candidates route)" "?leasable c" "frozen_search ?P (Suc m) s0" "s = snd (?test c s0)"
      "\<forall>d \<in> set (sr_candidates route). ?leasable d \<longrightarrow> rc_priority c \<le> rc_priority d"
      using search by auto
    obtain l pool where l: "ls_lease s = Some l" "bm_get ?P (rc_endpoint_id c) = Some pool"
      "best_slot (slot_admissible env t u observed binding_ok c) pool (lease_index l)"
      using frozen_lease_candidate [OF c(3) prod.collapse [symmetric, of "?test c s0"]] c(2,4) by auto
    have "r = Inr \<lparr>sel_candidate = c, sel_lease = l\<rparr>" using fin Some l(1) by (auto simp: finish_selection_def)
    then show ?thesis using c l by simp
  qed
qed

text \<open>
  The sample route over the sample pool: credential \<open>a\<close> expires at 50 and \<open>b\<close> is forbidden, which leaves
  the fallback \<open>c\<close>.
\<close>

definition sample_env :: runtime_env where
  "sample_env =
     \<lparr>re_health_hash = sample_hash,
      re_health = snd (mark_credential_forbidden sample_hash (Some 1) ''ep'' ''b'' (sample_health [] 1 1)),
      re_health_clock = \<lambda>_. Some 70, re_quota_hash = sample_quota_hash, re_quota = sample_quota,
      re_quota_clock = \<lambda>_. Some 70\<rparr>"

definition sample_scheduler :: route_credential_scheduler where
  "sample_scheduler = credential_scheduler_new sample_snapshot [(''ep'', sample_pool)]"

definition no_reads :: clock_reads where
  "no_reads = \<lparr>cr_health = 0, cr_quota = 0\<rparr>"

definition sample_selection ::
  "(gateway_error + selected_route_credential) \<times> route_credential_scheduler \<times> clock_reads" where
  "sample_selection = select_eligible_and_lease_with_runtime_health_quota_and_binding_at
     (freeze (Some 70) (Some 70) sample_env) ''r'' 70 (\<lambda>_. True) (\<lambda>_ _. True) sample_scheduler no_reads"

lemma sample_selection_found:
  "fst sample_selection = Inr \<lparr>sel_candidate = sample_candidate ''a'' 0 2,
     sel_lease = \<lparr>lease_endpoint = ''ep'', lease_index = 2\<rparr>\<rparr>"
  by code_simp

lemma sample_scheduler_ok:
  "scheduler_ok (rcs_candidates sample_scheduler)" "pools_ok (rcs_credential_pools sample_scheduler)"
  using candidate_scheduler_new_ok [OF sample_snapshot_ok] sample_pool_ok
  by (simp_all add: sample_scheduler_def credential_scheduler_new_def pools_ok_def sample_pool_def)

theorem credential_selection_sound_witness:
  "(\<exists>sel. fst sample_selection = Inr sel \<and> lease_index (sel_lease sel) = 2 \<and>
     leased (sel_lease sel) (rcs_credential_pools sample_scheduler) (rcs_credential_pools (fst (snd sample_selection))))"
proof -
  obtain r sch' reads' where run: "sample_selection = (r, sch', reads')" by (metis prod_cases3)
  note sound = credential_selection_sound [OF sample_scheduler_ok run [unfolded sample_selection_def]]
  have "r = Inr \<lparr>sel_candidate = sample_candidate ''a'' 0 2, sel_lease = \<lparr>lease_endpoint = ''ep'', lease_index = 2\<rparr>\<rparr>"
    using sample_selection_found unfolding run fst_conv .
  then show ?thesis using sound by (simp add: Let_def run)
qed

theorem credential_selection_complete_witness:
  "(\<exists>sel. fst sample_selection = Inr sel \<and> lease_index (sel_lease sel) = 2 \<and>
     best_slot (slot_admissible sample_env (Some 70) (Some 70) 70 (\<lambda>_ _. True) (sel_candidate sel)) sample_pool 2)"
proof -
  obtain r sch' reads' where run: "sample_selection = (r, sch', reads')" by (metis prod_cases3)
  have low: "scheduler_low (rcs_candidates sample_scheduler)"
    using candidate_scheduler_new_ok [OF sample_snapshot_ok]
    by (simp add: sample_scheduler_def credential_scheduler_new_def)
  have snap: "cs_snapshot (rcs_candidates sample_scheduler) = sample_snapshot"
    by (simp add: sample_scheduler_def credential_scheduler_new_def candidate_scheduler_new_def)
  have slots: "route_slots sample_snapshot ''r'' = 4"
    by (simp add: route_slots_def sample_snapshot_def sample_tiers_def)
  have pool: "rcs_credential_pools sample_scheduler = [(''ep'', sample_pool)]"
    by (simp add: sample_scheduler_def credential_scheduler_new_def)
  have plow: "pools_low (route_slots (cs_snapshot (rcs_candidates sample_scheduler)) ''r'')
      (rcs_credential_pools sample_scheduler)"
    unfolding snap slots pool by (simp add: pools_low_def sample_pool_def)
  have route: "scheduler_route sample_scheduler ''r'' = Some sample_route"
    by (simp add: scheduler_route_def snap sample_snapshot_def)
  note complete = credential_selection_complete [OF sample_scheduler_ok(1) low sample_scheduler_ok(2) plow route
      run [unfolded sample_selection_def]]
  have "r = Inr \<lparr>sel_candidate = sample_candidate ''a'' 0 2, sel_lease = \<lparr>lease_endpoint = ''ep'', lease_index = 2\<rparr>\<rparr>"
    using sample_selection_found unfolding run fst_conv .
  moreover have "rc_endpoint_id (sample_candidate ''a'' 0 2) = ''ep''" by (simp add: sample_candidate_def)
  ultimately show ?thesis using complete by (simp add: Let_def run pool)
qed

end
