(* ===== verification/Canonical_Events.thy ===== *)
theory Canonical_Events
  imports Gateway_Core
begin

text \<open>
  The canonical event stream and its lifecycle validation
  (\<open>src/crates/gateway-core/src/canonical_event.rs\<close>). A response is a finite sequence of
  events; \<open>CanonicalEventState::apply\<close> accepts or rejects the next event and
  \<open>CanonicalResponse::try_new\<close> accepts a whole sequence. A method on \<open>&mut self\<close> returns its
  result and the state after the call.
\<close>

section \<open>Events\<close>

record response_start =
  rs_response_id :: string
  rs_extensions :: raw_extensions

record message_start =
  ms_role :: string
  ms_extensions :: raw_extensions

record text_delta =
  td_text :: string
  td_extensions :: raw_extensions

record reasoning_delta =
  rd_text :: string
  rd_extensions :: raw_extensions

record tool_call_start =
  tcs_call_id :: string
  tcs_name :: string
  tcs_extensions :: raw_extensions

record tool_call_arguments_delta =
  tcd_call_id :: string
  tcd_delta :: string
  tcd_extensions :: raw_extensions

record tool_call_end =
  tce_call_id :: string
  tce_arguments :: raw_json
  tce_extensions :: raw_extensions

record usage =
  input_tokens :: "u64 option"
  output_tokens :: "u64 option"
  reasoning_tokens :: "u64 option"
  cache_read_tokens :: "u64 option"
  cache_creation_tokens :: "u64 option"
  cached_tokens :: "u64 option"
  us_extensions :: raw_extensions

record usage_delta =
  ud_usage :: usage
  ud_is_final :: bool
  ud_extensions :: raw_extensions

record message_end =
  me_extensions :: raw_extensions

record response_end =
  stop_reason :: "string option"
  stop_sequence :: "string option"
  re_extensions :: raw_extensions

record stream_error =
  se_error :: gateway_error

datatype canonical_event =
    ResponseStart response_start
  | MessageStart message_start
  | TextDelta text_delta
  | ReasoningDelta reasoning_delta
  | ToolCallStart tool_call_start
  | ToolCallArgumentsDelta tool_call_arguments_delta
  | ToolCallEnd tool_call_end
  | UsageDelta usage_delta
  | MessageEnd message_end
  | ResponseEnd response_end
  | StreamError stream_error

section \<open>Lifecycle state\<close>

datatype tool_call_lifecycle = Declared | ArgumentsStreaming | Emitted

datatype usage_lifecycle = NotReported | Interim | Final

record open_response =
  message_open :: bool
  tool_calls :: "(string, tool_call_lifecycle) bmap"
  usage_state :: usage_lifecycle

datatype response_lifecycle =
    Initial
  | Open open_response
  | Completed
  | Failed gateway_error

definition open_response_default :: open_response where
  "open_response_default = \<lparr>message_open = False, tool_calls = [], usage_state = NotReported\<rparr>"

definition has_open_tool_call :: "open_response \<Rightarrow> bool" where
  "has_open_tool_call r = list_ex (\<lambda>e. snd e \<noteq> Emitted) (tool_calls r)"

definition is_ready_to_end :: "open_response \<Rightarrow> bool" where
  "is_ready_to_end r = (\<not> message_open r \<and> \<not> has_open_tool_call r)"

definition start_tool_call ::
  "tool_call_start \<Rightarrow> open_response \<Rightarrow> (gateway_error + unit) \<times> open_response" where
  "start_tool_call start r =
     (if \<not> message_open r \<or> tcs_call_id start = [] \<or> tcs_name start = []
         \<or> bm_get (tool_calls r) (tcs_call_id start) \<noteq> None
      then (Err stream_protocol_error, r)
      else (Ok (), r\<lparr>tool_calls := bm_insert (tcs_call_id start) Declared (tool_calls r)\<rparr>))"

definition append_tool_arguments ::
  "tool_call_arguments_delta \<Rightarrow> open_response \<Rightarrow> (gateway_error + unit) \<times> open_response" where
  "append_tool_arguments delta r =
     (if \<not> message_open r then (Err stream_protocol_error, r)
      else case bm_get (tool_calls r) (tcd_call_id delta) of
        None \<Rightarrow> (Err stream_protocol_error, r)
      | Some Declared \<Rightarrow>
          (Ok (), r\<lparr>tool_calls := bm_insert (tcd_call_id delta) ArgumentsStreaming (tool_calls r)\<rparr>)
      | Some ArgumentsStreaming \<Rightarrow> (Ok (), r)
      | Some Emitted \<Rightarrow> (Err stream_protocol_error, r))"

definition end_tool_call ::
  "tool_call_end \<Rightarrow> open_response \<Rightarrow> (gateway_error + unit) \<times> open_response" where
  "end_tool_call tend r =
     (if \<not> message_open r then (Err stream_protocol_error, r)
      else case bm_get (tool_calls r) (tce_call_id tend) of
        None \<Rightarrow> (Err stream_protocol_error, r)
      | Some Emitted \<Rightarrow> (Err stream_protocol_error, r)
      | Some _ \<Rightarrow> (Ok (), r\<lparr>tool_calls := bm_insert (tce_call_id tend) Emitted (tool_calls r)\<rparr>))"

definition record_usage ::
  "usage_delta \<Rightarrow> open_response \<Rightarrow> (gateway_error + unit) \<times> open_response" where
  "record_usage delta r =
     (if usage_state r = Final then (Err stream_protocol_error, r)
      else (Ok (), r\<lparr>usage_state := (if ud_is_final delta then Final else Interim)\<rparr>))"

definition end_message :: "open_response \<Rightarrow> (gateway_error + unit) \<times> open_response" where
  "end_message r =
     (if \<not> message_open r then (Err stream_protocol_error, r)
      else if has_open_tool_call r then (Err stream_protocol_error, r)
      else (Ok (), r\<lparr>message_open := False\<rparr>))"

fun open_response_apply ::
  "canonical_event \<Rightarrow> open_response \<Rightarrow> (gateway_error + unit) \<times> open_response" where
  "open_response_apply (MessageStart _) r =
     (if message_open r then (Err stream_protocol_error, r) else (Ok (), r\<lparr>message_open := True\<rparr>))"
| "open_response_apply (TextDelta delta) r =
     (if \<not> message_open r \<or> td_text delta = [] then (Err stream_protocol_error, r) else (Ok (), r))"
| "open_response_apply (ReasoningDelta delta) r =
     (if \<not> message_open r \<or> rd_text delta = [] then (Err stream_protocol_error, r) else (Ok (), r))"
| "open_response_apply (ToolCallStart start) r = start_tool_call start r"
| "open_response_apply (ToolCallArgumentsDelta delta) r = append_tool_arguments delta r"
| "open_response_apply (ToolCallEnd tend) r = end_tool_call tend r"
| "open_response_apply (UsageDelta delta) r = record_usage delta r"
| "open_response_apply (MessageEnd _) r = end_message r"
| "open_response_apply (ResponseStart _) r = (Err stream_protocol_error, r)"
| "open_response_apply (ResponseEnd _) r = (Err stream_protocol_error, r)"
| "open_response_apply (StreamError _) r = (Err stream_protocol_error, r)"

fun is_terminal :: "response_lifecycle \<Rightarrow> bool" where
  "is_terminal Completed = True"
| "is_terminal (Failed _) = True"
| "is_terminal _ = False"

fun is_success :: "response_lifecycle \<Rightarrow> bool" where
  "is_success Completed = True"
| "is_success _ = False"

text \<open>
  \<open>CanonicalEventState::apply\<close>. The order of the tests is the source's: terminal states,
  the initial state, \<open>StreamError\<close>, \<open>ResponseEnd\<close>, a second \<open>ResponseStart\<close>, then the open
  response. In the last two cases the lifecycle is \<open>Open\<close>.
\<close>

definition lifecycle_apply ::
  "canonical_event \<Rightarrow> response_lifecycle \<Rightarrow> (gateway_error + unit) \<times> response_lifecycle" where
  "lifecycle_apply event st =
     (case st of
        Completed \<Rightarrow> (Err stream_protocol_error, st)
      | Failed _ \<Rightarrow> (Err stream_protocol_error, st)
      | Initial \<Rightarrow>
          (case event of
             ResponseStart _ \<Rightarrow> (Ok (), Open open_response_default)
           | _ \<Rightarrow> (Err stream_protocol_error, st))
      | Open r \<Rightarrow>
          (case event of
             StreamError e \<Rightarrow> (Ok (), Failed (se_error e))
           | ResponseEnd e \<Rightarrow>
               if \<not> is_ready_to_end r then (Err stream_truncated_error, st)
               else if stop_reason e = Some [] \<or> stop_sequence e = Some []
                    then (Err stream_protocol_error, st)
               else (Ok (), Completed)
           | ResponseStart _ \<Rightarrow> (Err stream_protocol_error, st)
           | _ \<Rightarrow> (let (res, r') = open_response_apply event r in (res, Open r'))))"

definition lifecycle_finish :: "response_lifecycle \<Rightarrow> gateway_error + unit" where
  "lifecycle_finish st = (if is_terminal st then Ok () else Err stream_truncated_error)"

fun require_success :: "response_lifecycle \<Rightarrow> gateway_error + unit" where
  "require_success Completed = Ok ()"
| "require_success (Failed e) = Err e"
| "require_success Initial = Err stream_truncated_error"
| "require_success (Open _) = Err stream_truncated_error"

text \<open>The loop of \<open>CanonicalResponse::try_new\<close>: it stops at the first rejected event.\<close>

fun lifecycle_run ::
  "canonical_event list \<Rightarrow> response_lifecycle \<Rightarrow> gateway_error + response_lifecycle" where
  "lifecycle_run [] st = Ok st"
| "lifecycle_run (event # events) st =
     (case lifecycle_apply event st of
        (Inl e, _) \<Rightarrow> Err e
      | (Inr _, st') \<Rightarrow> lifecycle_run events st')"

definition canonical_response_try_new ::
  "canonical_event list \<Rightarrow> gateway_error + canonical_event list" where
  "canonical_response_try_new events =
     (case lifecycle_run events Initial of
        Inl e \<Rightarrow> Err e
      | Inr st \<Rightarrow> (case require_success st of Inl e \<Rightarrow> Err e | Inr _ \<Rightarrow> Ok events))"

section \<open>Rejected events and terminal states\<close>

lemmas open_steps = start_tool_call_def append_tool_arguments_def end_tool_call_def
  record_usage_def end_message_def

lemma open_response_apply_rejects:
  "open_response_apply event r = (Inl e, r') \<Longrightarrow> r' = r \<and> e = stream_protocol_error"
  by (cases event) (auto simp: open_steps split: if_splits option.splits tool_call_lifecycle.splits)

lemma lifecycle_apply_reject:
  "lifecycle_apply event st = (Inl e, st') \<Longrightarrow>
     st' = st \<and>
     (e = stream_protocol_error \<or>
      e = stream_truncated_error \<and> (\<exists>re r. event = ResponseEnd re \<and> st = Open r \<and> \<not> is_ready_to_end r))"
  by (cases event; cases st)
    (auto simp: lifecycle_apply_def dest: open_response_apply_rejects
      simp del: open_response_apply.simps split: if_splits prod.splits)

text \<open>
  \<open>CanonicalEventState::apply\<close> leaves the state exactly as it was when it rejects an event,
  and the error is one of the two documented stream errors (\<open>StreamTruncated\<close> only for a
  \<open>ResponseEnd\<close> that leaves work unclosed); once a response is terminal every further event is
  rejected, so a terminal state is final.
\<close>

lemma rejected_event_changes_nothing:
  "(\<forall>e st'. lifecycle_apply event st = (Inl e, st') \<longrightarrow>
     st' = st \<and>
     (e = stream_protocol_error \<or>
      e = stream_truncated_error \<and> (\<exists>re r. event = ResponseEnd re \<and> st = Open r \<and> \<not> is_ready_to_end r)))
   \<and> (is_terminal st \<longrightarrow> lifecycle_apply event st = (Inl stream_protocol_error, st))"
proof (intro conjI allI impI)
  assume "is_terminal st"
  then show "lifecycle_apply event st = (Inl stream_protocol_error, st)"
    by (cases st) (simp_all add: lifecycle_apply_def)
qed (use lifecycle_apply_reject in blast)+

lemma rejected_event_changes_nothing_sample:
  "lifecycle_apply (ResponseEnd \<lparr>stop_reason = None, stop_sequence = None, re_extensions = []\<rparr>)
     (Open (open_response_default \<lparr>message_open := True\<rparr>))
     = (Inl stream_truncated_error, Open (open_response_default \<lparr>message_open := True\<rparr>))
   \<and> lifecycle_apply (StreamError \<lparr>se_error = stream_protocol_error\<rparr>) Completed
     = (Inl stream_protocol_error, Completed)"
proof
  let ?e = "ResponseEnd \<lparr>stop_reason = None, stop_sequence = None, re_extensions = []\<rparr>"
  let ?st = "Open (open_response_default \<lparr>message_open := True\<rparr>)"
  have "fst (lifecycle_apply ?e ?st) = Inl stream_truncated_error" by code_simp
  then have "lifecycle_apply ?e ?st = (Inl stream_truncated_error, snd (lifecycle_apply ?e ?st))"
    by (metis prod.collapse)
  with rejected_event_changes_nothing [of ?e ?st]
  show "lifecycle_apply ?e ?st = (Inl stream_truncated_error, ?st)" by metis
next
  show "lifecycle_apply (StreamError \<lparr>se_error = stream_protocol_error\<rparr>) Completed
     = (Inl stream_protocol_error, Completed)"
    using rejected_event_changes_nothing [of _ Completed] by simp
qed

section \<open>The accepted sequences\<close>

text \<open>
  A declarative reading of the lifecycle: what the events so far (the history) allow next.
  It counts events and keeps no state.
\<close>

definition message_starts :: "canonical_event list \<Rightarrow> nat" where
  "message_starts h = length (filter (\<lambda>e. case e of MessageStart _ \<Rightarrow> True | _ \<Rightarrow> False) h)"

definition message_ends :: "canonical_event list \<Rightarrow> nat" where
  "message_ends h = length (filter (\<lambda>e. case e of MessageEnd _ \<Rightarrow> True | _ \<Rightarrow> False) h)"

definition tool_starts :: "string \<Rightarrow> canonical_event list \<Rightarrow> nat" where
  "tool_starts i h =
     length (filter (\<lambda>e. case e of ToolCallStart s \<Rightarrow> tcs_call_id s = i | _ \<Rightarrow> False) h)"

definition tool_ends :: "string \<Rightarrow> canonical_event list \<Rightarrow> nat" where
  "tool_ends i h =
     length (filter (\<lambda>e. case e of ToolCallEnd t \<Rightarrow> tce_call_id t = i | _ \<Rightarrow> False) h)"

definition final_usages :: "canonical_event list \<Rightarrow> nat" where
  "final_usages h = length (filter (\<lambda>e. case e of UsageDelta d \<Rightarrow> ud_is_final d | _ \<Rightarrow> False) h)"

definition terminals :: "canonical_event list \<Rightarrow> nat" where
  "terminals h =
     length (filter (\<lambda>e. case e of ResponseEnd _ \<Rightarrow> True | StreamError _ \<Rightarrow> True | _ \<Rightarrow> False) h)"

lemmas history_defs = message_starts_def message_ends_def tool_starts_def tool_ends_def
  final_usages_def terminals_def

definition in_message :: "canonical_event list \<Rightarrow> bool" where
  "in_message h \<longleftrightarrow> message_starts h = Suc (message_ends h)"

definition between_messages :: "canonical_event list \<Rightarrow> bool" where
  "between_messages h \<longleftrightarrow> message_starts h = message_ends h"

definition tool_open :: "string \<Rightarrow> canonical_event list \<Rightarrow> bool" where
  "tool_open i h \<longleftrightarrow> tool_starts i h = 1 \<and> tool_ends i h = 0"

definition tools_closed :: "canonical_event list \<Rightarrow> bool" where
  "tools_closed h \<longleftrightarrow>
     list_all (\<lambda>e. case e of ToolCallStart s \<Rightarrow> \<not> tool_open (tcs_call_id s) h | _ \<Rightarrow> True) h"

fun event_allowed :: "canonical_event list \<Rightarrow> canonical_event \<Rightarrow> bool" where
  "event_allowed [] e = (case e of ResponseStart _ \<Rightarrow> True | _ \<Rightarrow> False)"
| "event_allowed h e =
     (terminals h = 0 \<and>
      (case e of
         ResponseStart _ \<Rightarrow> False
       | MessageStart _ \<Rightarrow> between_messages h
       | TextDelta d \<Rightarrow> in_message h \<and> td_text d \<noteq> []
       | ReasoningDelta d \<Rightarrow> in_message h \<and> rd_text d \<noteq> []
       | ToolCallStart s \<Rightarrow> in_message h \<and> tcs_call_id s \<noteq> [] \<and> tcs_name s \<noteq> []
           \<and> tool_starts (tcs_call_id s) h = 0
       | ToolCallArgumentsDelta d \<Rightarrow> in_message h \<and> tool_open (tcd_call_id d) h
       | ToolCallEnd t \<Rightarrow> in_message h \<and> tool_open (tce_call_id t) h
       | UsageDelta _ \<Rightarrow> final_usages h = 0
       | MessageEnd _ \<Rightarrow> in_message h \<and> tools_closed h
       | ResponseEnd x \<Rightarrow> between_messages h \<and> tools_closed h
           \<and> stop_reason x \<noteq> Some [] \<and> stop_sequence x \<noteq> Some []
       | StreamError _ \<Rightarrow> True))"

definition lawful :: "canonical_event list \<Rightarrow> bool" where
  "lawful es \<longleftrightarrow> (\<forall>i < length es. event_allowed (take i es) (es ! i))"

lemma lawful_snoc: "lawful (es @ [e]) \<longleftrightarrow> lawful es \<and> event_allowed es e"
  by (auto simp: lawful_def nth_append less_Suc_eq)

lemma lifecycle_run_append:
  "lifecycle_run (xs @ ys) st = (case lifecycle_run xs st of Inl e \<Rightarrow> Err e | Inr st' \<Rightarrow> lifecycle_run ys st')"
  by (induction xs arbitrary: st) (auto split: prod.splits sum.splits)

text \<open>What the lifecycle state remembers of the history.\<close>

fun tool_phase :: "tool_call_lifecycle option \<Rightarrow> nat \<Rightarrow> nat \<Rightarrow> bool" where
  "tool_phase None s t \<longleftrightarrow> s = 0 \<and> t = 0"
| "tool_phase (Some Emitted) s t \<longleftrightarrow> s = 1 \<and> t = 1"
| "tool_phase (Some _) s t \<longleftrightarrow> s = 1 \<and> t = 0"

fun remembers :: "canonical_event list \<Rightarrow> response_lifecycle \<Rightarrow> bool" where
  "remembers h Initial \<longleftrightarrow> h = []"
| "remembers h (Open r) \<longleftrightarrow>
     h \<noteq> [] \<and> terminals h = 0 \<and> bm_ok (tool_calls r) \<and>
     message_starts h = message_ends h + of_bool (message_open r) \<and>
     (\<forall>i. tool_phase (bm_get (tool_calls r) i) (tool_starts i h) (tool_ends i h)) \<and>
     (usage_state r = Final \<longleftrightarrow> 0 < final_usages h)"
| "remembers h _ \<longleftrightarrow> 0 < terminals h"

lemma history_snoc [simp]:
  "message_starts (h @ [e]) = message_starts h + of_bool (case e of MessageStart _ \<Rightarrow> True | _ \<Rightarrow> False)"
  "message_ends (h @ [e]) = message_ends h + of_bool (case e of MessageEnd _ \<Rightarrow> True | _ \<Rightarrow> False)"
  "tool_starts i (h @ [e]) =
     tool_starts i h + of_bool (case e of ToolCallStart s \<Rightarrow> tcs_call_id s = i | _ \<Rightarrow> False)"
  "tool_ends i (h @ [e]) =
     tool_ends i h + of_bool (case e of ToolCallEnd t \<Rightarrow> tce_call_id t = i | _ \<Rightarrow> False)"
  "final_usages (h @ [e]) =
     final_usages h + of_bool (case e of UsageDelta d \<Rightarrow> ud_is_final d | _ \<Rightarrow> False)"
  "terminals (h @ [e]) =
     terminals h + of_bool (case e of ResponseEnd _ \<Rightarrow> True | StreamError _ \<Rightarrow> True | _ \<Rightarrow> False)"
  by (simp_all add: history_defs)

lemma history_Nil [simp]:
  "message_starts [] = 0" "message_ends [] = 0" "tool_starts i [] = 0" "tool_ends i [] = 0"
  "final_usages [] = 0" "terminals [] = 0"
  by (simp_all add: history_defs)

lemma tool_phase_open:
  "tool_phase l s t \<Longrightarrow> s = Suc 0 \<and> t = 0 \<longleftrightarrow> (l = Some Declared \<or> l = Some ArgumentsStreaming)"
  by (cases l rule: option.exhaust; cases "the l") auto

lemma tool_starts_pos: "0 < tool_starts i h \<longleftrightarrow> (\<exists>s. ToolCallStart s \<in> set h \<and> tcs_call_id s = i)"
  by (auto simp: tool_starts_def filter_empty_conv split: canonical_event.splits)
    (metis canonical_event.case(5) canonical_event.exhaust)+

lemma tools_closed_iff: "tools_closed h \<longleftrightarrow> (\<forall>i. \<not> tool_open i h)"
proof
  assume closed: "tools_closed h"
  show "\<forall>i. \<not> tool_open i h"
  proof (intro allI notI)
    fix i assume i: "tool_open i h"
    then have "0 < tool_starts i h" by (simp add: tool_open_def)
    then obtain s where "ToolCallStart s \<in> set h" "tcs_call_id s = i"
      by (auto simp: tool_starts_pos)
    with closed i show False
      by (fastforce simp: tools_closed_def list_all_iff)
  qed
next
  assume "\<forall>i. \<not> tool_open i h"
  then show "tools_closed h"
    by (auto simp: tools_closed_def list_all_iff split: canonical_event.splits)
qed

lemma has_open_tool_call_iff:
  "bm_ok (tool_calls r) \<Longrightarrow>
     has_open_tool_call r \<longleftrightarrow> (\<exists>i l. bm_get (tool_calls r) i = Some l \<and> l \<noteq> Emitted)"
  by (force simp: has_open_tool_call_def list_ex_iff bm_ok_def strict_sorted_iff map_of_eq_Some_iff)

lemma remembers_tool:
  assumes "remembers h (Open r)"
  shows "tool_starts i h = 0 \<longleftrightarrow> bm_get (tool_calls r) i = None"
    and "tool_open i h \<longleftrightarrow>
      bm_get (tool_calls r) i = Some Declared \<or> bm_get (tool_calls r) i = Some ArgumentsStreaming"
proof -
  from assms have ph: "tool_phase (bm_get (tool_calls r) i) (tool_starts i h) (tool_ends i h)"
    by simp
  then show "tool_open i h \<longleftrightarrow>
      bm_get (tool_calls r) i = Some Declared \<or> bm_get (tool_calls r) i = Some ArgumentsStreaming"
    by (simp add: tool_open_def tool_phase_open)
  from ph show "tool_starts i h = 0 \<longleftrightarrow> bm_get (tool_calls r) i = None"
    by (cases "bm_get (tool_calls r) i"; cases "the (bm_get (tool_calls r) i)") auto
qed

lemma remembers_tools_closed:
  assumes "remembers h (Open r)"
  shows "tools_closed h \<longleftrightarrow> \<not> has_open_tool_call r"
proof -
  have "tool_open i h \<longleftrightarrow> (\<exists>l. bm_get (tool_calls r) i = Some l \<and> l \<noteq> Emitted)" for i
    using remembers_tool(2) [OF assms, of i] tool_call_lifecycle.exhaust by force
  then show ?thesis
    using assms by (simp add: tools_closed_iff has_open_tool_call_iff)
qed

lemma remembers_message:
  assumes "remembers h (Open r)"
  shows "in_message h \<longleftrightarrow> message_open r" and "between_messages h \<longleftrightarrow> \<not> message_open r"
  using assms by (auto simp: in_message_def between_messages_def)

lemmas remembers_facts = remembers_message remembers_tool remembers_tools_closed

lemma event_allowed_nonempty:
  "h \<noteq> [] \<Longrightarrow> terminals h = 0 \<Longrightarrow> event_allowed h e \<longleftrightarrow>
      (case e of
         ResponseStart _ \<Rightarrow> False
       | MessageStart _ \<Rightarrow> between_messages h
       | TextDelta d \<Rightarrow> in_message h \<and> td_text d \<noteq> []
       | ReasoningDelta d \<Rightarrow> in_message h \<and> rd_text d \<noteq> []
       | ToolCallStart s \<Rightarrow> in_message h \<and> tcs_call_id s \<noteq> [] \<and> tcs_name s \<noteq> []
           \<and> tool_starts (tcs_call_id s) h = 0
       | ToolCallArgumentsDelta d \<Rightarrow> in_message h \<and> tool_open (tcd_call_id d) h
       | ToolCallEnd t \<Rightarrow> in_message h \<and> tool_open (tce_call_id t) h
       | UsageDelta _ \<Rightarrow> final_usages h = 0
       | MessageEnd _ \<Rightarrow> in_message h \<and> tools_closed h
       | ResponseEnd x \<Rightarrow> between_messages h \<and> tools_closed h
           \<and> stop_reason x \<noteq> Some [] \<and> stop_sequence x \<noteq> Some []
       | StreamError _ \<Rightarrow> True)"
  by (cases h; cases e) simp_all

lemma remembers_tool_counts:
  assumes "remembers h (Open r)"
  shows "bm_get (tool_calls r) i = None \<Longrightarrow> tool_ends i h = 0"
    and "bm_get (tool_calls r) i = Some Declared \<Longrightarrow> tool_starts i h = 1 \<and> tool_ends i h = 0"
    and "bm_get (tool_calls r) i = Some ArgumentsStreaming \<Longrightarrow> tool_starts i h = 1 \<and> tool_ends i h = 0"
proof -
  have ph: "tool_phase (bm_get (tool_calls r) i) (tool_starts i h) (tool_ends i h)"
    using assms by simp
  show "bm_get (tool_calls r) i = None \<Longrightarrow> tool_ends i h = 0"
    "bm_get (tool_calls r) i = Some Declared \<Longrightarrow> tool_starts i h = 1 \<and> tool_ends i h = 0"
    "bm_get (tool_calls r) i = Some ArgumentsStreaming \<Longrightarrow> tool_starts i h = 1 \<and> tool_ends i h = 0"
    using ph by simp_all
qed

lemma open_step:
  assumes rem: "remembers h (Open r)"
  shows "case lifecycle_apply e (Open r) of
      (Inl _, _) \<Rightarrow> \<not> event_allowed h e
    | (Inr _, st') \<Rightarrow> event_allowed h e \<and> remembers (h @ [e]) st'"
proof -
  from rem have ne: "h \<noteq> []" "terminals h = 0" by simp_all
  note allowed = event_allowed_nonempty [OF ne] remembers_facts [OF rem] remembers_tool_counts [OF rem]
  show ?thesis
    by (cases e)
      (use rem in \<open>auto simp: allowed lifecycle_apply_def open_steps is_ready_to_end_def bm_get_insert
        split: option.splits tool_call_lifecycle.splits\<close>)
qed

lemma lifecycle_step:
  assumes "remembers h st"
  shows "case lifecycle_apply e st of
      (Inl _, _) \<Rightarrow> \<not> event_allowed h e
    | (Inr _, st') \<Rightarrow> event_allowed h e \<and> remembers (h @ [e]) st'"
proof (cases st)
  case Initial
  with assms show ?thesis
    by (cases e) (auto simp: lifecycle_apply_def open_response_default_def history_defs)
next
  case (Open r)
  with assms open_step [of h r e] show ?thesis by simp
next
  case Completed
  with assms show ?thesis by (cases h) (auto simp: lifecycle_apply_def)
next
  case (Failed x)
  with assms show ?thesis by (cases h) (auto simp: lifecycle_apply_def)
qed

lemma lifecycle_run_lawful:
  "(\<exists>st. lifecycle_run es Initial = Inr st) \<longleftrightarrow> lawful es"
    and lifecycle_run_remembers:
  "lifecycle_run es Initial = Inr st \<Longrightarrow> remembers es st"
proof (induction es arbitrary: st rule: rev_induct)
  case Nil
  { case 1 show ?case by (simp add: lawful_def) }
  { case 2 then show ?case by simp }
next
  case (snoc e es)
  { case 1 show ?case
    proof (cases "lifecycle_run es Initial")
      case (Inl x)
      with snoc.IH(1) show ?thesis by (auto simp: lawful_snoc lifecycle_run_append)
    next
      case (Inr st')
      then show ?thesis using snoc.IH(1) lifecycle_step [OF snoc.IH(2) [OF Inr], of e]
        by (auto simp: lawful_snoc lifecycle_run_append split: prod.splits sum.splits)
    qed }
  { case 2 then obtain st' where "lifecycle_run es Initial = Inr st'"
      and "lifecycle_apply e st' = (Inr (), st)"
      by (auto simp: lifecycle_run_append split: sum.splits prod.splits)
    then show ?case using lifecycle_step [OF snoc.IH(2), of st' e] by auto }
qed

lemma lifecycle_apply_success:
  "lifecycle_apply e st = (Inr (), st') \<Longrightarrow> is_success st' \<longleftrightarrow> (\<exists>x. e = ResponseEnd x)"
  by (cases e; cases st) (auto simp: lifecycle_apply_def split: if_splits prod.splits sum.splits)

lemma lawful_counts:
  "lawful h \<Longrightarrow> tool_starts i h \<le> 1 \<and> tool_ends i h \<le> tool_starts i h \<and> final_usages h \<le> 1
     \<and> terminals h \<le> 1 \<and> message_ends h \<le> message_starts h \<and> message_starts h \<le> Suc (message_ends h)"
proof (induction h rule: rev_induct)
  case Nil
  then show ?case by simp
next
  case (snoc e h)
  then have h: "lawful h" "event_allowed h e" by (simp_all add: lawful_snoc)
  show ?case
  proof (cases "h = []")
    case True
    with h(2) show ?thesis by (cases e) (simp_all add: history_defs)
  next
    case False
    with h(2) have "terminals h = 0" by (cases h) simp_all
    then show ?thesis using False h snoc.IH
      by (cases e) (auto simp: event_allowed_nonempty in_message_def between_messages_def tool_open_def)
  qed
qed

lemma run_success:
  "lifecycle_run es Initial = Inr st \<Longrightarrow> is_success st \<longleftrightarrow> (\<exists>h x. es = h @ [ResponseEnd x])"
proof (induction es rule: rev_induct)
  case Nil
  then show ?case by auto
next
  case (snoc e es)
  then show ?case
    using lifecycle_apply_success
    by (auto simp: lifecycle_run_append split: sum.splits prod.splits)
qed

lemma lawful_take: "lawful es \<Longrightarrow> lawful (take k es)"
  by (auto simp: lawful_def min_def)

lemma lawful_hd: "lawful es \<Longrightarrow> es \<noteq> [] \<Longrightarrow> \<exists>s. hd es = ResponseStart s"
  by (cases es) (auto simp: lawful_def split: canonical_event.splits dest!: spec [of _ 0])

lemma try_new_iff:
  "canonical_response_try_new es = Inr es' \<longleftrightarrow>
     es' = es \<and> lawful es \<and> (\<exists>h x. es = h @ [ResponseEnd x])"
proof (cases "lifecycle_run es Initial")
  case (Inl e)
  then show ?thesis
    using lifecycle_run_lawful [of es] by (auto simp: canonical_response_try_new_def)
next
  case (Inr st)
  then show ?thesis
    using lifecycle_run_lawful [of es] run_success [OF Inr]
    by (cases st) (auto simp: canonical_response_try_new_def)
qed


text \<open>
  C13: \<open>CanonicalResponse::try_new\<close> accepts a list of events exactly when every event is allowed by
  the events before it (the declarative \<open>event_allowed\<close>, which keeps no lifecycle state) and the last
  event is a \<open>ResponseEnd\<close>; it then returns the events unchanged.
\<close>

theorem canonical_response_accepts_exactly_lawful:
  "canonical_response_try_new es = Inr es' \<longleftrightarrow>
     es' = es \<and> lawful es \<and> (\<exists>h x. es = h @ [ResponseEnd x])"
  by (rule try_new_iff)

text \<open>
  C23: Every response that \<open>CanonicalResponse::try_new\<close> accepts is well bracketed: it opens with
  \<open>ResponseStart\<close>, has exactly one terminal event (its last one), as many message ends as message
  starts, for every call id at most one tool call and that one ended, and at most one final usage
  report; in every prefix at most one message is open and no tool call ends before it starts.
\<close>

theorem accepted_response_well_bracketed:
  assumes "canonical_response_try_new es = Inr es'"
  shows "(\<exists>s. hd es = ResponseStart s) \<and> terminals es = 1 \<and> message_starts es = message_ends es
    \<and> (\<forall>i. tool_starts i es = tool_ends i es \<and> tool_starts i es \<le> 1) \<and> final_usages es \<le> 1
    \<and> (\<forall>k i. message_ends (take k es) \<le> message_starts (take k es)
         \<and> message_starts (take k es) \<le> Suc (message_ends (take k es))
         \<and> tool_ends i (take k es) \<le> tool_starts i (take k es))"
proof -
  from assms have law: "lawful es" and ex: "\<exists>h x. es = h @ [ResponseEnd x]"
    by (simp_all add: try_new_iff)
  from ex obtain h x where es: "es = h @ [ResponseEnd x]" by blast
  have allowed: "event_allowed h (ResponseEnd x)" and lh: "lawful h"
    using law es by (simp_all add: lawful_snoc)
  have ne: "h \<noteq> []" using allowed by auto
  have t: "terminals h = 0" using allowed ne by (cases h) simp_all
  have bal: "between_messages h" "tools_closed h"
    using allowed by (simp_all add: event_allowed_nonempty [OF ne t])
  have hd: "\<exists>s. hd es = ResponseStart s" using lawful_hd [OF law] es by simp
  have tool: "tool_starts i h = tool_ends i h \<and> tool_starts i h \<le> 1" for i
    using lawful_counts [OF lh, of i] bal(2) by (auto simp: tools_closed_iff tool_open_def le_Suc_eq)
  have pre: "message_ends (take k es) \<le> message_starts (take k es)
      \<and> message_starts (take k es) \<le> Suc (message_ends (take k es))
      \<and> tool_ends i (take k es) \<le> tool_starts i (take k es)" for k i
    using lawful_counts [OF lawful_take [OF law], of i k] by simp
  show ?thesis using hd tool pre t bal(1) lawful_counts [OF law]
    by (simp add: es between_messages_def)
qed

definition sample_response :: "canonical_event list" where
  "sample_response =
     [ResponseStart \<lparr>rs_response_id = ''resp-1'', rs_extensions = []\<rparr>,
      MessageStart \<lparr>ms_role = ''assistant'', ms_extensions = []\<rparr>,
      TextDelta \<lparr>td_text = ''hi'', td_extensions = []\<rparr>,
      ToolCallStart \<lparr>tcs_call_id = ''c1'', tcs_name = ''f'', tcs_extensions = []\<rparr>,
      ToolCallArgumentsDelta \<lparr>tcd_call_id = ''c1'', tcd_delta = ''{'', tcd_extensions = []\<rparr>,
      ToolCallEnd \<lparr>tce_call_id = ''c1'', tce_arguments = ''{}'', tce_extensions = []\<rparr>,
      MessageEnd \<lparr>me_extensions = []\<rparr>,
      ResponseEnd \<lparr>stop_reason = Some ''stop'', stop_sequence = None, re_extensions = []\<rparr>]"

theorem accepted_response_well_bracketed_witness:
  "canonical_response_try_new sample_response = Inr sample_response
   \<and> tool_starts ''c1'' sample_response = 1 \<and> tool_ends ''c1'' sample_response = 1
   \<and> message_starts sample_response = message_ends sample_response"
proof -
  have ok: "canonical_response_try_new sample_response = Inr sample_response" by code_simp
  moreover have "tool_starts ''c1'' sample_response = 1" by code_simp
  ultimately show ?thesis using accepted_response_well_bracketed [OF ok] by metis
qed

end
