(* ===== verification/Gateway_Events.thy ===== *)
theory Gateway_Events
  imports Canonical_Events
begin

text \<open>
  The structured observations of the data path (\<open>src/crates/gateway-core/src/gateway_event.rs\<close>) and the
  bounded producer that admits them (\<open>src/crates/gateway-observability/src/lib.rs\<close>).
\<close>

section \<open>Events\<close>

datatype gateway_protocol = OpenAiChatCompletionsProtocol | OpenAiResponsesProtocol | AnthropicMessagesProtocol

datatype gateway_event_priority = RequiredPriority | DiagnosticPriority

datatype event_emission = Enqueued | Disabled | RequiredQueueFull | DiagnosticDropped | SinkClosed

record request_event =
  rqe_request_id :: string
  rqe_client_key_id :: string
  rqe_access_group_id :: "string option"
  rqe_protocol :: gateway_protocol
  rqe_requested_model :: string
  rqe_public_model :: string
  rqe_route_alias :: "string option"
  rqe_streaming :: bool

datatype attempt_outcome = Succeeded | Failed gateway_error

datatype attempt_retry_decision =
  Completed | RetryEligible | NonRetryableDecision | RetryClosed | CancelledDecision | InfrastructureFailure

record attempt_event =
  ae_request_id :: string
  ae_attempt_id :: string
  ae_attempt_number :: u64
  ae_route_id :: string
  ae_route_candidate_id :: string
  ae_credential_id :: string
  ae_endpoint_id :: string
  ae_upstream_id :: string
  ae_upstream_model :: string
  ae_started_at_ms :: i64
  ae_ended_at_ms :: i64
  ae_outcome :: attempt_outcome
  ae_retry_decision :: attempt_retry_decision

definition attempt_event_new ::
  "string \<Rightarrow> u64 \<Rightarrow> string \<Rightarrow> string \<Rightarrow> string \<Rightarrow> string \<Rightarrow> string \<Rightarrow> string \<Rightarrow> i64 \<Rightarrow> i64 \<Rightarrow> attempt_outcome \<Rightarrow>
     attempt_retry_decision \<Rightarrow> attempt_event" where
  "attempt_event_new request_id attempt_number route_id candidate_id credential_id endpoint_id upstream_id
     upstream_model started_at_ms ended_at_ms outcome retry_decision =
     \<lparr>ae_request_id = request_id, ae_attempt_id = attempt_id_from_request_sequence request_id attempt_number,
      ae_attempt_number = attempt_number, ae_route_id = route_id, ae_route_candidate_id = candidate_id,
      ae_credential_id = credential_id, ae_endpoint_id = endpoint_id, ae_upstream_id = upstream_id,
      ae_upstream_model = upstream_model, ae_started_at_ms = started_at_ms, ae_ended_at_ms = ended_at_ms,
      ae_outcome = outcome, ae_retry_decision = retry_decision\<rparr>"

record usage_summary =
  sum_input_tokens :: "u64 option"
  sum_output_tokens :: "u64 option"
  sum_reasoning_tokens :: "u64 option"
  sum_cache_read_tokens :: "u64 option"
  sum_cache_creation_tokens :: "u64 option"
  sum_cached_tokens :: "u64 option"


record usage_event =
  use_request_id :: string
  use_response_id :: string
  use_usage :: usage_summary


datatype health_event_kind = ProbeSucceeded | ProbeFailed | CircuitOpened | CircuitRecovered

record health_event =
  he_health_event_id :: string
  he_endpoint_id :: string
  he_credential_id :: "string option"
  he_upstream_model :: "string option"
  he_occurred_at_ms :: i64
  he_kind :: health_event_kind

record diagnostic_event =
  de_error :: gateway_error

datatype gateway_event =
    RequestObserved request_event
  | AttemptObserved attempt_event
  | UsageObserved usage_event
  | HealthObserved health_event
  | DiagnosticObserved diagnostic_event

fun event_priority :: "gateway_event \<Rightarrow> gateway_event_priority" where
  "event_priority (RequestObserved _) = RequiredPriority"
| "event_priority (AttemptObserved _) = RequiredPriority"
| "event_priority (UsageObserved _) = RequiredPriority"
| "event_priority (HealthObserved _) = RequiredPriority"
| "event_priority (DiagnosticObserved _) = DiagnosticPriority"

section \<open>The bounded event queue\<close>


record event_queue_config =
  required_capacity :: usize
  diagnostic_capacity :: usize



definition event_queue_config_default :: event_queue_config where
  "event_queue_config_default = \<lparr>required_capacity = 1024, diagnostic_capacity = 128\<rparr>"












section \<open>Runs of the queue\<close>


text \<open>A run keeps what each operation answered.\<close>

datatype queue_answer = Emitted gateway_event event_emission | Received "gateway_event option"



definition enqueued_of :: "gateway_event_priority \<Rightarrow> queue_answer list \<Rightarrow> gateway_event list" where
  "enqueued_of p as = [e. Emitted e Enqueued \<leftarrow> as, event_priority e = p]"

definition received_of :: "gateway_event_priority \<Rightarrow> queue_answer list \<Rightarrow> gateway_event list" where
  "received_of p as = [e. Received (Some e) \<leftarrow> as, event_priority e = p]"

lemma answer_lists [simp]:
  "enqueued_of p [] = []" "received_of p [] = []"
  "enqueued_of p (Emitted e r # as) =
     (if r = Enqueued \<and> event_priority e = p then e # enqueued_of p as else enqueued_of p as)"
  "enqueued_of p (Received x # as) = enqueued_of p as"
  "received_of p (Emitted e r # as) = received_of p as"
  "received_of p (Received None # as) = received_of p as"
  "received_of p (Received (Some e) # as) = (if event_priority e = p then e # received_of p as else received_of p as)"
  by (simp_all add: enqueued_of_def received_of_def split: event_emission.splits)








section \<open>Properties of the queue\<close>












end
