(* ===== verification/Attempt_Orchestrator.thy ===== *)
theory Attempt_Orchestrator
  imports Credential_Scheduler Gateway_Events
begin

text \<open>
  The bounded retry loop of one request (\<open>src/crates/gateway-router/src/attempt_orchestrator.rs\<close>).

  The loop awaits a driver, polls a retry gate, reads clocks and shares the scheduler and the runtime
  registries with other requests. All of these are parameters: a clock or a gate is the sequence of
  its answers; what one \<open>tokio::select!\<close> over the gate, the timeout and the driver's future ends with is
  a function of the number of starts before it, of the selection and of the shared state, and it
  returns the shared state as other requests have left it.
\<close>

section \<open>Configuration\<close>

definition default_rate_limit_cooldown :: duration where
  "default_rate_limit_cooldown = from_secs 30"

definition default_transient_cooldown :: duration where
  "default_transient_cooldown = from_secs 5"

definition quota_recovery_probe_grace :: duration where
  "quota_recovery_probe_grace = from_secs 30"

datatype attempt_orchestrator_config_error = ZeroRateLimitCooldown | ZeroTransientCooldown

record attempt_orchestrator_config =
  rate_limit_fallback_cooldown :: duration
  transient_cooldown :: duration

definition orchestrator_config_try_new ::
  "duration \<Rightarrow> duration \<Rightarrow> attempt_orchestrator_config_error + attempt_orchestrator_config" where
  "orchestrator_config_try_new rate transient =
     (if rate = 0 then Err ZeroRateLimitCooldown
      else if transient = 0 then Err ZeroTransientCooldown
      else Ok \<lparr>rate_limit_fallback_cooldown = rate, transient_cooldown = transient\<rparr>)"

definition orchestrator_config_default :: attempt_orchestrator_config where
  "orchestrator_config_default =
     \<lparr>rate_limit_fallback_cooldown = default_rate_limit_cooldown, transient_cooldown = default_transient_cooldown\<rparr>"

section \<open>Failures\<close>

definition egress_unavailable_error :: gateway_error where
  "egress_unavailable_error = gateway_error_new EgressUnavailable EgressScope"

definition provider_rate_limited_error :: gateway_error where
  "provider_rate_limited_error = gateway_error_new ProviderRateLimited ProviderScope"

definition provider_transient_error :: gateway_error where
  "provider_transient_error = gateway_error_new ProviderTransient ProviderScope"

definition internal_error :: gateway_error where
  "internal_error = gateway_error_new InternalError InternalScope"

datatype attempt_failure =
    ConnectionFailure
  | RateLimitedFailure "duration option"
  | ServerErrorFailure
  | BootstrapTruncated
  | CancelledFailure
  | NonRetryableFailure gateway_error

fun is_retryable :: "attempt_failure \<Rightarrow> bool" where
  "is_retryable ConnectionFailure \<longleftrightarrow> True"
| "is_retryable (RateLimitedFailure _) \<longleftrightarrow> True"
| "is_retryable ServerErrorFailure \<longleftrightarrow> True"
| "is_retryable BootstrapTruncated \<longleftrightarrow> True"
| "is_retryable _ \<longleftrightarrow> False"

fun safe_error :: "attempt_failure \<Rightarrow> gateway_error" where
  "safe_error ConnectionFailure = egress_unavailable_error"
| "safe_error (RateLimitedFailure _) = provider_rate_limited_error"
| "safe_error ServerErrorFailure = provider_transient_error"
| "safe_error BootstrapTruncated = stream_truncated_error"
| "safe_error CancelledFailure = request_cancelled_error"
| "safe_error (NonRetryableFailure e) = e"

datatype cooldown_scope = EndpointCooldown duration

fun cooldown_duration :: "cooldown_scope \<Rightarrow> duration" where
  "cooldown_duration (EndpointCooldown d) = d"

fun failure_cooldown :: "attempt_orchestrator_config \<Rightarrow> attempt_failure \<Rightarrow> cooldown_scope option" where
  "failure_cooldown config ConnectionFailure = Some (EndpointCooldown (transient_cooldown config))"
| "failure_cooldown config ServerErrorFailure = Some (EndpointCooldown (transient_cooldown config))"
| "failure_cooldown config BootstrapTruncated = Some (EndpointCooldown (transient_cooldown config))"
| "failure_cooldown config _ = None"

section \<open>Exclusions\<close>

type_synonym attempt_binding = "string \<times> string"
type_synonym attempt_exclusion_set = "attempt_binding set"

definition attempt_binding_new :: "snapshot_route_candidate \<Rightarrow> string \<Rightarrow> attempt_binding" where
  "attempt_binding_new c cid = (rc_id c, cid)"

definition exclusions_insert ::
  "snapshot_route_candidate \<Rightarrow> string \<Rightarrow> attempt_exclusion_set \<Rightarrow> attempt_exclusion_set" where
  "exclusions_insert c cid ex = insert (attempt_binding_new c cid) ex"

definition exclusions_contains :: "attempt_exclusion_set \<Rightarrow> snapshot_route_candidate \<Rightarrow> string \<Rightarrow> bool" where
  "exclusions_contains ex c cid \<longleftrightarrow> attempt_binding_new c cid \<in> ex"

section \<open>The retry budget\<close>

record retry_budget =
  max_attempts :: usize
  attempts_started :: usize
  deadline_ms :: i64

definition budget_from_route :: "snapshot_route \<Rightarrow> i64 \<Rightarrow> gateway_error + retry_budget" where
  "budget_from_route route now =
     (case unsigned_of_i64 (sr_max_attempts route) of
        None \<Rightarrow> Err internal_error
      | Some attempts \<Rightarrow>
     (case unsigned_of_i64 (sr_bootstrap_timeout_ms route) of
        None \<Rightarrow> Err internal_error
      | Some timeout \<Rightarrow>
     (case i64_of_unsigned timeout of
        None \<Rightarrow> Err internal_error
      | Some timeout_ms \<Rightarrow>
     (case checked_add_i64 now timeout_ms of
        None \<Rightarrow> Err internal_error
      | Some deadline \<Rightarrow> Ok \<lparr>max_attempts = attempts, attempts_started = 0, deadline_ms = deadline\<rparr>))))"

definition can_start_at :: "retry_budget \<Rightarrow> i64 \<Rightarrow> bool" where
  "can_start_at b now \<longleftrightarrow> attempts_started b < max_attempts b \<and> now < deadline_ms b"

definition remaining_at :: "retry_budget \<Rightarrow> i64 \<Rightarrow> gateway_error + duration" where
  "remaining_at b now =
     (case checked_sub_i64 (deadline_ms b) now of
        None \<Rightarrow> Err egress_unavailable_error
      | Some ms \<Rightarrow> if 0 < ms then Ok (from_millis (nat ms)) else Err egress_unavailable_error)"

text \<open>
  \<open>saturating_add(1)\<close>: a start is recorded only below \<open>max_attempts\<close>, where the addition is exact.
\<close>

definition record_start :: "retry_budget \<Rightarrow> retry_budget" where
  "record_start b = b\<lparr>attempts_started := attempts_started b + 1\<rparr>"

definition orchestrator_add_duration :: "i64 \<Rightarrow> duration \<Rightarrow> gateway_error + i64" where
  "orchestrator_add_duration now d =
     (case i64_of_unsigned (as_millis d) of
        None \<Rightarrow> Err internal_error
      | Some ms \<Rightarrow> ok_or internal_error (checked_add_i64 now ms))"

definition candidate_matches_protocol :: "snapshot_route_candidate \<Rightarrow> protocol_format option \<Rightarrow> bool" where
  "candidate_matches_protocol c protocol =
     (case protocol of
        None \<Rightarrow> True
      | Some p \<Rightarrow> rc_protocol_format c = Some p \<and> rc_transform_mode c \<in> {Canonical, CanonicalBridge})"

section \<open>The world of one request\<close>

text \<open>What is shared with other requests.\<close>

record shared_state =
  sh_scheduler :: route_credential_scheduler
  sh_health :: runtime_health_registry
  sh_quota :: runtime_quota_registry

text \<open>How the race of cancellation, timeout and driver ends.\<close>

datatype 'o attempt_race = RaceCancelled | RaceTimedOut | RaceFinished "attempt_failure + 'o"

fun race_result :: "'o attempt_race \<Rightarrow> attempt_failure + 'o" where
  "race_result RaceCancelled = Err CancelledFailure"
| "race_result RaceTimedOut = Err ConnectionFailure"
| "race_result (RaceFinished r) = r"

text \<open>The selection a start is made with: candidate, lease and the leased credential's id.\<close>

record attempt_selection =
  as_candidate :: snapshot_route_candidate
  as_lease :: credential_lease
  as_credential_id :: string

record 'o attempt_env =
  env_config :: attempt_orchestrator_config
  env_health_hash :: "runtime_health_key hasher"
  env_quota_hash :: "runtime_quota_target hasher"
  env_clock :: "nat \<Rightarrow> clock_reading"
  env_health_clock :: "nat \<Rightarrow> clock_reading"
  env_quota_clock :: "nat \<Rightarrow> clock_reading"
  env_gate :: retry_gate
  env_start_timeout :: "duration \<Rightarrow> duration"
  env_race :: "nat \<Rightarrow> attempt_selection \<Rightarrow> duration \<Rightarrow> duration \<Rightarrow> shared_state \<Rightarrow> 'o attempt_race \<times> shared_state"

text \<open>One driver start, as the driver sees it and as it ends.\<close>

record 'o driver_start =
  ds_selection :: attempt_selection
  ds_started_at_ms :: i64
  ds_remaining_bootstrap :: duration
  ds_timeout :: duration
  ds_race :: "'o attempt_race"

text \<open>
  The state of the loop outside its local variables: the shared state, the numbers of clock readings and
  gate polls taken, the driver starts made and the events offered to the sink.
\<close>

record 'o attempt_world =
  w_shared :: shared_state
  w_clock_reads :: nat
  w_reads :: clock_reads
  w_cancel_polls :: nat
  w_retry_polls :: nat
  w_starts :: "'o driver_start list"
  w_events :: "attempt_event list"

definition read_clock :: "'o attempt_env \<Rightarrow> 'o attempt_world \<Rightarrow> clock_reading \<times> 'o attempt_world" where
  "read_clock env w = (env_clock env (w_clock_reads w), w\<lparr>w_clock_reads := w_clock_reads w + 1\<rparr>)"

definition poll_cancelled :: "'o attempt_env \<Rightarrow> 'o attempt_world \<Rightarrow> bool \<times> 'o attempt_world" where
  "poll_cancelled env w =
     (gate_cancelled (env_gate env) (w_cancel_polls w), w\<lparr>w_cancel_polls := w_cancel_polls w + 1\<rparr>)"

definition poll_retry :: "'o attempt_env \<Rightarrow> 'o attempt_world \<Rightarrow> bool \<times> 'o attempt_world" where
  "poll_retry env w =
     (gate_allows_transparent_retry (env_gate env) (w_retry_polls w), w\<lparr>w_retry_polls := w_retry_polls w + 1\<rparr>)"

definition update_shared ::
  "(shared_state \<Rightarrow> shared_state) \<Rightarrow> 'o attempt_world \<Rightarrow> 'o attempt_world" where
  "update_shared f w = w\<lparr>w_shared := f (w_shared w)\<rparr>"

text \<open>The registries as the scheduler consults them.\<close>

definition runtime_env_of :: "'o attempt_env \<Rightarrow> shared_state \<Rightarrow> runtime_env" where
  "runtime_env_of env s =
     \<lparr>re_health_hash = env_health_hash env, re_health = sh_health s, re_health_clock = env_health_clock env,
      re_quota_hash = env_quota_hash env, re_quota = sh_quota s, re_quota_clock = env_quota_clock env\<rparr>"

definition lease_credential_id :: "endpoint_credential_pools \<Rightarrow> credential_lease \<Rightarrow> string" where
  "lease_credential_id pools l =
     (case bm_get pools (lease_endpoint l) of
        None \<Rightarrow> []
      | Some pool \<Rightarrow> credential_id (credentials pool ! lease_index l))"

text \<open>Dropping a selection releases its lease.\<close>

definition drop_selection :: "attempt_selection \<Rightarrow> 'o attempt_world \<Rightarrow> 'o attempt_world" where
  "drop_selection sel =
     update_shared (\<lambda>s. s\<lparr>sh_scheduler := (sh_scheduler s)\<lparr>rcs_credential_pools :=
       pools_release (as_lease sel) (rcs_credential_pools (sh_scheduler s))\<rparr>\<rparr>)"

text \<open>One of the scheduler's selections on the shared state.\<close>

definition run_select ::
  "(route_credential_scheduler \<Rightarrow> clock_reads \<Rightarrow>
      (gateway_error + selected_route_credential) \<times> route_credential_scheduler \<times> clock_reads) \<Rightarrow>
     'o attempt_world \<Rightarrow> (gateway_error + attempt_selection) \<times> 'o attempt_world" where
  "run_select f w =
     (let (r, sch, reads) = f (sh_scheduler (w_shared w)) (w_reads w);
          w' = w\<lparr>w_shared := (w_shared w)\<lparr>sh_scheduler := sch\<rparr>, w_reads := reads\<rparr>
      in (case r of
            Inl e \<Rightarrow> Err e
          | Inr sel \<Rightarrow>
              Ok \<lparr>as_candidate = sel_candidate sel, as_lease = sel_lease sel,
                  as_credential_id = lease_credential_id (rcs_credential_pools sch) (sel_lease sel)\<rparr>,
          w'))"

text \<open>A call of a registry: it may read the registry's clock once.\<close>

definition health_call ::
  "'o attempt_env \<Rightarrow>
     (runtime_health_key hasher \<Rightarrow> clock_reading \<Rightarrow> runtime_health_registry \<Rightarrow> 'r \<times> runtime_health_registry) \<Rightarrow>
     'o attempt_world \<Rightarrow> 'r \<times> 'o attempt_world" where
  "health_call env f w =
     (let (r, reg) = f (env_health_hash env) (env_health_clock env (cr_health (w_reads w))) (sh_health (w_shared w))
      in (r, w\<lparr>w_shared := (w_shared w)\<lparr>sh_health := reg\<rparr>,
               w_reads := (w_reads w)\<lparr>cr_health := cr_health (w_reads w) + 1\<rparr>\<rparr>))"

definition quota_call ::
  "'o attempt_env \<Rightarrow>
     (runtime_quota_target hasher \<Rightarrow> clock_reading \<Rightarrow> runtime_quota_registry \<Rightarrow> 'r \<times> runtime_quota_registry) \<Rightarrow>
     'o attempt_world \<Rightarrow> 'r \<times> 'o attempt_world" where
  "quota_call env f w =
     (let (r, reg) = f (env_quota_hash env) (env_quota_clock env (cr_quota (w_reads w))) (sh_quota (w_shared w))
      in (r, w\<lparr>w_shared := (w_shared w)\<lparr>sh_quota := reg\<rparr>,
               w_reads := (w_reads w)\<lparr>cr_quota := cr_quota (w_reads w) + 1\<rparr>\<rparr>))"

section \<open>Operations of the orchestrator\<close>

definition emit_attempt ::
  "'o attempt_env \<Rightarrow> string option \<Rightarrow> string \<Rightarrow> attempt_selection \<Rightarrow> u64 \<Rightarrow> i64 \<Rightarrow> attempt_outcome \<Rightarrow>
     attempt_retry_decision \<Rightarrow> 'o attempt_world \<Rightarrow> 'o attempt_world" where
  "emit_attempt env request_id route_id sel attempt_number started_at outcome decision w =
     (case request_id of
        None \<Rightarrow> w
      | Some rid \<Rightarrow>
          (let (reading, w') = read_clock env w;
               ended_at = (case reading of Some t \<Rightarrow> t | None \<Rightarrow> started_at);
               event = attempt_event_new rid attempt_number route_id (rc_id (as_candidate sel)) (as_credential_id sel)
                         (rc_endpoint_id (as_candidate sel)) (rc_upstream_id (as_candidate sel))
                         (rc_upstream_model (as_candidate sel)) started_at ended_at outcome decision
           in w'\<lparr>w_events := w_events w' @ [event]\<rparr>))"

definition record_runtime_state ::
  "'o attempt_env \<Rightarrow> attempt_selection \<Rightarrow> attempt_failure \<Rightarrow> 'o attempt_world \<Rightarrow>
     (gateway_error + unit) \<times> 'o attempt_world" where
  "record_runtime_state env sel failure w =
     (let e = rc_endpoint_id (as_candidate sel); cid = as_credential_id sel in
      if (case failure of NonRetryableFailure err \<Rightarrow> ge_code err = CredentialUnauthorizedCode | _ \<Rightarrow> False) then
        (let (r, w') = health_call env (\<lambda>hash clock. mark_credential_unauthorized hash clock e cid) w
         in (map_err (\<lambda>_. internal_error) r, w'))
      else if (case failure of NonRetryableFailure err \<Rightarrow> ge_code err = CredentialForbidden | _ \<Rightarrow> False) then
        (let (r, w') = health_call env (\<lambda>hash clock. mark_credential_forbidden hash clock e cid) w
         in (map_err (\<lambda>_. internal_error) r, w'))
      else
       (case failure of
          RateLimitedFailure retry_after \<Rightarrow>
            (case read_clock env w of
               (None, w1) \<Rightarrow> (Err internal_error, w1)
             | (Some now, w1) \<Rightarrow>
                 (let (r, w2) = quota_call env (\<lambda>hash clock.
                        record_rate_limited hash clock (EndpointCredentialTarget e cid) now retry_after
                          (rate_limit_fallback_cooldown (env_config env))) w1
                  in (map_err (\<lambda>_. internal_error) (map_sum id (\<lambda>_. ()) r), w2)))
        | _ \<Rightarrow>
            (case failure_cooldown (env_config env) failure of
               None \<Rightarrow> (Ok (), w)
             | Some cooldown \<Rightarrow>
                 (case read_clock env w of
                    (None, w1) \<Rightarrow> (Err internal_error, w1)
                  | (Some now, w1) \<Rightarrow>
                      (case orchestrator_add_duration now (cooldown_duration cooldown) of
                         Inl err \<Rightarrow> (Err err, w1)
                       | Inr until_ms \<Rightarrow>
                           (let (r, w2) = health_call env (\<lambda>hash clock.
                                  cool_down_until hash clock (EndpointKey e) until_ms) w1
                            in (map_err (\<lambda>_. internal_error) r, w2)))))))"

definition begin_quota_recovery_probe_selection ::
  "'o attempt_env \<Rightarrow> string \<Rightarrow> (snapshot_route_candidate \<Rightarrow> bool) \<Rightarrow> attempt_exclusion_set \<Rightarrow> i64 \<Rightarrow> duration \<Rightarrow>
     'o attempt_world \<Rightarrow> (attempt_selection \<times> runtime_quota_recovery_probe) option \<times> 'o attempt_world" where
  "begin_quota_recovery_probe_selection env route_id cand_ok ex now start_ceiling w =
     (case run_select (select_eligible_and_lease_for_quota_recovery_at (runtime_env_of env (w_shared w)) route_id now
             cand_ok (\<lambda>c cid. \<not> exclusions_contains ex c cid)) w of
        (Inl _, w1) \<Rightarrow> (None, w1)
      | (Inr sel, w1) \<Rightarrow>
          (case orchestrator_add_duration now (duration_saturating_add start_ceiling quota_recovery_probe_grace) of
             Inl _ \<Rightarrow> (None, drop_selection sel w1)
           | Inr expires_at \<Rightarrow>
               (case quota_call env (\<lambda>hash clock. begin_recovery_probe hash clock
                       (EndpointCredentialTarget (rc_endpoint_id (as_candidate sel)) (as_credential_id sel)) expires_at) w1 of
                  (Inr (Some probe), w2) \<Rightarrow> (Some (sel, probe), w2)
                | (_, w2) \<Rightarrow> (None, drop_selection sel w2))))"

definition complete_quota_recovery_probe ::
  "'o attempt_env \<Rightarrow> runtime_quota_recovery_probe \<Rightarrow> 'o attempt_world \<Rightarrow> 'o attempt_world" where
  "complete_quota_recovery_probe env probe w =
     (case read_clock env w of
        (None, w1) \<Rightarrow> w1
      | (Some observed_at, w1) \<Rightarrow>
          (case quota_snapshot_try_new (qp_target probe) [] EstimatedSource EstimatedConfidence observed_at of
             Inl _ \<Rightarrow> w1
           | Inr snapshot \<Rightarrow>
               snd (quota_call env (\<lambda>hash clock. complete_recovery_probe hash clock probe snapshot) w1)))"

section \<open>The retry loop\<close>

record 'o started_attempt =
  sa_selection :: attempt_selection
  sa_output :: 'o
  sa_attempts_started :: usize

text \<open>From the head of the loop to the start of the driver.\<close>

definition or_last :: "gateway_error option \<Rightarrow> gateway_error \<Rightarrow> gateway_error" where
  "or_last last_failure e = (case last_failure of Some f \<Rightarrow> f | None \<Rightarrow> e)"

definition select_attempt ::
  "'o attempt_env \<Rightarrow> string \<Rightarrow> (snapshot_route_candidate \<Rightarrow> bool) \<Rightarrow> retry_budget \<Rightarrow> attempt_exclusion_set \<Rightarrow>
     gateway_error option \<Rightarrow> i64 \<Rightarrow> 'o attempt_world \<Rightarrow>
     (gateway_error + attempt_selection \<times> runtime_quota_recovery_probe option) \<times> 'o attempt_world" where
  "select_attempt env route_id cand_ok b ex last_failure now w =
     (case run_select (select_eligible_and_lease_with_runtime_health_quota_and_binding_at
             (runtime_env_of env (w_shared w)) route_id now cand_ok (\<lambda>c cid. \<not> exclusions_contains ex c cid)) w of
        (Inr sel, w1) \<Rightarrow> (Ok (sel, None), w1)
      | (Inl err, w1) \<Rightarrow>
          (case (case remaining_at b now of
                   Inl _ \<Rightarrow> (None, w1)
                 | Inr remaining \<Rightarrow>
                     begin_quota_recovery_probe_selection env route_id cand_ok ex now
                       (env_start_timeout env remaining) w1) of
             (Some (sel, probe), w2) \<Rightarrow> (Ok (sel, Some probe), w2)
           | (None, w2) \<Rightarrow> (Err (or_last last_failure err), w2)))"

definition admit_attempt ::
  "'o attempt_env \<Rightarrow> string \<Rightarrow> (snapshot_route_candidate \<Rightarrow> bool) \<Rightarrow> retry_budget \<Rightarrow> attempt_exclusion_set \<Rightarrow>
     gateway_error option \<Rightarrow> 'o attempt_world \<Rightarrow>
     (gateway_error + attempt_selection \<times> runtime_quota_recovery_probe option \<times> i64 \<times> duration) \<times> 'o attempt_world" where
  "admit_attempt env route_id cand_ok b ex last_failure w =
     (case poll_cancelled env w of
        (True, w1) \<Rightarrow> (Err request_cancelled_error, w1)
      | (False, w1) \<Rightarrow>
     (case read_clock env w1 of
        (None, w2) \<Rightarrow> (Err internal_error, w2)
      | (Some now, w2) \<Rightarrow>
          if \<not> can_start_at b now then (Err (or_last last_failure egress_unavailable_error), w2)
          else
     (case select_attempt env route_id cand_ok b ex last_failure now w2 of
        (Inl err, w3) \<Rightarrow> (Err err, w3)
      | (Inr (sel, probe), w3) \<Rightarrow>
     (case read_clock env w3 of
        (None, w4) \<Rightarrow> (Err internal_error, drop_selection sel w4)
      | (Some started_at, w4) \<Rightarrow>
          if \<not> can_start_at b started_at
          then (Err (or_last last_failure egress_unavailable_error), drop_selection sel w4)
          else
     (case remaining_at b started_at of
        Inl err \<Rightarrow> (Err err, drop_selection sel w4)
      | Inr remaining \<Rightarrow> (Ok (sel, probe, started_at, remaining), w4))))))"

text \<open>The race of cancellation, timeout and driver.\<close>

definition race_attempt ::
  "'o attempt_env \<Rightarrow> attempt_selection \<Rightarrow> i64 \<Rightarrow> duration \<Rightarrow> 'o attempt_world \<Rightarrow>
     (attempt_failure + 'o) \<times> 'o attempt_world" where
  "race_attempt env sel started_at remaining w =
     (let timeout = env_start_timeout env remaining;
          (race, shared) = env_race env (length (w_starts w)) sel timeout remaining (w_shared w)
      in (race_result race,
          w\<lparr>w_shared := shared,
            w_starts := w_starts w @ [\<lparr>ds_selection = sel, ds_started_at_ms = started_at,
              ds_remaining_bootstrap = remaining, ds_timeout = timeout, ds_race = race\<rparr>]\<rparr>))"

datatype 'o step_result =
    Return "gateway_error + 'o started_attempt" "'o attempt_world"
  | Retry retry_budget attempt_exclusion_set gateway_error "'o attempt_world"

text \<open>
  After the driver: \<open>finish\<close> emits the attempt's event, drops the selection and returns an error.
\<close>

definition conclude_success ::
  "'o attempt_env \<Rightarrow> string option \<Rightarrow> string \<Rightarrow> retry_budget \<Rightarrow> attempt_selection \<Rightarrow>
     runtime_quota_recovery_probe option \<Rightarrow> i64 \<Rightarrow> 'o \<Rightarrow> 'o attempt_world \<Rightarrow> 'o step_result" where
  "conclude_success env rid route_id b sel probe started_at output w =
     (let w1 = (case probe of None \<Rightarrow> w | Some p \<Rightarrow> complete_quota_recovery_probe env p w);
          (cancelled, w2) = poll_cancelled env w1
      in if cancelled
         then Return (Err request_cancelled_error)
                (drop_selection sel (emit_attempt env rid route_id sel (attempts_started b) started_at
                   (Failed request_cancelled_error) CancelledDecision w2))
         else Return (Ok \<lparr>sa_selection = sel, sa_output = output, sa_attempts_started = attempts_started b\<rparr>)
                (emit_attempt env rid route_id sel (attempts_started b) started_at Succeeded Completed w2))"

definition conclude_failure ::
  "'o attempt_env \<Rightarrow> string option \<Rightarrow> string \<Rightarrow> retry_budget \<Rightarrow> attempt_exclusion_set \<Rightarrow> attempt_selection \<Rightarrow> i64 \<Rightarrow>
     attempt_failure \<Rightarrow> 'o attempt_world \<Rightarrow> 'o step_result" where
  "conclude_failure env rid route_id b ex sel started_at failure w =
     (let emit = emit_attempt env rid route_id sel (attempts_started b) started_at;
          safe_failure = safe_error failure
      in if failure = CancelledFailure
         then Return (Err request_cancelled_error)
                (drop_selection sel (emit (Failed request_cancelled_error) CancelledDecision w))
         else
        (case record_runtime_state env sel failure w of
           (Inl err, w1) \<Rightarrow> Return (Err err) (drop_selection sel (emit (Failed err) InfrastructureFailure w1))
         | (Inr _, w1) \<Rightarrow>
             (let (cancelled, w2) = poll_cancelled env w1 in
              if \<not> is_retryable failure then
                (if cancelled
                 then Return (Err request_cancelled_error)
                        (drop_selection sel (emit (Failed safe_failure) CancelledDecision w2))
                 else Return (Err safe_failure) (drop_selection sel (emit (Failed safe_failure) NonRetryableDecision w2)))
              else if cancelled
              then Return (Err request_cancelled_error)
                     (drop_selection sel (emit (Failed safe_failure) CancelledDecision w2))
              else
                (let (allows, w3) = poll_retry env w2 in
                 if \<not> allows
                 then Return (Err safe_failure) (drop_selection sel (emit (Failed safe_failure) RetryClosed w3))
                 else Retry b (exclusions_insert (as_candidate sel) (as_credential_id sel) ex) safe_failure
                        (drop_selection sel (emit (Failed safe_failure) RetryEligible w3))))))"

definition attempt_step ::
  "'o attempt_env \<Rightarrow> string option \<Rightarrow> string \<Rightarrow> (snapshot_route_candidate \<Rightarrow> bool) \<Rightarrow> retry_budget \<Rightarrow>
     attempt_exclusion_set \<Rightarrow> gateway_error option \<Rightarrow> 'o attempt_world \<Rightarrow> 'o step_result" where
  "attempt_step env rid route_id cand_ok b ex last_failure w =
     (case admit_attempt env route_id cand_ok b ex last_failure w of
        (Inl err, w1) \<Rightarrow> Return (Err err) w1
      | (Inr (sel, probe, started_at, remaining), w1) \<Rightarrow>
          (let b' = record_start b in
           case race_attempt env sel started_at remaining w1 of
             (Inr output, w2) \<Rightarrow> conclude_success env rid route_id b' sel probe started_at output w2
           | (Inl failure, w2) \<Rightarrow> conclude_failure env rid route_id b' ex sel started_at failure w2))"

lemma attempt_step_Retry:
  assumes "attempt_step env rid route_id cand_ok b ex lf w = Retry b' ex' f w'"
  shows "b' = record_start b" and "attempts_started b < max_attempts b"
  using assms
  by (auto simp: attempt_step_def admit_attempt_def conclude_success_def conclude_failure_def can_start_at_def
      Let_def split: prod.splits sum.splits option.splits if_splits bool.splits)

lemma attempt_step_decreases:
  "attempt_step env rid route_id cand_ok b ex lf w = Retry b' ex' f w' \<Longrightarrow>
     max_attempts b' - attempts_started b' < max_attempts b - attempts_started b"
  using attempt_step_Retry [of env rid route_id cand_ok b ex lf w b' ex' f w'] by (simp add: record_start_def)

function start_loop ::
  "'o attempt_env \<Rightarrow> string option \<Rightarrow> string \<Rightarrow> (snapshot_route_candidate \<Rightarrow> bool) \<Rightarrow> retry_budget \<Rightarrow>
     attempt_exclusion_set \<Rightarrow> gateway_error option \<Rightarrow> 'o attempt_world \<Rightarrow>
     (gateway_error + 'o started_attempt) \<times> 'o attempt_world" where
  "start_loop env rid route_id cand_ok b ex last_failure w =
     (case attempt_step env rid route_id cand_ok b ex last_failure w of
        Return r w' \<Rightarrow> (r, w')
      | Retry b' ex' f w' \<Rightarrow> start_loop env rid route_id cand_ok b' ex' (Some f) w')"
  by pat_completeness auto
termination
  by (relation "measure (\<lambda>(env, rid, route_id, cand_ok, b, ex, last_failure, w). max_attempts b - attempts_started b)")
    (auto dest: attempt_step_decreases)

declare start_loop.simps [simp del]

definition start_inner ::
  "'o attempt_env \<Rightarrow> string option \<Rightarrow> string \<Rightarrow> (snapshot_route_candidate \<Rightarrow> bool) \<Rightarrow> 'o attempt_world \<Rightarrow>
     (gateway_error + 'o started_attempt) \<times> 'o attempt_world" where
  "start_inner env rid route_id cand_ok w =
     (case poll_cancelled env w of
        (True, w1) \<Rightarrow> (Err request_cancelled_error, w1)
      | (False, w1) \<Rightarrow>
     (case scheduler_route (sh_scheduler (w_shared w1)) route_id of
        None \<Rightarrow> (Err credential_unavailable_error, w1)
      | Some route \<Rightarrow>
     (case read_clock env w1 of
        (None, w2) \<Rightarrow> (Err internal_error, w2)
      | (Some now, w2) \<Rightarrow>
     (case budget_from_route route now of
        Inl err \<Rightarrow> (Err err, w2)
      | Inr b \<Rightarrow> start_loop env rid route_id cand_ok b {} None w2))))"

definition orchestrator_start ::
  "'o attempt_env \<Rightarrow> string \<Rightarrow> 'o attempt_world \<Rightarrow> (gateway_error + 'o started_attempt) \<times> 'o attempt_world" where
  "orchestrator_start env route_id = start_inner env None route_id (\<lambda>_. True)"

definition start_for_protocol ::
  "'o attempt_env \<Rightarrow> string \<Rightarrow> protocol_format \<Rightarrow> 'o attempt_world \<Rightarrow>
     (gateway_error + 'o started_attempt) \<times> 'o attempt_world" where
  "start_for_protocol env route_id protocol =
     start_inner env None route_id (\<lambda>c. candidate_matches_protocol c (Some protocol))"

definition start_with_event_sink ::
  "'o attempt_env \<Rightarrow> string \<Rightarrow> string \<Rightarrow> 'o attempt_world \<Rightarrow> (gateway_error + 'o started_attempt) \<times> 'o attempt_world" where
  "start_with_event_sink env request_id route_id = start_inner env (Some request_id) route_id (\<lambda>_. True)"

definition start_with_event_sink_for_protocol ::
  "'o attempt_env \<Rightarrow> string \<Rightarrow> string \<Rightarrow> protocol_format \<Rightarrow> 'o attempt_world \<Rightarrow>
     (gateway_error + 'o started_attempt) \<times> 'o attempt_world" where
  "start_with_event_sink_for_protocol env request_id route_id protocol =
     start_inner env (Some request_id) route_id (\<lambda>c. candidate_matches_protocol c (Some protocol))"

definition start_with_event_sink_matching ::
  "'o attempt_env \<Rightarrow> string \<Rightarrow> string \<Rightarrow> (snapshot_route_candidate \<Rightarrow> bool) \<Rightarrow> 'o attempt_world \<Rightarrow>
     (gateway_error + 'o started_attempt) \<times> 'o attempt_world" where
  "start_with_event_sink_matching env request_id route_id cand_ok = start_inner env (Some request_id) route_id cand_ok"

end
