(* ===== verification/Attempt_Steps.thy ===== *)
theory Attempt_Steps
  imports Attempt_Orchestrator
begin

text \<open>
  What the parts of the retry loop do to the shared state, the log of driver starts and the offered
  events, up to the outcome of the whole loop. Nothing is assumed of the driver, the clocks or the gate;
  concurrent requests are constrained by named conditions.
\<close>

section \<open>What the steps leave alone\<close>

lemma emit_attempt_frame [simp]:
  "w_shared (emit_attempt env rid route_id sel n t out dec w) = w_shared w"
  "w_starts (emit_attempt env rid route_id sel n t out dec w) = w_starts w"
  by (simp_all add: emit_attempt_def read_clock_def Let_def split: option.splits)

lemma drop_selection_frame [simp]:
  "w_starts (drop_selection sel w) = w_starts w" "w_events (drop_selection sel w) = w_events w"
  "sh_health (w_shared (drop_selection sel w)) = sh_health (w_shared w)"
  "sh_quota (w_shared (drop_selection sel w)) = sh_quota (w_shared w)"
  "rcs_candidates (sh_scheduler (w_shared (drop_selection sel w))) = rcs_candidates (sh_scheduler (w_shared w))"
  "rcs_credential_pools (sh_scheduler (w_shared (drop_selection sel w))) =
     pools_release (as_lease sel) (rcs_credential_pools (sh_scheduler (w_shared w)))"
  by (simp_all add: drop_selection_def update_shared_def)

lemma health_call_frame:
  "health_call env f w = (r, w') \<Longrightarrow> sh_scheduler (w_shared w') = sh_scheduler (w_shared w) \<and>
     sh_quota (w_shared w') = sh_quota (w_shared w) \<and> w_starts w' = w_starts w \<and> w_events w' = w_events w"
  by (auto simp: health_call_def split: prod.splits)

lemma quota_call_frame:
  "quota_call env f w = (r, w') \<Longrightarrow> sh_scheduler (w_shared w') = sh_scheduler (w_shared w) \<and>
     sh_health (w_shared w') = sh_health (w_shared w) \<and> w_starts w' = w_starts w \<and> w_events w' = w_events w"
  by (auto simp: quota_call_def split: prod.splits)

lemma record_runtime_state_frame:
  "record_runtime_state env sel failure w = (r, w') \<Longrightarrow>
     sh_scheduler (w_shared w') = sh_scheduler (w_shared w) \<and> w_starts w' = w_starts w \<and> w_events w' = w_events w"
  by (auto simp: record_runtime_state_def read_clock_def Let_def
      dest!: health_call_frame quota_call_frame
      split: prod.splits if_splits attempt_failure.splits option.splits sum.splits)

lemma complete_quota_recovery_probe_frame [simp]:
  "sh_scheduler (w_shared (complete_quota_recovery_probe env p w)) = sh_scheduler (w_shared w)"
  "w_starts (complete_quota_recovery_probe env p w) = w_starts w"
  "w_events (complete_quota_recovery_probe env p w) = w_events w"
  by (simp_all add: complete_quota_recovery_probe_def read_clock_def quota_call_def split_beta Let_def
      split: option.splits sum.splits)

section \<open>The shared state while a request holds at most one lease\<close>

abbreviation pools_of :: "shared_state \<Rightarrow> endpoint_credential_pools" where
  "pools_of s \<equiv> rcs_credential_pools (sh_scheduler s)"

abbreviation snapshot_of :: "shared_state \<Rightarrow> route_snapshot" where
  "snapshot_of s \<equiv> cs_snapshot (rcs_candidates (sh_scheduler s))"

definition shared_ok :: "shared_state \<Rightarrow> bool" where
  "shared_ok s \<longleftrightarrow> scheduler_ok (rcs_candidates (sh_scheduler s)) \<and> pools_ok (pools_of s)"

definition settled :: "shared_state \<Rightarrow> shared_state \<Rightarrow> bool" where
  "settled s s' \<longleftrightarrow> shared_ok s' \<and> snapshot_of s' = snapshot_of s \<and> same_slots (pools_of s) (pools_of s')"

definition holding :: "credential_lease \<Rightarrow> shared_state \<Rightarrow> shared_state \<Rightarrow> bool" where
  "holding l s s' \<longleftrightarrow> shared_ok s' \<and> snapshot_of s' = snapshot_of s \<and> leased l (pools_of s) (pools_of s')"

definition lease_held :: "credential_lease \<Rightarrow> endpoint_credential_pools \<Rightarrow> bool" where
  "lease_held l P \<longleftrightarrow> (\<exists>pool. bm_get P (lease_endpoint l) = Some pool \<and> lease_index l < length (credentials pool) \<and>
     0 < active_leases (credentials pool ! lease_index l))"

lemma settled_refl: "shared_ok s \<Longrightarrow> settled s s"
  by (simp add: settled_def)

lemma same_slots_trans: "same_slots P Q \<Longrightarrow> same_slots Q R \<Longrightarrow> same_slots P R"
  by (simp add: same_slots_def)

lemma settled_trans: "settled s t \<Longrightarrow> settled t u \<Longrightarrow> settled s u"
  by (auto simp: settled_def intro: same_slots_trans)

lemma same_slots_leased:
  assumes "same_slots P Q" "leased l Q R"
  shows "leased l P R"
proof -
  obtain pool where q: "bm_get Q (lease_endpoint l) = Some pool" "lease_index l < length (credentials pool)"
    "has_capacity (credentials pool ! lease_index l)"
    "\<And>e. map_option credentials (bm_get R e) =
      (if e = lease_endpoint l
       then Some ((credentials pool)[lease_index l := snd (try_acquire (credentials pool ! lease_index l))])
       else map_option credentials (bm_get Q e))"
    using assms(2) unfolding leased_def by blast
  obtain pool0 where "bm_get P (lease_endpoint l) = Some pool0" "credentials pool0 = credentials pool"
    using same_slots_get [OF assms(1) q(1)] by blast
  then show ?thesis using q assms(1) unfolding leased_def same_slots_def by auto
qed

lemma holding_trans: "settled s t \<Longrightarrow> holding l t u \<Longrightarrow> holding l s u"
  by (auto simp: settled_def holding_def intro: same_slots_leased)

lemma leased_held:
  assumes "leased l P Q"
  shows "lease_held l Q"
proof -
  obtain pool where "bm_get P (lease_endpoint l) = Some pool"
    and p: "lease_index l < length (credentials pool)" "has_capacity (credentials pool ! lease_index l)"
    "\<And>e. map_option credentials (bm_get Q e) =
      (if e = lease_endpoint l
       then Some ((credentials pool)[lease_index l := snd (try_acquire (credentials pool ! lease_index l))])
       else map_option credentials (bm_get P e))"
    using assms unfolding leased_def by blast
  obtain pool' where "bm_get Q (lease_endpoint l) = Some pool'"
    "credentials pool' = (credentials pool)[lease_index l := snd (try_acquire (credentials pool ! lease_index l))]"
    using p(3) [of "lease_endpoint l"] by auto
  then show ?thesis using p(1,2) unfolding lease_held_def
    by (simp add: try_acquire_def has_capacity_def)
qed

lemma pools_release_ok:
  assumes "pools_ok P" "lease_held l P"
  shows "pools_ok (pools_release l P)"
proof -
  obtain pool where p: "bm_get P (lease_endpoint l) = Some pool" "lease_index l < length (credentials pool)"
    "0 < active_leases (credentials pool ! lease_index l)"
    using assms(2) unfolding lease_held_def by blast
  have "pool_ok pool" "pool_endpoint_id pool = lease_endpoint l" using assms(1) p(1) by (auto simp: pools_ok_def)
  then have "pool_ok (lease_drop l pool)" "pool_endpoint_id (lease_drop l pool) = lease_endpoint l"
    using lease_drop_ok [OF _ p(2,3)] by (simp_all add: lease_drop_def)
  then show ?thesis using assms(1) p(1) by (auto simp: pools_release_def pools_ok_def bm_get_insert)
qed

lemma drop_selection_ok:
  assumes "shared_ok (w_shared w)" "lease_held (as_lease sel) (pools_of (w_shared w))"
  shows "shared_ok (w_shared (drop_selection sel w))"
  using assms pools_release_ok by (simp add: shared_ok_def)

lemma drop_selection_settled:
  assumes "holding (as_lease sel) s (w_shared w)"
  shows "settled s (w_shared (drop_selection sel w))"
  using assms drop_selection_ok [of w sel] leased_held leased_release
  by (auto simp: holding_def settled_def)

section \<open>What admitting an attempt does\<close>

text \<open>The selection is of the route, passes the caller's test and has not been tried before.\<close>

definition fresh_selection ::
  "route_snapshot \<Rightarrow> string \<Rightarrow> (snapshot_route_candidate \<Rightarrow> bool) \<Rightarrow> attempt_exclusion_set \<Rightarrow> attempt_selection \<Rightarrow> bool" where
  "fresh_selection snap route_id cand_ok ex sel \<longleftrightarrow>
     (\<exists>route. bm_get (rs_routes snap) route_id = Some route \<and> as_candidate sel \<in> set (sr_candidates route)) \<and>
     cand_ok (as_candidate sel) \<and> (rc_id (as_candidate sel), as_credential_id sel) \<notin> ex \<and>
     lease_endpoint (as_lease sel) = rc_endpoint_id (as_candidate sel)"

definition same_log :: "'o attempt_world \<Rightarrow> 'o attempt_world \<Rightarrow> bool" where
  "same_log w w' \<longleftrightarrow> w_starts w' = w_starts w \<and> w_events w' = w_events w"

lemma leased_credential_id:
  assumes "leased l P Q" "bm_get P (lease_endpoint l) = Some pool"
  shows "lease_credential_id Q l = credential_id (credentials pool ! lease_index l)"
proof -
  obtain pool0 where p: "bm_get P (lease_endpoint l) = Some pool0" "lease_index l < length (credentials pool0)"
    "\<And>e. map_option credentials (bm_get Q e) =
      (if e = lease_endpoint l
       then Some ((credentials pool0)[lease_index l := snd (try_acquire (credentials pool0 ! lease_index l))])
       else map_option credentials (bm_get P e))"
    using assms(1) unfolding leased_def by blast
  then have "pool0 = pool" using assms(2) by simp
  moreover obtain pool' where "bm_get Q (lease_endpoint l) = Some pool'"
    "credentials pool' = (credentials pool0)[lease_index l := snd (try_acquire (credentials pool0 ! lease_index l))]"
    using p(3) [of "lease_endpoint l"] by auto
  ultimately show ?thesis using p(2) by (simp add: lease_credential_id_def try_acquire_ok)
qed

lemma run_select_outcome:
  assumes ok: "shared_ok (w_shared w)" and mono: "\<And>c cid. reading_test (test c cid)"
    and fresh: "\<And>c cid s s'. test c cid s = (True, s') \<Longrightarrow> \<not> exclusions_contains ex c cid"
    and run: "run_select (run_selection route_id (lease_candidate renv now cand_ok test)) w = (r, w')"
  shows "same_log w w' \<and> (case r of
      Inl e \<Rightarrow> e = credential_unavailable_error \<and> settled (w_shared w) (w_shared w')
    | Inr sel \<Rightarrow> holding (as_lease sel) (w_shared w) (w_shared w') \<and>
        fresh_selection (snapshot_of (w_shared w)) route_id cand_ok ex sel)"
proof -
  let ?sch = "sh_scheduler (w_shared w)"
  obtain r0 sch' reads' where sel: "run_selection route_id (lease_candidate renv now cand_ok test) ?sch (w_reads w)
      = (r0, sch', reads')" by (metis prod_cases3)
  note out = run_selection_outcome [OF _ _ mono sel] and okD = ok [unfolded shared_ok_def]
  have w': "w' = w\<lparr>w_shared := (w_shared w)\<lparr>sh_scheduler := sch'\<rparr>, w_reads := reads'\<rparr>"
    and r: "r = (case r0 of Inl e \<Rightarrow> Inl e | Inr sel \<Rightarrow> Inr \<lparr>as_candidate = sel_candidate sel, as_lease = sel_lease sel,
       as_credential_id = lease_credential_id (rcs_credential_pools sch') (sel_lease sel)\<rparr>)"
    using run sel by (simp_all add: run_select_def)
  have base: "scheduler_ok (rcs_candidates sch')" "cs_snapshot (rcs_candidates sch') = cs_snapshot (rcs_candidates ?sch)"
    "pools_ok (rcs_credential_pools sch')"
    using out okD by blast+
  have log: "same_log w w'" by (simp add: same_log_def w')
  show ?thesis
  proof (cases r0)
    case (Inl e)
    then show ?thesis using out(3) okD base log by (simp add: r w' settled_def shared_ok_def)
  next
    case (Inr s)
    have l: "leased (sel_lease s) (pools_of (w_shared w)) (rcs_credential_pools sch')"
      and t: "tested_selection renv now cand_ok test (scheduler_route ?sch route_id) (pools_of (w_shared w))
        (w_reads w) reads' (sel_candidate s) (sel_lease s)"
      using out(3) okD Inr by simp_all
    then obtain route pool s0 where c: "scheduler_route ?sch route_id = Some route" "sel_candidate s \<in> set (sr_candidates route)"
      "bm_get (pools_of (w_shared w)) (rc_endpoint_id (sel_candidate s)) = Some pool"
      "test (sel_candidate s) (credential_id (credentials pool ! lease_index (sel_lease s))) s0 = (True, reads')"
      "lease_endpoint (sel_lease s) = rc_endpoint_id (sel_candidate s)" "cand_ok (sel_candidate s)"
      unfolding tested_selection_def by blast
    have cid: "lease_credential_id (rcs_credential_pools sch') (sel_lease s)
        = credential_id (credentials pool ! lease_index (sel_lease s))"
      using leased_credential_id [OF l] c(3,5) by simp
    have "\<not> exclusions_contains ex (sel_candidate s) (lease_credential_id (rcs_credential_pools sch') (sel_lease s))"
      using fresh [OF c(4)] by (simp add: cid)
    then show ?thesis using l c base log
      by (simp add: r Inr w' holding_def shared_ok_def fresh_selection_def scheduler_route_def
          exclusions_contains_def attempt_binding_new_def)
  qed
qed

lemma recovery_binding_test_True:
  "recovery_binding_test env binding_ok c cid s = (True, s') \<Longrightarrow> binding_ok c cid"
  by (auto simp: recovery_binding_test_def health_binding_test_def and_then_True)

lemma select_ordinary_outcome:
  assumes "shared_ok (w_shared w)"
    "run_select (select_eligible_and_lease_with_runtime_health_quota_and_binding_at renv route_id now cand_ok
       (\<lambda>c cid. \<not> exclusions_contains ex c cid)) w = (r, w')"
  shows "same_log w w' \<and> (case r of
      Inl e \<Rightarrow> e = credential_unavailable_error \<and> settled (w_shared w) (w_shared w')
    | Inr sel \<Rightarrow> holding (as_lease sel) (w_shared w) (w_shared w') \<and>
        fresh_selection (snapshot_of (w_shared w)) route_id cand_ok ex sel)"
  by (rule run_select_outcome [OF assms(1) reading_test_bindings(2) _
        assms(2) [unfolded select_eligible_and_lease_with_runtime_health_quota_and_binding_at_def]])
    (simp add: quota_binding_test_True)

lemma select_recovery_outcome:
  assumes "shared_ok (w_shared w)"
    "run_select (select_eligible_and_lease_for_quota_recovery_at renv route_id now cand_ok
       (\<lambda>c cid. \<not> exclusions_contains ex c cid)) w = (r, w')"
  shows "same_log w w' \<and> (case r of
      Inl e \<Rightarrow> e = credential_unavailable_error \<and> settled (w_shared w) (w_shared w')
    | Inr sel \<Rightarrow> holding (as_lease sel) (w_shared w) (w_shared w') \<and>
        fresh_selection (snapshot_of (w_shared w)) route_id cand_ok ex sel)"
  by (rule run_select_outcome [OF assms(1) reading_test_bindings(3) _
        assms(2) [unfolded select_eligible_and_lease_for_quota_recovery_at_def]])
    (erule recovery_binding_test_True)

text \<open>Changing a registry or a counter keeps what is said of the scheduler.\<close>

lemma holding_scheduler:
  "sh_scheduler s'' = sh_scheduler s' \<Longrightarrow> holding l s s'' = holding l s s'"
  "sh_scheduler s'' = sh_scheduler s' \<Longrightarrow> settled s s'' = settled s s'"
  "sh_scheduler s'' = sh_scheduler s' \<Longrightarrow> shared_ok s'' = shared_ok s'"
  by (simp_all add: holding_def settled_def shared_ok_def)

lemma begin_quota_recovery_outcome:
  assumes ok: "shared_ok (w_shared w)"
    and run: "begin_quota_recovery_probe_selection env route_id cand_ok ex now ceiling w = (r, w')"
  shows "same_log w w' \<and> (case r of
      None \<Rightarrow> settled (w_shared w) (w_shared w')
    | Some (sel, probe) \<Rightarrow> holding (as_lease sel) (w_shared w) (w_shared w') \<and>
        fresh_selection (snapshot_of (w_shared w)) route_id cand_ok ex sel)"
proof -
  obtain r1 w1 where sel: "run_select (select_eligible_and_lease_for_quota_recovery_at (runtime_env_of env (w_shared w))
      route_id now cand_ok (\<lambda>c cid. \<not> exclusions_contains ex c cid)) w = (r1, w1)" by fastforce
  note out = select_recovery_outcome [OF ok sel]
  show ?thesis
  proof (cases r1)
    case (Inl e)
    then show ?thesis using run sel out by (simp add: begin_quota_recovery_probe_selection_def)
  next
    case (Inr s)
    have hold: "holding (as_lease s) (w_shared w) (w_shared w1)" "same_log w w1"
      "fresh_selection (snapshot_of (w_shared w)) route_id cand_ok ex s" using out Inr by simp_all
    show ?thesis
    proof (cases "orchestrator_add_duration now (duration_saturating_add ceiling quota_recovery_probe_grace)")
      case (Inl e)
      then show ?thesis using run sel Inr hold drop_selection_settled [OF hold(1)]
        by (auto simp: begin_quota_recovery_probe_selection_def same_log_def)
    next
      case expires: (Inr expires_at)
      obtain r2 w2 where q: "quota_call env (\<lambda>hash clock. begin_recovery_probe hash clock
          (EndpointCredentialTarget (rc_endpoint_id (as_candidate s)) (as_credential_id s)) expires_at) w1 = (r2, w2)"
        by fastforce
      note frame = quota_call_frame [OF q]
      have hold2: "holding (as_lease s) (w_shared w) (w_shared w2)"
        using hold(1) frame holding_scheduler(1) by blast
      then show ?thesis using run sel Inr expires q hold frame drop_selection_settled [OF hold2]
        by (auto simp: begin_quota_recovery_probe_selection_def same_log_def split: sum.splits option.splits)
    qed
  qed
qed

lemma same_log_refl [simp]: "same_log w w"
  by (simp add: same_log_def)

lemma same_log_trans: "same_log u v \<Longrightarrow> same_log v w \<Longrightarrow> same_log u w"
  by (simp add: same_log_def)

lemma select_attempt_outcome:
  assumes ok: "shared_ok (w_shared w)"
    and run: "select_attempt env route_id cand_ok b ex lf now w = (r, w')"
  shows "same_log w w' \<and> (case r of
      Inl e \<Rightarrow> settled (w_shared w) (w_shared w')
    | Inr (sel, probe) \<Rightarrow> holding (as_lease sel) (w_shared w) (w_shared w') \<and>
        fresh_selection (snapshot_of (w_shared w)) route_id cand_ok ex sel)"
proof -
  obtain r1 w1 where sel: "run_select (select_eligible_and_lease_with_runtime_health_quota_and_binding_at
      (runtime_env_of env (w_shared w)) route_id now cand_ok (\<lambda>c cid. \<not> exclusions_contains ex c cid)) w = (r1, w1)"
    by fastforce
  note out = select_ordinary_outcome [OF ok sel]
  show ?thesis
  proof (cases r1)
    case (Inr s)
    then show ?thesis using run sel out by (auto simp: select_attempt_def)
  next
    case (Inl e)
    then have w1: "settled (w_shared w) (w_shared w1)" "same_log w w1" using out by simp_all
    show ?thesis
    proof (cases "remaining_at b now")
      case (Inl e')
      then show ?thesis using run sel \<open>r1 = Inl e\<close> w1 by (auto simp: select_attempt_def)
    next
      case (Inr remaining)
      obtain r2 w2 where p: "begin_quota_recovery_probe_selection env route_id cand_ok ex now
          (env_start_timeout env remaining) w1 = (r2, w2)" by fastforce
      have "shared_ok (w_shared w1)" "snapshot_of (w_shared w1) = snapshot_of (w_shared w)"
        using w1(1) by (simp_all add: settled_def)
      note rec = begin_quota_recovery_outcome [OF this(1) p, unfolded this(2)]
      show ?thesis
      proof (cases r2)
        case None
        then show ?thesis using run sel \<open>r1 = Inl e\<close> Inr p rec w1
          by (auto simp: select_attempt_def intro: same_log_trans settled_trans)
      next
        case (Some sp)
        then show ?thesis using run sel \<open>r1 = Inl e\<close> Inr p rec w1
          by (cases sp) (auto simp: select_attempt_def intro: same_log_trans holding_trans)
      qed
    qed
  qed
qed

lemma poll_read_frame:
  "poll_cancelled env w = (c, w1) \<Longrightarrow> w_shared w1 = w_shared w \<and> same_log w w1"
  "poll_retry env w = (c, w1) \<Longrightarrow> w_shared w1 = w_shared w \<and> same_log w w1"
  "read_clock env w = (t, w1) \<Longrightarrow> w_shared w1 = w_shared w \<and> same_log w w1"
  by (auto simp: poll_cancelled_def poll_retry_def read_clock_def same_log_def)

lemma admit_attempt_outcome:
  assumes ok: "shared_ok (w_shared w)"
    and run: "admit_attempt env route_id cand_ok b ex lf w = (r, w')"
  shows "same_log w w' \<and> (case r of
      Inl e \<Rightarrow> settled (w_shared w) (w_shared w')
    | Inr (sel, probe, started_at, remaining) \<Rightarrow> holding (as_lease sel) (w_shared w) (w_shared w') \<and>
        fresh_selection (snapshot_of (w_shared w)) route_id cand_ok ex sel \<and>
        can_start_at b started_at \<and> remaining_at b started_at = Inr remaining)"
proof -
  obtain c w1 where p: "poll_cancelled env w = (c, w1)" by fastforce
  obtain t w2 where t: "read_clock env w1 = (t, w2)" by fastforce
  have w2: "w_shared w2 = w_shared w" "same_log w w2" "w_shared w1 = w_shared w" "same_log w w1"
    using poll_read_frame(1) [OF p] poll_read_frame(3) [OF t] by (auto intro: same_log_trans)
  show ?thesis
  proof (cases "c \<or> t = None \<or> \<not> can_start_at b (the t)")
    case True
    then show ?thesis using run p t w2 settled_refl [OF ok]
      by (cases c) (auto simp: admit_attempt_def split: option.splits)
  next
    case False
    then obtain now where now: "\<not> c" "t = Some now" "can_start_at b now" by auto
    obtain r3 w3 where s: "select_attempt env route_id cand_ok b ex lf now w2 = (r3, w3)" by fastforce
    note out = select_attempt_outcome [OF ok [folded w2(1)] s, unfolded w2(1)]
    show ?thesis
    proof (cases r3)
      case (Inl e)
      then show ?thesis using run p t now s out w2 by (auto simp: admit_attempt_def intro: same_log_trans)
    next
      case (Inr sp)
      obtain sel probe where sp: "sp = (sel, probe)" by fastforce
      obtain t4 w4 where t4: "read_clock env w3 = (t4, w4)" by fastforce
      have w4: "holding (as_lease sel) (w_shared w) (w_shared w4)" "same_log w w4"
        "fresh_selection (snapshot_of (w_shared w)) route_id cand_ok ex sel"
        using out Inr sp poll_read_frame(3) [OF t4] w2(2) by (auto intro: same_log_trans)
      note dropped = drop_selection_settled [OF w4(1)]
      have log: "same_log w (drop_selection sel w4)" using w4(2) by (simp add: same_log_def)
      show ?thesis using run p t now s Inr sp t4 w4 dropped log
        by (auto simp: admit_attempt_def split: option.splits sum.splits if_splits)
    qed
  qed
qed

section \<open>What a step of the loop does\<close>

text \<open>
  Other requests use the scheduler through its operations: while the driver runs they keep the
  scheduler and the pools well-formed, publish nothing into this scheduler's snapshot, and release only
  leases of their own.
\<close>

definition well_behaved :: "'o attempt_env \<Rightarrow> bool" where
  "well_behaved env \<longleftrightarrow>
     (\<forall>n sel t d s race s'. shared_ok s \<longrightarrow> lease_held (as_lease sel) (pools_of s) \<longrightarrow>
        env_race env n sel t d s = (race, s') \<longrightarrow>
        shared_ok s' \<and> snapshot_of s' = snapshot_of s \<and> lease_held (as_lease sel) (pools_of s'))"

text \<open>The other requests have given back, by the time the driver ends, what they leased meanwhile.\<close>

definition quiet :: "'o attempt_env \<Rightarrow> bool" where
  "quiet env \<longleftrightarrow>
     (\<forall>n sel t d s race s'. env_race env n sel t d s = (race, s') \<longrightarrow>
        same_slots (pools_of s) (pools_of s'))"

text \<open>A start that the budget admits.\<close>

definition start_within :: "'o attempt_env \<Rightarrow> retry_budget \<Rightarrow> 'o driver_start \<Rightarrow> bool" where
  "start_within env b d \<longleftrightarrow> ds_started_at_ms d < deadline_ms b \<and>
     ds_remaining_bootstrap d = from_millis (nat (deadline_ms b - ds_started_at_ms d)) \<and>
     ds_timeout d = env_start_timeout env (ds_remaining_bootstrap d)"

lemma remaining_within:
  "can_start_at b t \<Longrightarrow> remaining_at b t = Inr d \<Longrightarrow>
     t < deadline_ms b \<and> d = from_millis (nat (deadline_ms b - t))"
  by (auto simp: can_start_at_def remaining_at_def checked_sub_i64_def split: option.splits if_splits)

text \<open>The events a start is reported with: one if the request has an id, else none.\<close>

definition reported ::
  "string option \<Rightarrow> string \<Rightarrow> attempt_selection \<Rightarrow> u64 \<Rightarrow> i64 \<Rightarrow> attempt_outcome \<Rightarrow> attempt_retry_decision \<Rightarrow>
     attempt_event list \<Rightarrow> bool" where
  "reported request_id route_id sel n started_at outcome decision evs \<longleftrightarrow>
     (case request_id of
        None \<Rightarrow> evs = []
      | Some rid \<Rightarrow> \<exists>ended_at. evs = [attempt_event_new rid n route_id (rc_id (as_candidate sel)) (as_credential_id sel)
          (rc_endpoint_id (as_candidate sel)) (rc_upstream_id (as_candidate sel)) (rc_upstream_model (as_candidate sel))
          started_at ended_at outcome decision])"

lemma emit_attempt_reported:
  "\<exists>evs. w_events (emit_attempt env rid route_id sel n t out dec w) = w_events w @ evs \<and>
     reported rid route_id sel n t out dec evs"
  by (auto simp: emit_attempt_def reported_def read_clock_def Let_def split: option.splits)

text \<open>The end of an attempt: its lease is given back and its event is offered.\<close>

definition gave_up ::
  "string option \<Rightarrow> string \<Rightarrow> attempt_selection \<Rightarrow> u64 \<Rightarrow> i64 \<Rightarrow>
     ('o attempt_world \<Rightarrow> attempt_outcome \<Rightarrow> attempt_retry_decision \<Rightarrow> bool) \<Rightarrow> 'o attempt_world \<Rightarrow> 'o attempt_world \<Rightarrow> bool" where
  "gave_up rid route_id sel n started_at ends w w' \<longleftrightarrow>
     w_starts w' = w_starts w \<and>
     rcs_candidates (sh_scheduler (w_shared w')) = rcs_candidates (sh_scheduler (w_shared w)) \<and>
     pools_of (w_shared w') = pools_release (as_lease sel) (pools_of (w_shared w)) \<and>
     (\<exists>evs out dec. w_events w' = w_events w @ evs \<and> reported rid route_id sel n started_at out dec evs \<and> ends w' out dec)"

text \<open>The counters of the gate's polls are untouched by the end of an attempt.\<close>

lemma polls_ended [simp]:
  "w_retry_polls (emit_attempt env rid route_id sel n t out dec w) = w_retry_polls w"
  "w_cancel_polls (emit_attempt env rid route_id sel n t out dec w) = w_cancel_polls w"
  "w_retry_polls (drop_selection sel w) = w_retry_polls w" "w_cancel_polls (drop_selection sel w) = w_cancel_polls w"
  by (simp_all add: emit_attempt_def read_clock_def drop_selection_def update_shared_def split_beta Let_def split: option.splits)

lemma gave_upI:
  assumes "w_starts w1 = w_starts w" "w_events w1 = w_events w" "sh_scheduler (w_shared w1) = sh_scheduler (w_shared w)"
    "ends (drop_selection sel (emit_attempt env rid route_id sel n t out dec w1)) out dec"
  shows "gave_up rid route_id sel n t ends w (drop_selection sel (emit_attempt env rid route_id sel n t out dec w1))"
proof -
  obtain evs where "w_events (emit_attempt env rid route_id sel n t out dec w1) = w_events w @ evs"
    "reported rid route_id sel n t out dec evs"
    using emit_attempt_reported [of env rid route_id sel n t out dec w1] assms(2) by auto
  then show ?thesis using assms unfolding gave_up_def by auto
qed

text \<open>
  The outcome and the retry decision that report the last attempt, given how its race ended, what the
  request returns and the world it leaves: the decision names the reason the request ends for.
\<close>

definition last_cancelled :: "'o attempt_env \<Rightarrow> 'o attempt_world \<Rightarrow> bool" where
  "last_cancelled env w \<longleftrightarrow> 0 < w_cancel_polls w \<and> gate_cancelled (env_gate env) (w_cancel_polls w - 1)"

definition last_closed :: "'o attempt_env \<Rightarrow> 'o attempt_world \<Rightarrow> bool" where
  "last_closed env w \<longleftrightarrow> 0 < w_retry_polls w \<and> \<not> gate_allows_transparent_retry (env_gate env) (w_retry_polls w - 1)"

definition last_allowed :: "'o attempt_env \<Rightarrow> 'o attempt_world \<Rightarrow> bool" where
  "last_allowed env w \<longleftrightarrow> 0 < w_retry_polls w \<and> gate_allows_transparent_retry (env_gate env) (w_retry_polls w - 1)"

definition recording ::
  "'o attempt_env \<Rightarrow> attempt_selection \<Rightarrow> attempt_failure \<Rightarrow> gateway_error + unit \<Rightarrow> bool" where
  "recording env sel f r \<longleftrightarrow> (\<exists>w w'. record_runtime_state env sel f w = (r, w'))"

definition failed_finally ::
  "'o attempt_env \<Rightarrow> attempt_selection \<Rightarrow> attempt_failure + 'o \<Rightarrow> gateway_error \<Rightarrow> 'o attempt_world \<Rightarrow> attempt_outcome \<Rightarrow>
     attempt_retry_decision \<Rightarrow> bool" where
  "failed_finally env sel res e w out dec \<longleftrightarrow>
     (case res of
        Inr _ \<Rightarrow> e = request_cancelled_error \<and> out = Failed e \<and> dec = CancelledDecision \<and> last_cancelled env w
      | Inl f \<Rightarrow>
          if f = CancelledFailure then e = request_cancelled_error \<and> out = Failed e \<and> dec = CancelledDecision
          else
           (case dec of
              InfrastructureFailure \<Rightarrow> out = Failed e \<and> recording env sel f (Inl e)
            | CancelledDecision \<Rightarrow>
                out = Failed (safe_error f) \<and> e = request_cancelled_error \<and> recording env sel f (Inr ()) \<and> last_cancelled env w
            | NonRetryableDecision \<Rightarrow>
                out = Failed (safe_error f) \<and> e = safe_error f \<and> recording env sel f (Inr ()) \<and> \<not> last_cancelled env w \<and>
                \<not> is_retryable f
            | RetryClosed \<Rightarrow>
                out = Failed (safe_error f) \<and> e = safe_error f \<and> recording env sel f (Inr ()) \<and> \<not> last_cancelled env w \<and>
                is_retryable f \<and> last_closed env w
            | _ \<Rightarrow> False))"

lemma conclude_failure_outcome:
  assumes "conclude_failure env rid route_id b ex sel t failure w = res"
  shows "case res of
      Return r w' \<Rightarrow> (\<exists>e. r = Inl e \<and>
        gave_up rid route_id sel (attempts_started b) t (failed_finally env sel (Inl failure) e) w w')
    | Retry b' ex' f w' \<Rightarrow> b' = b \<and> is_retryable failure \<and> f = safe_error failure \<and>
        ex' = insert (rc_id (as_candidate sel), as_credential_id sel) ex \<and>
        gave_up rid route_id sel (attempts_started b) t
          (\<lambda>w' out dec. out = Failed (safe_error failure) \<and> dec = RetryEligible \<and> last_allowed env w') w w'"
proof (cases "failure = CancelledFailure")
  case True
  then show ?thesis using assms
    by (auto simp: conclude_failure_def Let_def failed_finally_def intro!: gave_upI)
next
  case False
  obtain r1 w1 where s: "record_runtime_state env sel failure w = (r1, w1)" by fastforce
  note frame = record_runtime_state_frame [OF s]
  have rec: "recording env sel failure r1" using s by (auto simp: recording_def)
  show ?thesis
  proof (cases r1)
    case (Inl e)
    then show ?thesis using assms False s frame rec
      by (auto simp: conclude_failure_def Let_def failed_finally_def intro!: gave_upI)
  next
    case (Inr u)
    then show ?thesis using assms False s frame rec
      by (auto simp: conclude_failure_def Let_def poll_cancelled_def poll_retry_def exclusions_insert_def
          attempt_binding_new_def failed_finally_def last_cancelled_def last_closed_def
          last_allowed_def split: if_splits intro!: gave_upI)
  qed
qed

lemma conclude_success_outcome:
  assumes "conclude_success env rid route_id b sel probe t output w = res"
  shows "(\<exists>w'. res = Return (Inl request_cancelled_error) w' \<and>
      gave_up rid route_id sel (attempts_started b) t (failed_finally env sel (Inr output) request_cancelled_error) w w') \<or>
    (\<exists>w' evs. res = Return (Inr \<lparr>sa_selection = sel, sa_output = output, sa_attempts_started = attempts_started b\<rparr>) w' \<and>
       w_starts w' = w_starts w \<and> sh_scheduler (w_shared w') = sh_scheduler (w_shared w) \<and>
       w_events w' = w_events w @ evs \<and> reported rid route_id sel (attempts_started b) t Succeeded Completed evs)"
proof -
  define w1 where "w1 = (case probe of None \<Rightarrow> w | Some p \<Rightarrow> complete_quota_recovery_probe env p w)"
  have w1: "w_starts w1 = w_starts w" "w_events w1 = w_events w" "sh_scheduler (w_shared w1) = sh_scheduler (w_shared w)"
    by (simp_all add: w1_def split: option.splits)
  obtain c w2 where p: "poll_cancelled env w1 = (c, w2)" by fastforce
  have w2: "w_starts w2 = w_starts w" "w_events w2 = w_events w" "sh_scheduler (w_shared w2) = sh_scheduler (w_shared w)"
    using poll_read_frame(1) [OF p] w1 by (simp_all add: same_log_def)
  show ?thesis
  proof (cases c)
    case True
    moreover have "w_cancel_polls w2 = w_cancel_polls w1 + 1" "gate_cancelled (env_gate env) (w_cancel_polls w1) = c"
      using p by (auto simp: poll_cancelled_def)
    ultimately show ?thesis using assms p w2
      by (auto simp: conclude_success_def w1_def [symmetric] failed_finally_def last_cancelled_def intro!: gave_upI)
  next
    case False
    obtain evs where "w_events (emit_attempt env rid route_id sel (attempts_started b) t Succeeded Completed w2) = w_events w @ evs"
      "reported rid route_id sel (attempts_started b) t Succeeded Completed evs"
      using emit_attempt_reported [of env rid route_id sel "attempts_started b" t Succeeded Completed w2] w2(2) by auto
    then show ?thesis using assms p False w2
      by (auto simp: conclude_success_def w1_def [symmetric])
  qed
qed

lemma gave_up_shared:
  assumes g: "gave_up rid route_id sel n t ends w w'"
  shows "shared_ok (w_shared w) \<Longrightarrow> lease_held (as_lease sel) (pools_of (w_shared w)) \<Longrightarrow> shared_ok (w_shared w')"
    and "snapshot_of (w_shared w') = snapshot_of (w_shared w)"
    and "holding (as_lease sel) s (w_shared w) \<Longrightarrow> settled s (w_shared w')"
proof -
  have *: "rcs_candidates (sh_scheduler (w_shared w')) = rcs_candidates (sh_scheduler (w_shared w))"
    "pools_of (w_shared w') = pools_release (as_lease sel) (pools_of (w_shared w))"
    using g by (simp_all add: gave_up_def)
  show ok: "shared_ok (w_shared w')" if "shared_ok (w_shared w)" "lease_held (as_lease sel) (pools_of (w_shared w))"
    using that * pools_release_ok by (simp add: shared_ok_def)
  show "snapshot_of (w_shared w') = snapshot_of (w_shared w)" by (simp add: *)
  show "settled s (w_shared w')" if h: "holding (as_lease sel) s (w_shared w)"
    using h ok leased_held leased_release by (auto simp: holding_def settled_def *)
qed

lemma race_attempt_outcome:
  assumes wb: "well_behaved env" and hold: "holding (as_lease sel) s (w_shared w)"
    and run: "race_attempt env sel t remaining w = (r, w')"
  shows "shared_ok (w_shared w') \<and> snapshot_of (w_shared w') = snapshot_of s \<and>
    lease_held (as_lease sel) (pools_of (w_shared w')) \<and> (quiet env \<longrightarrow> holding (as_lease sel) s (w_shared w')) \<and>
    w_events w' = w_events w \<and>
    (\<exists>d. w_starts w' = w_starts w @ [d] \<and> ds_selection d = sel \<and> ds_started_at_ms d = t \<and>
       ds_remaining_bootstrap d = remaining \<and> ds_timeout d = env_start_timeout env remaining \<and> race_result (ds_race d) = r)"
proof -
  obtain race s' where e: "env_race env (length (w_starts w)) sel (env_start_timeout env remaining) remaining (w_shared w)
      = (race, s')" by fastforce
  have w': "w_shared w' = s'" "r = race_result race" "w_events w' = w_events w"
    "w_starts w' = w_starts w @ [\<lparr>ds_selection = sel, ds_started_at_ms = t, ds_remaining_bootstrap = remaining,
      ds_timeout = env_start_timeout env remaining, ds_race = race\<rparr>]"
    using run e by (auto simp: race_attempt_def)
  have h: "shared_ok (w_shared w)" "snapshot_of (w_shared w) = snapshot_of s" "leased (as_lease sel) (pools_of s) (pools_of (w_shared w))"
    using hold by (simp_all add: holding_def)
  have s': "shared_ok s' \<and> snapshot_of s' = snapshot_of (w_shared w) \<and> lease_held (as_lease sel) (pools_of s')"
    using wb h(1) leased_held [OF h(3)] e unfolding well_behaved_def by blast
  have "holding (as_lease sel) s s'" if "quiet env"
  proof -
    have "same_slots (pools_of (w_shared w)) (pools_of s')" using that e unfolding quiet_def by blast
    then have "leased (as_lease sel) (pools_of s) (pools_of s')" using h(3) by (simp add: leased_def same_slots_def)
    then show ?thesis using s' h(2) by (simp add: holding_def)
  qed
  then show ?thesis using s' h(2) w' by simp
qed

lemma polls_frame [simp]:
  "w_retry_polls (complete_quota_recovery_probe env p w) = w_retry_polls w"
  "w_retry_polls (snd (health_call env f w)) = w_retry_polls w"
  "w_retry_polls (snd (quota_call env g w)) = w_retry_polls w"
  "w_retry_polls (snd (run_select h w)) = w_retry_polls w"
  by (simp_all add: emit_attempt_def read_clock_def drop_selection_def update_shared_def
      complete_quota_recovery_probe_def health_call_def quota_call_def run_select_def split_beta Let_def
      split: option.splits sum.splits)

lemma admit_attempt_polls: "w_retry_polls (snd (admit_attempt env route_id cand_ok b ex lf w)) = w_retry_polls w"
proof -
  have "w_retry_polls (snd (begin_quota_recovery_probe_selection env route_id cand_ok ex now d w)) = w_retry_polls w"
    for now d and w :: "'a attempt_world"
    unfolding begin_quota_recovery_probe_selection_def
    by (auto split: prod.splits sum.splits option.splits)
      (metis polls_frame(3,4) snd_conv)+
  then have "w_retry_polls (snd (select_attempt env route_id cand_ok b ex lf now w)) = w_retry_polls w"
    for now and w :: "'a attempt_world"
    unfolding select_attempt_def
    by (auto split: prod.splits sum.splits option.splits) (metis polls_frame(4) snd_conv)+
  then have "select_attempt env route_id cand_ok b ex lf now w = (r, w') \<Longrightarrow> w_retry_polls w' = w_retry_polls w"
    for now r and w w' :: "'a attempt_world" by (metis snd_conv)
  then show ?thesis
    unfolding admit_attempt_def
    by (auto simp: poll_cancelled_def read_clock_def split: prod.splits sum.splits option.splits bool.splits)
qed

definition attempted ::
  "'o attempt_env \<Rightarrow> route_snapshot \<Rightarrow> string \<Rightarrow> (snapshot_route_candidate \<Rightarrow> bool) \<Rightarrow> retry_budget \<Rightarrow>
     attempt_exclusion_set \<Rightarrow> 'o driver_start \<Rightarrow> bool" where
  "attempted env snap route_id cand_ok b ex d \<longleftrightarrow>
     fresh_selection snap route_id cand_ok ex (ds_selection d) \<and> start_within env b d \<and>
     attempts_started b < max_attempts b"

definition binding_of :: "'o driver_start \<Rightarrow> attempt_binding" where
  "binding_of d = (rc_id (as_candidate (ds_selection d)), as_credential_id (ds_selection d))"

text \<open>One start, its end and its event.\<close>

definition one_start ::
  "'o attempt_env \<Rightarrow> string option \<Rightarrow> string \<Rightarrow> (snapshot_route_candidate \<Rightarrow> bool) \<Rightarrow> retry_budget \<Rightarrow> attempt_exclusion_set \<Rightarrow>
     'o attempt_world \<Rightarrow> 'o attempt_world \<Rightarrow> 'o driver_start \<Rightarrow> attempt_outcome \<Rightarrow> attempt_retry_decision \<Rightarrow> bool" where
  "one_start env rid route_id cand_ok b ex w w' d out dec \<longleftrightarrow>
     w_starts w' = w_starts w @ [d] \<and> attempted env (snapshot_of (w_shared w)) route_id cand_ok b ex d \<and>
     (\<exists>evs. w_events w' = w_events w @ evs \<and>
        reported rid route_id (ds_selection d) (attempts_started b + 1) (ds_started_at_ms d) out dec evs)"

definition step_outcome ::
  "'o attempt_env \<Rightarrow> string option \<Rightarrow> string \<Rightarrow> (snapshot_route_candidate \<Rightarrow> bool) \<Rightarrow> retry_budget \<Rightarrow> attempt_exclusion_set \<Rightarrow>
     'o attempt_world \<Rightarrow> 'o step_result \<Rightarrow> bool" where
  "step_outcome env rid route_id cand_ok b ex w res \<longleftrightarrow>
     (case res of
        Return (Inl e) w' \<Rightarrow> shared_ok (w_shared w') \<and> snapshot_of (w_shared w') = snapshot_of (w_shared w) \<and>
          (same_log w w' \<and> w_retry_polls w' = w_retry_polls w \<and> settled (w_shared w) (w_shared w') \<or>
           (quiet env \<longrightarrow> settled (w_shared w) (w_shared w')) \<and>
           (\<exists>d out dec. one_start env rid route_id cand_ok b ex w w' d out dec \<and>
              failed_finally env (ds_selection d) (race_result (ds_race d)) e w' out dec))
      | Return (Inr sa) w' \<Rightarrow> shared_ok (w_shared w') \<and> snapshot_of (w_shared w') = snapshot_of (w_shared w) \<and>
          (quiet env \<longrightarrow> holding (as_lease (sa_selection sa)) (w_shared w) (w_shared w')) \<and>
          (\<exists>d. one_start env rid route_id cand_ok b ex w w' d Succeeded Completed \<and>
             sa_selection sa = ds_selection d \<and> race_result (ds_race d) = Inr (sa_output sa) \<and>
             sa_attempts_started sa = attempts_started b + 1)
      | Retry b' ex' f w' \<Rightarrow> shared_ok (w_shared w') \<and> snapshot_of (w_shared w') = snapshot_of (w_shared w) \<and>
          (quiet env \<longrightarrow> settled (w_shared w) (w_shared w')) \<and> b' = record_start b \<and> last_allowed env w' \<and>
          (\<exists>d failure. one_start env rid route_id cand_ok b ex w w' d (Failed f) RetryEligible \<and>
             race_result (ds_race d) = Inl failure \<and> is_retryable failure \<and> f = safe_error failure \<and>
             ex' = insert (binding_of d) ex))"

text \<open>The world when the race has ended: the start is logged and its lease is still held.\<close>

definition raced ::
  "'o attempt_env \<Rightarrow> string \<Rightarrow> (snapshot_route_candidate \<Rightarrow> bool) \<Rightarrow> retry_budget \<Rightarrow> attempt_exclusion_set \<Rightarrow>
     'o attempt_world \<Rightarrow> 'o attempt_world \<Rightarrow> 'o driver_start \<Rightarrow> bool" where
  "raced env route_id cand_ok b ex w w2 d \<longleftrightarrow>
     w_starts w2 = w_starts w @ [d] \<and> w_events w2 = w_events w \<and>
     attempted env (snapshot_of (w_shared w)) route_id cand_ok b ex d \<and>
     shared_ok (w_shared w2) \<and> snapshot_of (w_shared w2) = snapshot_of (w_shared w) \<and>
     lease_held (as_lease (ds_selection d)) (pools_of (w_shared w2)) \<and>
     (quiet env \<longrightarrow> holding (as_lease (ds_selection d)) (w_shared w) (w_shared w2))"

lemma step_raced:
  assumes ok: "shared_ok (w_shared w)" and wb: "well_behaved env"
    and a: "admit_attempt env route_id cand_ok b ex lf w = (Inr (sel, probe, t, remaining), w1)"
    and race: "race_attempt env sel t remaining w1 = (r, w2)"
  shows "\<exists>d. raced env route_id cand_ok b ex w w2 d \<and> ds_selection d = sel \<and> ds_started_at_ms d = t \<and> race_result (ds_race d) = r"
proof -
  note adm = admit_attempt_outcome [OF ok a, simplified]
  have hold: "holding (as_lease sel) (w_shared w) (w_shared w1)" using adm by blast
  note ro = race_attempt_outcome [OF wb hold race]
  then obtain d where d: "w_starts w2 = w_starts w1 @ [d]" "ds_selection d = sel" "ds_started_at_ms d = t"
    "ds_remaining_bootstrap d = remaining" "ds_timeout d = env_start_timeout env remaining" "race_result (ds_race d) = r"
    by blast
  have "t < deadline_ms b \<and> remaining = from_millis (nat (deadline_ms b - t))" "attempts_started b < max_attempts b"
    using remaining_within adm by (blast, simp add: can_start_at_def)
  then have "attempted env (snapshot_of (w_shared w)) route_id cand_ok b ex d"
    using adm d by (simp add: attempted_def start_within_def)
  then show ?thesis using ro d adm by (auto simp: raced_def same_log_def)
qed

lemma raced_gave_up:
  assumes r: "raced env route_id cand_ok b ex w w2 d"
    and g: "gave_up rid route_id (ds_selection d) (attempts_started (record_start b)) (ds_started_at_ms d) ends w2 w'"
  shows "shared_ok (w_shared w')" "snapshot_of (w_shared w') = snapshot_of (w_shared w)"
    and "quiet env \<longrightarrow> settled (w_shared w) (w_shared w')"
    and "\<exists>out dec. one_start env rid route_id cand_ok b ex w w' d out dec \<and> ends w' out dec"
proof -
  show "shared_ok (w_shared w')" by (rule gave_up_shared(1) [OF g]) (use r in \<open>simp_all add: raced_def\<close>)
  show "snapshot_of (w_shared w') = snapshot_of (w_shared w)"
    using gave_up_shared(2) [OF g] r by (simp add: raced_def)
  show "quiet env \<longrightarrow> settled (w_shared w) (w_shared w')"
    using gave_up_shared(3) [OF g] r by (simp add: raced_def)
  show "\<exists>out dec. one_start env rid route_id cand_ok b ex w w' d out dec \<and> ends w' out dec"
    using g r by (auto simp: gave_up_def one_start_def record_start_def raced_def)
qed

lemma step_failure:
  assumes r: "raced env route_id cand_ok b ex w w2 d" and f: "race_result (ds_race d) = Inl failure"
    and c: "conclude_failure env rid route_id (record_start b) ex (ds_selection d) (ds_started_at_ms d) failure w2 = res"
  shows "step_outcome env rid route_id cand_ok b ex w res"
proof (cases res)
  case (Return r' w')
  then obtain e where e: "r' = Inl e"
    and g: "gave_up rid route_id (ds_selection d) (attempts_started (record_start b)) (ds_started_at_ms d)
      (failed_finally env (ds_selection d) (Inl failure) e) w2 w'"
    using conclude_failure_outcome [OF c] by auto
  note out = raced_gave_up [OF r g [folded f]]
  show ?thesis unfolding step_outcome_def Return e using out by auto
next
  case (Retry b' ex' fl w')
  then have q: "b' = record_start b" "is_retryable failure" "fl = safe_error failure" "ex' = insert (binding_of d) ex"
    and g: "gave_up rid route_id (ds_selection d) (attempts_started (record_start b)) (ds_started_at_ms d)
      (\<lambda>w' out dec. out = Failed (safe_error failure) \<and> dec = RetryEligible \<and> last_allowed env w') w2 w'"
    using conclude_failure_outcome [OF c] by (simp_all add: binding_of_def)
  note out = raced_gave_up [OF r g]
  show ?thesis unfolding step_outcome_def Retry using out q f by auto
qed

lemma step_success:
  assumes r: "raced env route_id cand_ok b ex w w2 d" and f: "race_result (ds_race d) = Inr x"
    and c: "conclude_success env rid route_id (record_start b) (ds_selection d) probe (ds_started_at_ms d) x w2 = res"
  shows "step_outcome env rid route_id cand_ok b ex w res"
  using conclude_success_outcome [OF c]
proof (elim disjE exE conjE)
  fix w' assume w': "res = Return (Inl request_cancelled_error) w'"
    and g: "gave_up rid route_id (ds_selection d) (attempts_started (record_start b)) (ds_started_at_ms d)
      (failed_finally env (ds_selection d) (Inr x) request_cancelled_error) w2 w'"
  note out = raced_gave_up [OF r g [folded f]]
  show ?thesis unfolding step_outcome_def w' using out by auto
next
  fix w' evs
  assume w': "res = Return (Inr \<lparr>sa_selection = ds_selection d, sa_output = x,
      sa_attempts_started = attempts_started (record_start b)\<rparr>) w'"
    "w_starts w' = w_starts w2" "sh_scheduler (w_shared w') = sh_scheduler (w_shared w2)" "w_events w' = w_events w2 @ evs"
    "reported rid route_id (ds_selection d) (attempts_started (record_start b)) (ds_started_at_ms d) Succeeded Completed evs"
  have "one_start env rid route_id cand_ok b ex w w' d Succeeded Completed"
    using w'(2,4,5) r by (auto simp: one_start_def raced_def record_start_def)
  then show ?thesis unfolding step_outcome_def w'(1)
    using r f holding_scheduler [OF w'(3)] w'(3) by (auto simp: raced_def record_start_def)
qed

lemma attempt_step_outcome:
  assumes ok: "shared_ok (w_shared w)" and wb: "well_behaved env"
    and step: "attempt_step env rid route_id cand_ok b ex lf w = res"
  shows "step_outcome env rid route_id cand_ok b ex w res"
proof -
  obtain r1 w1 where a: "admit_attempt env route_id cand_ok b ex lf w = (r1, w1)" by fastforce
  show ?thesis
  proof (cases r1)
    case (Inl e)
    then have "res = Return (Inl e) w1" using step a by (simp add: attempt_step_def)
    then show ?thesis using admit_attempt_outcome [OF ok a] admit_attempt_polls [of env route_id cand_ok b ex lf w] a Inl
      by (simp add: step_outcome_def settled_def)
  next
    case (Inr y)
    obtain sel probe t remaining where y: "y = (sel, probe, t, remaining)" by (metis prod_cases4)
    obtain r2 w2 where race: "race_attempt env sel t remaining w1 = (r2, w2)" by fastforce
    obtain d where d: "raced env route_id cand_ok b ex w w2 d" "race_result (ds_race d) = r2"
      and sel: "sel = ds_selection d" "t = ds_started_at_ms d"
      using step_raced [OF ok wb a [unfolded Inr y] race] by auto
    show ?thesis
    proof (cases r2)
      case (Inl failure)
      then show ?thesis using step a Inr y race d(2)
        by (intro step_failure [OF d(1)]) (simp_all add: attempt_step_def sel)
    next
      case (Inr x)
      then show ?thesis using step a \<open>r1 = Inr y\<close> y race d(2)
        by (intro step_success [OF d(1)]) (simp_all add: attempt_step_def sel)
    qed
  qed
qed

section \<open>What the loop does\<close>

text \<open>
  The starts with the events that report them, numbered from \<open>n + 1\<close>: every start but the last ended in a
  retryable failure, and the last ends as the loop's result says.
\<close>

definition retried :: "'o driver_start \<Rightarrow> attempt_outcome \<Rightarrow> attempt_retry_decision \<Rightarrow> bool" where
  "retried d out dec \<longleftrightarrow> dec = RetryEligible \<and>
     (\<exists>f. race_result (ds_race d) = Inl f \<and> is_retryable f \<and> out = Failed (safe_error f))"

text \<open>
  How the last start is reported: as completed when the request succeeds; else as its final failure, or as a
  retryable one when the loop went on and ended before another start.
\<close>

definition ended ::
  "'o attempt_env \<Rightarrow> 'o attempt_world \<Rightarrow> gateway_error + 'o started_attempt \<Rightarrow> 'o driver_start \<Rightarrow> attempt_outcome \<Rightarrow>
     attempt_retry_decision \<Rightarrow> bool" where
  "ended env w r d out dec \<longleftrightarrow>
     (case r of
        Inr _ \<Rightarrow> out = Succeeded \<and> dec = Completed
      | Inl e \<Rightarrow> failed_finally env (ds_selection d) (race_result (ds_race d)) e w out dec \<or>
          retried d out dec \<and> last_allowed env w)"

fun trail ::
  "string option \<Rightarrow> string \<Rightarrow> ('o driver_start \<Rightarrow> attempt_outcome \<Rightarrow> attempt_retry_decision \<Rightarrow> bool) \<Rightarrow> nat \<Rightarrow>
     'o driver_start list \<Rightarrow> attempt_event list \<Rightarrow> bool" where
  "trail rid route_id fin n [] evs \<longleftrightarrow> evs = []"
| "trail rid route_id fin n (d # ds) evs \<longleftrightarrow>
     (\<exists>e es out dec. evs = e @ es \<and> reported rid route_id (ds_selection d) (n + 1) (ds_started_at_ms d) out dec e \<and>
        (if ds = [] then fin d out dec else retried d out dec) \<and> trail rid route_id fin (n + 1) ds es)"

definition loop_outcome ::
  "'o attempt_env \<Rightarrow> string option \<Rightarrow> string \<Rightarrow> (snapshot_route_candidate \<Rightarrow> bool) \<Rightarrow> retry_budget \<Rightarrow> attempt_exclusion_set \<Rightarrow>
     'o attempt_world \<Rightarrow> gateway_error + 'o started_attempt \<Rightarrow> 'o attempt_world \<Rightarrow> 'o driver_start list \<Rightarrow>
     attempt_event list \<Rightarrow> bool" where
  "loop_outcome env rid route_id cand_ok b ex w r w' starts evs \<longleftrightarrow>
     shared_ok (w_shared w') \<and> snapshot_of (w_shared w') = snapshot_of (w_shared w) \<and>
     w_starts w' = w_starts w @ starts \<and> w_events w' = w_events w @ evs \<and>
     attempts_started b + length starts \<le> max (attempts_started b) (max_attempts b) \<and>
     distinct (map binding_of starts) \<and> binding_of ` set starts \<inter> ex = {} \<and>
     (\<forall>d \<in> set starts. fresh_selection (snapshot_of (w_shared w)) route_id cand_ok {} (ds_selection d) \<and>
        start_within env b d) \<and>
     trail rid route_id (ended env w' r) (attempts_started b) starts evs \<and>
     (starts = [] \<longrightarrow> w_retry_polls w' = w_retry_polls w) \<and>
     (case r of
        Inl _ \<Rightarrow> quiet env \<longrightarrow> settled (w_shared w) (w_shared w')
      | Inr sa \<Rightarrow> starts \<noteq> [] \<and> sa_selection sa = ds_selection (last starts) \<and>
          race_result (ds_race (last starts)) = Inr (sa_output sa) \<and>
          sa_attempts_started sa = attempts_started b + length starts \<and>
          (quiet env \<longrightarrow> holding (as_lease (sa_selection sa)) (w_shared w) (w_shared w')))"

lemma fresh_selection_binding:
  "fresh_selection snap route_id cand_ok ex (ds_selection d) \<longleftrightarrow>
     fresh_selection snap route_id cand_ok {} (ds_selection d) \<and> binding_of d \<notin> ex"
  by (auto simp: fresh_selection_def binding_of_def)

lemma loop_outcome_Return:
  assumes "step_outcome env rid route_id cand_ok b ex w (Return r w')"
  shows "\<exists>starts evs. loop_outcome env rid route_id cand_ok b ex w r w' starts evs"
proof (cases "\<exists>d out dec. one_start env rid route_id cand_ok b ex w w' d out dec \<and> ended env w' r d out dec \<and>
    (quiet env \<longrightarrow> (case r of Inl _ \<Rightarrow> settled (w_shared w) (w_shared w') | Inr sa \<Rightarrow>
       holding (as_lease (sa_selection sa)) (w_shared w) (w_shared w'))) \<and>
    (case r of Inl _ \<Rightarrow> True | Inr sa \<Rightarrow> sa_selection sa = ds_selection d \<and>
       race_result (ds_race d) = Inr (sa_output sa) \<and> sa_attempts_started sa = attempts_started b + 1)")
  case True
  then obtain d out dec where d: "one_start env rid route_id cand_ok b ex w w' d out dec" "ended env w' r d out dec"
    "quiet env \<longrightarrow> (case r of Inl _ \<Rightarrow> settled (w_shared w) (w_shared w') | Inr sa \<Rightarrow>
       holding (as_lease (sa_selection sa)) (w_shared w) (w_shared w'))"
    "case r of Inl _ \<Rightarrow> True | Inr sa \<Rightarrow> sa_selection sa = ds_selection d \<and>
       race_result (ds_race d) = Inr (sa_output sa) \<and> sa_attempts_started sa = attempts_started b + 1"
    by blast
  obtain evs where evs: "w_events w' = w_events w @ evs"
    "reported rid route_id (ds_selection d) (attempts_started b + 1) (ds_started_at_ms d) out dec evs"
    using d(1) by (auto simp: one_start_def)
  have "fresh_selection (snapshot_of (w_shared w)) route_id cand_ok {} (ds_selection d)" "binding_of d \<notin> ex"
    "start_within env b d" "attempts_started b < max_attempts b"
    using d(1) fresh_selection_binding [of _ _ _ ex d] by (auto simp: one_start_def attempted_def)
  moreover have "trail rid route_id (ended env w' r) (attempts_started b) [d] evs" using evs(2) d(2) by auto
  moreover have "shared_ok (w_shared w') \<and> snapshot_of (w_shared w') = snapshot_of (w_shared w)"
    using assms by (auto simp: step_outcome_def split: sum.splits)
  ultimately have "loop_outcome env rid route_id cand_ok b ex w r w' [d] evs"
    using d evs(1) unfolding loop_outcome_def by (auto simp: one_start_def split: sum.splits)
  then show ?thesis by blast
next
  case False
  then obtain e where e: "r = Inl e" "same_log w w'" "w_retry_polls w' = w_retry_polls w" "settled (w_shared w) (w_shared w')"
    "shared_ok (w_shared w')" "snapshot_of (w_shared w') = snapshot_of (w_shared w)"
    using assms by (cases r) (auto simp: step_outcome_def ended_def)
  then have "loop_outcome env rid route_id cand_ok b ex w r w' [] []"
    by (simp add: loop_outcome_def same_log_def)
  then show ?thesis by blast
qed

lemma loop_outcome_Retry:
  assumes step: "step_outcome env rid route_id cand_ok b ex w (Retry b' ex' f w1)"
    and rest: "loop_outcome env rid route_id cand_ok b' ex' w1 r w' starts evs"
  shows "\<exists>starts' evs'. loop_outcome env rid route_id cand_ok b ex w r w' starts' evs'"
proof -
  obtain d failure where d: "one_start env rid route_id cand_ok b ex w w1 d (Failed f) RetryEligible"
    "race_result (ds_race d) = Inl failure" "is_retryable failure" "f = safe_error failure" "ex' = insert (binding_of d) ex"
    and w1: "shared_ok (w_shared w1)" "snapshot_of (w_shared w1) = snapshot_of (w_shared w)"
      "quiet env \<longrightarrow> settled (w_shared w) (w_shared w1)" "b' = record_start b" "last_allowed env w1"
    using step by (auto simp: step_outcome_def)
  obtain e where e: "w_events w1 = w_events w @ e"
    "reported rid route_id (ds_selection d) (attempts_started b + 1) (ds_started_at_ms d) (Failed f) RetryEligible e"
    using d(1) by (auto simp: one_start_def)
  have new: "fresh_selection (snapshot_of (w_shared w)) route_id cand_ok {} (ds_selection d)" "binding_of d \<notin> ex"
    "start_within env b d" "attempts_started b < max_attempts b" "w_starts w1 = w_starts w @ [d]"
    using d(1) fresh_selection_binding [of _ _ _ ex d] by (auto simp: one_start_def attempted_def)
  have b': "attempts_started b' = attempts_started b + 1" "max_attempts b' = max_attempts b"
    "start_within env b' = start_within env b"
    by (simp_all add: w1 record_start_def start_within_def fun_eq_iff)
  have retried: "retried d (Failed f) RetryEligible" using d(2-4) by (auto simp: retried_def)
  note R = rest [unfolded loop_outcome_def b' w1(2)]
  have "\<exists>out dec. reported rid route_id (ds_selection d) (attempts_started b + 1) (ds_started_at_ms d) out dec e \<and>
      (if starts = [] then ended env w' r d out dec else retried d out dec)"
  proof (cases "starts = []")
    case True
    then obtain err where "r = Inl err" using R by (cases r) auto
    moreover have "last_allowed env w'" using R True w1(5) by (simp add: last_allowed_def)
    ultimately show ?thesis using e(2) True retried by (auto simp: ended_def)
  next
    case False
    then show ?thesis using e(2) retried by auto
  qed
  moreover have "trail rid route_id (ended env w' r) (attempts_started b + 1) starts evs" using R by blast
  ultimately have tr: "trail rid route_id (ended env w' r) (attempts_started b) (d # starts) (e @ evs)"
    unfolding trail.simps by blast
  have "quiet env \<longrightarrow> settled (w_shared w) (w_shared w') \<or> (\<exists>sa. r = Inr sa)"
    "quiet env \<longrightarrow> (\<forall>sa. r = Inr sa \<longrightarrow> holding (as_lease (sa_selection sa)) (w_shared w) (w_shared w'))"
    using R w1(3) by (auto intro: settled_trans holding_trans split: sum.splits)
  then have "loop_outcome env rid route_id cand_ok b ex w r w' (d # starts) (e @ evs)"
    using R new e(1) tr d(5) unfolding loop_outcome_def by (auto split: sum.splits)
  then show ?thesis by blast
qed

lemma start_loop_outcome:
  assumes wb: "well_behaved env"
  shows "shared_ok (w_shared w) \<Longrightarrow> start_loop env rid route_id cand_ok b ex lf w = (r, w') \<Longrightarrow>
    \<exists>starts evs. loop_outcome env rid route_id cand_ok b ex w r w' starts evs"
  using wb
proof (induction env rid route_id cand_ok b ex lf w rule: start_loop.induct)
  case (1 env rid route_id cand_ok b ex lf w)
  note step = attempt_step_outcome [OF "1.prems"(1,3) refl, of rid route_id cand_ok b ex lf]
  show ?case
  proof (cases "attempt_step env rid route_id cand_ok b ex lf w")
    case (Return r0 w0)
    then have "r0 = r" "w0 = w'" using "1.prems"(2) by (simp_all add: start_loop.simps [of env])
    then show ?thesis using loop_outcome_Return step Return by metis
  next
    case (Retry b' ex' f w1)
    have "shared_ok (w_shared w1)" using step Retry by (simp add: step_outcome_def)
    moreover have "start_loop env rid route_id cand_ok b' ex' (Some f) w1 = (r, w')"
      using "1.prems"(2) Retry by (simp add: start_loop.simps [of env rid route_id cand_ok b ex lf w])
    ultimately obtain starts evs where "loop_outcome env rid route_id cand_ok b' ex' w1 r w' starts evs"
      using "1.IH" [OF Retry] "1.prems"(3) by blast
    then show ?thesis using loop_outcome_Retry step Retry by metis
  qed
qed

text \<open>Each retry follows one poll of the gate, which allowed it.\<close>

lemma attempt_step_polls:
  assumes "attempt_step env rid route_id cand_ok b ex lf w = Retry b' ex' f w'"
  shows "w_retry_polls w' = w_retry_polls w + 1"
    and "gate_allows_transparent_retry (env_gate env) (w_retry_polls w)"
proof -
  obtain r1 w1 where a: "admit_attempt env route_id cand_ok b ex lf w = (r1, w1)" by fastforce
  have w1: "w_retry_polls w1 = w_retry_polls w" using admit_attempt_polls [of env route_id cand_ok b ex lf w] a by simp
  obtain sel probe t remaining where r1: "r1 = Inr (sel, probe, t, remaining)"
    using assms a by (cases r1) (auto simp: attempt_step_def)
  obtain r2 w2 where r: "race_attempt env sel t remaining w1 = (r2, w2)" by fastforce
  have w2: "w_retry_polls w2 = w_retry_polls w" using r w1 by (auto simp: race_attempt_def Let_def split: prod.splits)
  obtain failure where c: "conclude_failure env rid route_id (record_start b) ex sel t failure w2 = Retry b' ex' f w'"
    using assms a r1 r by (cases r2) (auto simp: attempt_step_def conclude_success_def Let_def split: prod.splits if_splits)
  have rec: "w_retry_polls (snd (record_runtime_state env sel failure w2)) = w_retry_polls w2"
    by (auto simp: record_runtime_state_def read_clock_def split_beta Let_def
        split: attempt_failure.splits option.splits sum.splits)
  obtain r3 w3 where s: "record_runtime_state env sel failure w2 = (r3, w3)" by fastforce
  have w3: "w_retry_polls w3 = w_retry_polls w" using rec s w2 by simp
  then show "w_retry_polls w' = w_retry_polls w + 1" "gate_allows_transparent_retry (env_gate env) (w_retry_polls w)"
    using c s by (auto simp: conclude_failure_def Let_def poll_cancelled_def poll_retry_def
        split: sum.splits if_splits)
qed

lemma start_loop_polls:
  assumes wb: "well_behaved env"
  shows "shared_ok (w_shared w) \<Longrightarrow> start_loop env rid route_id cand_ok b ex lf w = (r, w') \<Longrightarrow>
    \<exists>starts. w_starts w' = w_starts w @ starts \<and>
      (\<forall>i. Suc i < length starts \<longrightarrow> gate_allows_transparent_retry (env_gate env) (w_retry_polls w + i))"
  using wb
proof (induction env rid route_id cand_ok b ex lf w rule: start_loop.induct)
  case (1 env rid route_id cand_ok b ex lf w)
  note step = attempt_step_outcome [OF "1.prems"(1,3) refl, of rid route_id cand_ok b ex lf]
  show ?case
  proof (cases "attempt_step env rid route_id cand_ok b ex lf w")
    case (Return r0 w0)
    then have "w0 = w'" using "1.prems"(2) by (simp add: start_loop.simps [of env])
    then have "w_starts w' = w_starts w @ [] \<or> (\<exists>d. w_starts w' = w_starts w @ [d])"
      using step Return by (auto simp: step_outcome_def one_start_def same_log_def split: sum.splits)
    then show ?thesis by auto
  next
    case (Retry b' ex' f w1)
    then obtain d where d: "w_starts w1 = w_starts w @ [d]" "shared_ok (w_shared w1)"
      using step by (auto simp: step_outcome_def one_start_def)
    have "start_loop env rid route_id cand_ok b' ex' (Some f) w1 = (r, w')"
      using "1.prems"(2) Retry by (simp add: start_loop.simps [of env rid route_id cand_ok b ex lf w])
    then obtain starts where s: "w_starts w' = w_starts w1 @ starts"
      "\<forall>i. Suc i < length starts \<longrightarrow> gate_allows_transparent_retry (env_gate env) (w_retry_polls w1 + i)"
      using "1.IH" [OF Retry d(2)] "1.prems"(3) by blast
    note polls = attempt_step_polls [OF Retry]
    have "gate_allows_transparent_retry (env_gate env) (w_retry_polls w + i)" if "Suc i < length (d # starts)" for i
      using that polls s(2) by (cases i) auto
    then show ?thesis using d(1) s(1) by (intro exI [of _ "d # starts"]) simp
  qed
qed

end
