(* ===== verification/Attempt_Properties.thy ===== *)
theory Attempt_Properties
  imports Attempt_Steps
begin

text \<open>
  The properties of one request's attempts: bounds and freshness of the driver starts, conservation of
  leases, the reported events, termination, and what a recorded failure blocks.
\<close>

section \<open>What one request does\<close>

lemma budget_from_route_within:
  assumes "budget_from_route route now = Inr b"
  shows "0 \<le> sr_max_attempts route" "int (max_attempts b) = sr_max_attempts route" "attempts_started b = 0"
    "deadline_ms b = now + sr_bootstrap_timeout_ms route"
  using assms
  by (auto simp: budget_from_route_def unsigned_of_i64_def i64_of_unsigned_def checked_add_i64_def
      split: option.splits if_splits)

text \<open>Either the request ends before its loop, or the loop runs on a budget made from the route.\<close>

lemma start_inner_cases:
  assumes "start_inner env rid route_id cand_ok w = (r, w')"
  obtains (refused) e where "r = Inl e" "same_log w w'" "w_shared w' = w_shared w"
    | (looped) route t0 b w2 where "scheduler_route (sh_scheduler (w_shared w)) route_id = Some route"
        "env_clock env (w_clock_reads w) = Some t0" "budget_from_route route t0 = Inr b"
        "start_loop env rid route_id cand_ok b {} None w2 = (r, w')" "w_shared w2 = w_shared w" "same_log w w2"
        "w_retry_polls w2 = w_retry_polls w"
proof -
  let ?w1 = "w\<lparr>w_cancel_polls := w_cancel_polls w + 1\<rparr>"
  let ?w2 = "?w1\<lparr>w_clock_reads := w_clock_reads w + 1\<rparr>"
  have eq: "start_inner env rid route_id cand_ok w =
     (if gate_cancelled (env_gate env) (w_cancel_polls w) then (Err request_cancelled_error, ?w1)
      else (case scheduler_route (sh_scheduler (w_shared w)) route_id of
        None \<Rightarrow> (Err credential_unavailable_error, ?w1)
      | Some route \<Rightarrow>
     (case env_clock env (w_clock_reads w) of
        None \<Rightarrow> (Err internal_error, ?w2)
      | Some now \<Rightarrow>
     (case budget_from_route route now of
        Inl err \<Rightarrow> (Err err, ?w2)
      | Inr b \<Rightarrow> start_loop env rid route_id cand_ok b {} None ?w2))))"
    by (auto simp: start_inner_def poll_cancelled_def read_clock_def split: option.splits sum.splits)
  show thesis
  proof (cases "\<exists>route t0 b. \<not> gate_cancelled (env_gate env) (w_cancel_polls w) \<and>
      scheduler_route (sh_scheduler (w_shared w)) route_id = Some route \<and>
      env_clock env (w_clock_reads w) = Some t0 \<and> budget_from_route route t0 = Inr b")
    case True
    then obtain route t0 b where b: "\<not> gate_cancelled (env_gate env) (w_cancel_polls w)"
      "scheduler_route (sh_scheduler (w_shared w)) route_id = Some route"
      "env_clock env (w_clock_reads w) = Some t0" "budget_from_route route t0 = Inr b" by blast
    show thesis by (rule looped [OF b(2-4), of ?w2]) (use assms eq b in \<open>simp_all add: same_log_def\<close>)
  next
    case False
    then have "\<exists>e. r = Inl e \<and> same_log w w' \<and> w_shared w' = w_shared w"
      using assms eq by (auto simp: same_log_def split: if_splits option.splits sum.splits)
    then show thesis using refused by blast
  qed
qed

text \<open>The loop's outcome in terms of the request.\<close>

lemma start_inner_outcome:
  assumes ok: "shared_ok (w_shared w)" and wb: "well_behaved env"
    and run: "start_inner env rid route_id cand_ok w = (r, w')"
  shows "(\<exists>e. r = Inl e) \<and> same_log w w' \<and> w_shared w' = w_shared w \<or>
    (\<exists>route t0 b w2 starts evs. scheduler_route (sh_scheduler (w_shared w)) route_id = Some route \<and>
       env_clock env (w_clock_reads w) = Some t0 \<and> budget_from_route route t0 = Inr b \<and>
       w_shared w2 = w_shared w \<and> same_log w w2 \<and>
       loop_outcome env rid route_id cand_ok b {} w2 r w' starts evs \<and>
       (\<forall>i. Suc i < length starts \<longrightarrow> gate_allows_transparent_retry (env_gate env) (w_retry_polls w + i)))"
  using run
proof (cases rule: start_inner_cases)
  case (refused e)
  then show ?thesis by blast
next
  case (looped route t0 b w2)
  have ok2: "shared_ok (w_shared w2)" using ok looped by simp
  obtain starts evs where l: "loop_outcome env rid route_id cand_ok b {} w2 r w' starts evs"
    using start_loop_outcome [OF wb ok2 looped(4)] by blast
  obtain starts' where s: "w_starts w' = w_starts w2 @ starts'"
    "\<forall>i. Suc i < length starts' \<longrightarrow> gate_allows_transparent_retry (env_gate env) (w_retry_polls w2 + i)"
    using start_loop_polls [OF wb ok2 looped(4)] by blast
  have "starts' = starts" using l s(1) by (simp add: loop_outcome_def)
  then have "\<forall>i. Suc i < length starts \<longrightarrow> gate_allows_transparent_retry (env_gate env) (w_retry_polls w + i)"
    using s(2) looped(7) by simp
  then show ?thesis using looped l by blast
qed

lemma trail_retries:
  "trail rid route_id fin n starts evs \<Longrightarrow> Suc i < length starts \<Longrightarrow>
     \<exists>f. race_result (ds_race (starts ! i)) = Inl f \<and> is_retryable f"
proof (induction starts arbitrary: n evs i)
  case (Cons d ds)
  then show ?case by (cases i) (auto simp: retried_def split: if_splits)
qed simp




section \<open>Properties of the orchestrator\<close>

text \<open>
  C1: Whatever the driver, the clocks, the gate and well-behaved concurrent requests do, one request starts
  its driver at most as often as the route allows and never twice with the same candidate and
  credential; each start is for a candidate of the route that the caller admits, before the deadline
  that the first clock reading and the route's bootstrap timeout fix, with exactly the time left until
  it; every start but the last ended in a retryable failure, after which the gate allowed a transparent
  retry; and a success is that of the last start, with their number.
\<close>

theorem attempts_bounded_and_fresh:
  assumes "shared_ok (w_shared w)" "well_behaved env" "start_inner env rid route_id cand_ok w = (r, w')"
  shows "\<exists>starts. w_starts w' = w_starts w @ starts \<and> distinct (map binding_of starts) \<and>
    (\<forall>d \<in> set starts. \<exists>route t0. scheduler_route (sh_scheduler (w_shared w)) route_id = Some route \<and>
       env_clock env (w_clock_reads w) = Some t0 \<and> int (length starts) \<le> sr_max_attempts route \<and>
       as_candidate (ds_selection d) \<in> set (sr_candidates route) \<and> cand_ok (as_candidate (ds_selection d)) \<and>
       ds_started_at_ms d < t0 + sr_bootstrap_timeout_ms route \<and>
       ds_remaining_bootstrap d = from_millis (nat (t0 + sr_bootstrap_timeout_ms route - ds_started_at_ms d))) \<and>
    (\<forall>i. Suc i < length starts \<longrightarrow>
       (\<exists>f. race_result (ds_race (starts ! i)) = Inl f \<and> is_retryable f) \<and>
       gate_allows_transparent_retry (env_gate env) (w_retry_polls w + i)) \<and>
    (\<forall>sa. r = Inr sa \<longrightarrow> starts \<noteq> [] \<and> sa_selection sa = ds_selection (last starts) \<and>
       race_result (ds_race (last starts)) = Inr (sa_output sa) \<and> sa_attempts_started sa = length starts)"
  using start_inner_outcome [OF assms]
proof (elim disjE exE conjE)
  fix e assume "r = Inl e" "same_log w w'"
  then show ?thesis by (intro exI [of _ "[]"]) (simp add: same_log_def)
next
  fix route t0 b w2 starts evs
  assume c: "scheduler_route (sh_scheduler (w_shared w)) route_id = Some route" "env_clock env (w_clock_reads w) = Some t0"
    and b: "budget_from_route route t0 = Inr b" and w2: "w_shared w2 = w_shared w" "same_log w w2"
    and l: "loop_outcome env rid route_id cand_ok b {} w2 r w' starts evs"
    and gate: "\<forall>i. Suc i < length starts \<longrightarrow> gate_allows_transparent_retry (env_gate env) (w_retry_polls w + i)"
  note bd = budget_from_route_within [OF b]
  have tr: "trail rid route_id (ended env w' r) (attempts_started b) starts evs" using l by (simp add: loop_outcome_def)
  have "as_candidate (ds_selection d) \<in> set (sr_candidates route)" if "d \<in> set starts" for d
    using l that c(1) w2(1) by (auto simp: loop_outcome_def fresh_selection_def scheduler_route_def)
  moreover have "int (length starts) \<le> sr_max_attempts route"
    using l bd(1-3) by (simp add: loop_outcome_def)
  ultimately show ?thesis using l c gate w2 bd trail_retries [OF tr]
    by (intro exI [of _ starts]) (auto simp: loop_outcome_def same_log_def start_within_def fresh_selection_def)
qed

text \<open>
  C2: Leases are conserved: when the concurrent requests have given back what they leased, a failed request
  leaves every credential slot as it found it, on every path, and a successful one holds exactly the
  lease of its selection.
\<close>

theorem attempt_leases_conserved:
  assumes "shared_ok (w_shared w)" "well_behaved env" "quiet env"
    "start_inner env rid route_id cand_ok w = (r, w')"
  shows "shared_ok (w_shared w') \<and> (case r of
      Inl _ \<Rightarrow> same_slots (pools_of (w_shared w)) (pools_of (w_shared w'))
    | Inr sa \<Rightarrow> leased (as_lease (sa_selection sa)) (pools_of (w_shared w)) (pools_of (w_shared w')) \<and>
        same_slots (pools_of (w_shared w)) (pools_release (as_lease (sa_selection sa)) (pools_of (w_shared w'))))"
  using start_inner_outcome [OF assms(1,2,4)]
proof (elim disjE exE conjE)
  fix e assume "r = Inl e" "w_shared w' = w_shared w"
  then show ?thesis using assms(1) by simp
next
  fix route t0 b w2 starts evs
  assume "w_shared w2 = w_shared w" "loop_outcome env rid route_id cand_ok b {} w2 r w' starts evs"
  then show ?thesis using assms(3) leased_release
    by (auto simp: loop_outcome_def settled_def holding_def split: sum.splits)
qed


text \<open>One retry: the loop's variables before and after.\<close>

definition retry_rel ::
  "'o attempt_env \<Rightarrow> string option \<Rightarrow> string \<Rightarrow> (snapshot_route_candidate \<Rightarrow> bool) \<Rightarrow>
     ((retry_budget \<times> attempt_exclusion_set \<times> gateway_error option \<times> 'o attempt_world) \<times>
      (retry_budget \<times> attempt_exclusion_set \<times> gateway_error option \<times> 'o attempt_world)) set" where
  "retry_rel env rid route_id cand_ok =
     {((b, ex, lf, w), (b', ex', lf', w')). \<exists>f. lf' = Some f \<and>
        attempt_step env rid route_id cand_ok b ex lf w = Retry b' ex' f w'}"

definition attempts_left :: "retry_budget \<times> 'a \<Rightarrow> nat" where
  "attempts_left v = max_attempts (fst v) - attempts_started (fst v)"

lemma retry_rel_decreases: "(v, v') \<in> retry_rel env rid route_id cand_ok \<Longrightarrow> attempts_left v' < attempts_left v"
  by (auto simp: retry_rel_def attempts_left_def dest: attempt_step_decreases)

text \<open>
  C6: The retry loop terminates whatever its environment does: there is no infinite sequence of retries, and
  from any state of its variables at most as many retries follow one another as the budget has attempts
  left.
\<close>

theorem retry_loop_terminates:
  "wf ((retry_rel env rid route_id cand_ok)\<inverse>) \<and>
   {n. \<exists>v'. (v, v') \<in> retry_rel env rid route_id cand_ok ^^ n} \<subseteq> {..attempts_left v}"
proof
  let ?R = "retry_rel env rid route_id cand_ok"
  have "?R\<inverse> \<subseteq> measure attempts_left"
  proof (rule subrelI)
    fix u v assume "(u, v) \<in> ?R\<inverse>"
    then show "(u, v) \<in> measure attempts_left" using retry_rel_decreases [of v u] by simp
  qed
  then show "wf (?R\<inverse>)" by (rule wf_subset [OF wf_measure])
  have count: "(v, v') \<in> ?R ^^ n \<Longrightarrow> n + attempts_left v' \<le> attempts_left v" for n v'
  proof (induction n arbitrary: v')
    case (Suc n)
    obtain u where u: "(v, u) \<in> ?R ^^ n" "(u, v') \<in> ?R" using relpow_Suc_E [OF Suc.prems] by blast
    then show ?case using Suc.IH [OF u(1)] retry_rel_decreases [OF u(2)] by linarith
  qed simp
  show "{n. \<exists>v'. (v, v') \<in> ?R ^^ n} \<subseteq> {..attempts_left v}"
  proof
    fix n assume "n \<in> {n. \<exists>v'. (v, v') \<in> ?R ^^ n}"
    then obtain v' where "(v, v') \<in> ?R ^^ n" by blast
    from count [OF this] show "n \<in> {..attempts_left v}" by simp
  qed
qed

section \<open>What a recorded failure blocks\<close>

lemma map_err_Inr [simp]: "map_err f r = Inr x \<longleftrightarrow> r = Inr x"
  by (cases r) (simp_all add: map_err_def)

text \<open>
  What recording a failure may change: the entry of one key of one registry, and the number of clock
  readings. The availability of every other key stays what it is from the registry's reading on.
\<close>

definition only_health_key :: "'o attempt_env \<Rightarrow> runtime_health_key \<Rightarrow> 'o attempt_world \<Rightarrow> 'o attempt_world \<Rightarrow> bool" where
  "only_health_key env k w w' \<longleftrightarrow>
     w' = w\<lparr>w_shared := (w_shared w)\<lparr>sh_health := sh_health (w_shared w')\<rparr>, w_clock_reads := w_clock_reads w', w_reads := w_reads w'\<rparr> \<and>
     (\<exists>now. env_health_clock env (cr_health (w_reads w)) = Some now \<and>
        (\<forall>j t. j \<noteq> k \<and> now \<le> t \<longrightarrow>
           health_availability_at (env_health_hash env) (sh_health (w_shared w')) j t =
           health_availability_at (env_health_hash env) (sh_health (w_shared w)) j t))"

definition only_quota_target :: "'o attempt_env \<Rightarrow> runtime_quota_target \<Rightarrow> 'o attempt_world \<Rightarrow> 'o attempt_world \<Rightarrow> bool" where
  "only_quota_target env k w w' \<longleftrightarrow>
     w' = w\<lparr>w_shared := (w_shared w)\<lparr>sh_quota := sh_quota (w_shared w')\<rparr>, w_clock_reads := w_clock_reads w', w_reads := w_reads w'\<rparr> \<and>
     (\<forall>j t. j \<noteq> k \<longrightarrow>
        quota_availability_at (env_quota_hash env) (sh_quota (w_shared w')) j t =
        quota_availability_at (env_quota_hash env) (sh_quota (w_shared w)) j t)"

lemma health_call_confined:
  assumes ok: "health_ok (env_health_hash env) (sh_health (w_shared w))"
    and run: "health_call env f (w\<lparr>w_clock_reads := n\<rparr>) = (Inr x, w')"
    and f: "f (env_health_hash env) (env_health_clock env (cr_health (w_reads w))) (sh_health (w_shared w)) = (Inr x, reg') \<Longrightarrow>
      env_health_clock env (cr_health (w_reads w)) \<noteq> None \<and>
      reg' = health_exec (env_health_hash env) (env_health_clock env (cr_health (w_reads w)), op) (sh_health (w_shared w))"
    and reg': "reg' = sh_health (w_shared w')"
  shows "f (env_health_hash env) (env_health_clock env (cr_health (w_reads w))) (sh_health (w_shared w)) = (Inr x, reg')"
    and "only_health_key env (health_op_key op) w w'"
proof -
  show call: "f (env_health_hash env) (env_health_clock env (cr_health (w_reads w))) (sh_health (w_shared w)) = (Inr x, reg')"
    using run reg' by (auto simp: health_call_def split: prod.splits)
  obtain now where now: "env_health_clock env (cr_health (w_reads w)) = Some now" using f [OF call] by blast
  have "health_availability_at (env_health_hash env) reg' j t = health_availability_at (env_health_hash env) (sh_health (w_shared w)) j t"
    if "j \<noteq> health_op_key op" "now \<le> t" for j t
    using health_operation_isolated [OF ok that] f [OF call] by (simp add: now)
  then show "only_health_key env (health_op_key op) w w'"
    using run now reg' by (auto simp: only_health_key_def health_call_def split: prod.splits)
qed

lemma marked_account_unavailable:
  assumes ok: "health_ok (env_health_hash env) (sh_health (w_shared w))" and st: "is_account_state st"
    and run: "health_call env (\<lambda>hash clock. mark_account st hash clock e c) w = (Inr (), w')"
    and op: "\<And>hash clock reg. snd (mark_account st hash clock e c reg) = health_exec hash (clock, op) reg"
      "health_op_key op = EndpointCredentialKey e c"
  shows "only_health_key env (EndpointCredentialKey e c) w w'"
    and "health_get (env_health_hash env) (sh_health (w_shared w')) (EndpointCredentialKey e c) = Some st"
    and "\<not> endpoint_credential_is_available (env_health_hash env) (sh_health (w_shared w')) e c now"
proof -
  have f: "env_health_clock env (cr_health (w_reads w)) \<noteq> None \<and> reg' =
      health_exec (env_health_hash env) (env_health_clock env (cr_health (w_reads w)), op) (sh_health (w_shared w))"
    if "mark_account st (env_health_hash env) (env_health_clock env (cr_health (w_reads w))) e c (sh_health (w_shared w)) = (Inr (), reg')" for reg'
    using mark_account_blocks(3) [OF ok st that] op(1) that by (metis snd_conv)
  have run': "health_call env (\<lambda>hash clock. mark_account st hash clock e c) (w\<lparr>w_clock_reads := w_clock_reads w\<rparr>) = (Inr (), w')"
    using run by simp
  note h = health_call_confined [OF ok run' f refl]
  show "only_health_key env (EndpointCredentialKey e c) w w'" using h(2) op(2) by simp
  note b = mark_account_blocks [OF ok st h(1)]
  show "health_get (env_health_hash env) (sh_health (w_shared w')) (EndpointCredentialKey e c) = Some st" by (rule b(2))
  show "\<not> endpoint_credential_is_available (env_health_hash env) (sh_health (w_shared w')) e c now"
    unfolding endpoint_credential_is_available_def by (intro blocked_unavailable account_blocked_circuit b(1))
qed

text \<open>The delay of a 429: a positive retry-after, else the fallback.\<close>

definition rate_limit_delay :: "duration option \<Rightarrow> duration \<Rightarrow> duration" where
  "rate_limit_delay retry_after fallback = (case retry_after of Some d \<Rightarrow> if 0 < d then d else fallback | None \<Rightarrow> fallback)"

lemma rate_limited_stored:
  assumes ok: "quota_ok hash reg" and run: "record_rate_limited hash clock t observed ra fb reg = (Inr x, reg')"
  shows "\<exists>s. quota_get hash reg' t = Some \<lparr>qe_snapshot = s, qe_recovery_probe = None\<rparr> \<and>
    blocking_reset_at_ms s = Some (observed + int (as_millis (rate_limit_delay ra fb)))"
    and "\<not> quota_available hash reg' t now"
proof -
  obtain d source confidence where ev: "rate_limit_evidence ra fb = (d, source, confidence)" by (metis prod_cases3)
  let ?s = "the (quota_installs (QRateLimited t observed ra fb))"
  have rec: "record_snapshot hash clock ?s reg = (Inr x, reg')"
    using run unfolding record_rate_limited_records [OF ev] by (auto split: if_splits)
  have d: "d = rate_limit_delay ra fb"
    using ev by (auto simp: rate_limit_evidence_def rate_limit_delay_def split: option.splits if_splits)
  have s: "qs_target ?s = t" "blocking_reset_at_ms ?s = Some (observed + int (as_millis d))"
    using ev by (simp_all add: blocking_reset_at_ms_def window_is_exhausted_def List.map_filter_def)
  note stored = record_snapshot_stored(1) [OF ok rec, unfolded s(1)]
  show "\<exists>s. quota_get hash reg' t = Some \<lparr>qe_snapshot = s, qe_recovery_probe = None\<rparr> \<and>
    blocking_reset_at_ms s = Some (observed + int (as_millis (rate_limit_delay ra fb)))"
    using stored s(2) d by blast
  have "quota_blocked hash t reg'" using stored s(2) by (simp add: quota_blocked_def unblocking_def)
  then show "\<not> quota_available hash reg' t now" by (rule quota_blocked_unavailable)
qed

lemma rate_limited_blocks:
  assumes ok: "quota_ok (env_quota_hash env) (sh_quota (w_shared w))"
    and run: "record_runtime_state env sel (RateLimitedFailure ra) w = (Inr (), w')"
    and t: "t = EndpointCredentialTarget (rc_endpoint_id (as_candidate sel)) (as_credential_id sel)"
  shows "only_quota_target env t w w'"
    and "\<exists>now s. env_clock env (w_clock_reads w) = Some now \<and>
      quota_get (env_quota_hash env) (sh_quota (w_shared w')) t = Some \<lparr>qe_snapshot = s, qe_recovery_probe = None\<rparr> \<and>
      blocking_reset_at_ms s = Some (now + int (as_millis (rate_limit_delay ra (rate_limit_fallback_cooldown (env_config env)))))"
    and "\<not> quota_available (env_quota_hash env) (sh_quota (w_shared w')) t clock"
proof -
  let ?fb = "rate_limit_fallback_cooldown (env_config env)" and ?c = "env_quota_clock env (cr_quota (w_reads w))"
  obtain now x where now: "env_clock env (w_clock_reads w) = Some now"
    and w': "w' = w\<lparr>w_shared := (w_shared w)\<lparr>sh_quota := sh_quota (w_shared w')\<rparr>, w_clock_reads := w_clock_reads w', w_reads := w_reads w'\<rparr>"
    and r: "record_rate_limited (env_quota_hash env) ?c t now ra ?fb (sh_quota (w_shared w)) = (Inr x, sh_quota (w_shared w'))"
    using run t by (auto simp: record_runtime_state_def read_clock_def quota_call_def map_sum_def Let_def
        split: prod.splits option.splits sum.splits)
  have "sh_quota (w_shared w') = quota_exec (env_quota_hash env) (?c, QRateLimited t now ra ?fb) (sh_quota (w_shared w))"
    using r by simp
  then have "quota_availability_at (env_quota_hash env) (sh_quota (w_shared w')) j u =
      quota_availability_at (env_quota_hash env) (sh_quota (w_shared w)) j u" if "j \<noteq> t" for j u
    using quota_operation_isolated [OF ok, of j "QRateLimited t now ra ?fb" ?c u] that by simp
  then show "only_quota_target env t w w'" unfolding only_quota_target_def using w' by blast
  show "\<exists>now s. env_clock env (w_clock_reads w) = Some now \<and>
      quota_get (env_quota_hash env) (sh_quota (w_shared w')) t = Some \<lparr>qe_snapshot = s, qe_recovery_probe = None\<rparr> \<and>
      blocking_reset_at_ms s = Some (now + int (as_millis (rate_limit_delay ra ?fb)))"
    using now rate_limited_stored(1) [OF ok r] by blast
  show "\<not> quota_available (env_quota_hash env) (sh_quota (w_shared w')) t clock" by (rule rate_limited_stored(2) [OF ok r])
qed

lemma cooled_down_unavailable:
  assumes ok: "health_ok hash reg" and run: "cool_down_until hash clock k u reg = (Inr (), reg')" and t: "t < u"
  shows "\<not> health_available hash reg' k (Some t)"
proof -
  obtain st where st: "health_get hash reg' k = Some st" "\<forall>v. st = CoolingDown v \<longrightarrow> u \<le> v"
    using cool_down_exact [OF ok run] by (auto split: option.splits runtime_health_state.splits)
  have "health_state_availability_at st t \<noteq> HealthAvailable" using st(2) t by (cases st) auto
  then show ?thesis using st(1)
    by (auto simp: health_available_def health_availability_def health_availability_at_def health_is_available_def
        lock_health_get split: option.splits)
qed

lemma transient_blocks:
  assumes ok: "health_ok (env_health_hash env) (sh_health (w_shared w))"
    and run: "record_runtime_state env sel failure w = (Inr (), w')" and e: "e = rc_endpoint_id (as_candidate sel)"
    and f: "failure \<in> {ConnectionFailure, ServerErrorFailure, BootstrapTruncated}"
  shows "only_health_key env (EndpointKey e) w w'"
    and "\<exists>now until_ms. env_clock env (w_clock_reads w) = Some now \<and>
      until_ms = now + int (as_millis (transient_cooldown (env_config env))) \<and>
      health_get (env_health_hash env) (sh_health (w_shared w')) (EndpointKey e) =
        Some (case health_get (env_health_hash env) (sh_health (w_shared w)) (EndpointKey e) of
           None \<Rightarrow> CoolingDown until_ms | Some (CoolingDown v) \<Rightarrow> CoolingDown (max v until_ms) | Some st \<Rightarrow> st) \<and>
      (\<forall>t < until_ms. \<not> endpoint_is_available (env_health_hash env) (sh_health (w_shared w')) e (Some t))"
proof -
  let ?d = "transient_cooldown (env_config env)" and ?w1 = "w\<lparr>w_clock_reads := w_clock_reads w + 1\<rparr>"
  obtain now u where now: "env_clock env (w_clock_reads w) = Some now" "orchestrator_add_duration now ?d = Inr u"
    and c: "health_call env (\<lambda>hash clock. cool_down_until hash clock (EndpointKey e) u) ?w1 = (Inr (), w')"
    using run f e by (auto simp: record_runtime_state_def read_clock_def Let_def split: prod.splits option.splits sum.splits)
  have u: "u = now + int (as_millis ?d)"
    using now(2) by (auto simp: orchestrator_add_duration_def i64_of_unsigned_def checked_add_i64_def ok_or_def
        split: option.splits if_splits)
  have f: "env_health_clock env (cr_health (w_reads w)) \<noteq> None \<and> reg' = health_exec (env_health_hash env)
      (env_health_clock env (cr_health (w_reads w)), OpCoolDown (EndpointKey e) u) (sh_health (w_shared w))"
    if "cool_down_until (env_health_hash env) (env_health_clock env (cr_health (w_reads w))) (EndpointKey e) u (sh_health (w_shared w))
      = (Inr (), reg')" for reg'
    using cool_down_exact [OF ok that] that by auto
  note h = health_call_confined [OF ok c f refl]
  show "only_health_key env (EndpointKey e) w w'" using h(2) by simp
  have "\<not> endpoint_is_available (env_health_hash env) (sh_health (w_shared w')) e (Some t)" if "t < u" for t
    unfolding endpoint_is_available_def by (rule cooled_down_unavailable [OF ok h(1) that])
  moreover have "health_get (env_health_hash env) (sh_health (w_shared w')) (EndpointKey e) =
      Some (case health_get (env_health_hash env) (sh_health (w_shared w)) (EndpointKey e) of
         None \<Rightarrow> CoolingDown u | Some (CoolingDown v) \<Rightarrow> CoolingDown (max v u) | Some st \<Rightarrow> st)"
    using cool_down_exact [OF ok h(1)] by (auto split: option.splits runtime_health_state.splits)
  ultimately show "\<exists>now until_ms. env_clock env (w_clock_reads w) = Some now \<and>
      until_ms = now + int (as_millis ?d) \<and>
      health_get (env_health_hash env) (sh_health (w_shared w')) (EndpointKey e) =
        Some (case health_get (env_health_hash env) (sh_health (w_shared w)) (EndpointKey e) of
           None \<Rightarrow> CoolingDown until_ms | Some (CoolingDown v) \<Rightarrow> CoolingDown (max v until_ms) | Some st \<Rightarrow> st) \<and>
      (\<forall>t < until_ms. \<not> endpoint_is_available (env_health_hash env) (sh_health (w_shared w')) e (Some t))"
    using now(1) u by blast
qed

text \<open>
  C7: A failure that has been recorded blocks exactly its scope. A 401 or 403 puts the binding into the
  unauthorized or forbidden state, unavailable at every reading of the health clock. A 429 replaces the
  binding's quota entry by one that resets after the retry-after or fallback delay, unavailable at every
  reading of the quota clock. A connection, server or truncation failure cools the endpoint down until
  the transient cooldown has passed, or later if it was cooling longer, and leaves a circuit or account
  block in place. In each case the availability of every other key of that registry stays what it is
  from the registry's clock reading on, and the other registry, the scheduler with its leases, the logs
  and the gate's polls are untouched. Cancellation and any other non-retryable failure change nothing.
\<close>

theorem failure_blocks_its_scope:
  assumes "health_ok (env_health_hash env) (sh_health (w_shared w))" "quota_ok (env_quota_hash env) (sh_quota (w_shared w))"
    "record_runtime_state env sel failure w = (Inr (), w')"
    "e = rc_endpoint_id (as_candidate sel)" "cid = as_credential_id sel"
  shows "case failure of
      NonRetryableFailure err \<Rightarrow>
        if ge_code err \<in> {CredentialUnauthorizedCode, CredentialForbidden}
        then only_health_key env (EndpointCredentialKey e cid) w w' \<and>
          health_get (env_health_hash env) (sh_health (w_shared w')) (EndpointCredentialKey e cid) =
            Some (if ge_code err = CredentialForbidden then AccountForbidden else CredentialUnauthorized) \<and>
          (\<forall>clock. \<not> endpoint_credential_is_available (env_health_hash env) (sh_health (w_shared w')) e cid clock)
        else w' = w
    | CancelledFailure \<Rightarrow> w' = w
    | RateLimitedFailure retry_after \<Rightarrow>
        only_quota_target env (EndpointCredentialTarget e cid) w w' \<and>
        (\<exists>now s. env_clock env (w_clock_reads w) = Some now \<and>
           quota_get (env_quota_hash env) (sh_quota (w_shared w')) (EndpointCredentialTarget e cid) =
             Some \<lparr>qe_snapshot = s, qe_recovery_probe = None\<rparr> \<and>
           blocking_reset_at_ms s =
             Some (now + int (as_millis (rate_limit_delay retry_after (rate_limit_fallback_cooldown (env_config env)))))) \<and>
        (\<forall>clock. \<not> quota_endpoint_credential_is_available (env_quota_hash env) (sh_quota (w_shared w')) e cid clock)
    | _ \<Rightarrow>
        only_health_key env (EndpointKey e) w w' \<and>
        (\<exists>now until_ms. env_clock env (w_clock_reads w) = Some now \<and>
           until_ms = now + int (as_millis (transient_cooldown (env_config env))) \<and>
           health_get (env_health_hash env) (sh_health (w_shared w')) (EndpointKey e) =
             Some (case health_get (env_health_hash env) (sh_health (w_shared w)) (EndpointKey e) of
                None \<Rightarrow> CoolingDown until_ms | Some (CoolingDown v) \<Rightarrow> CoolingDown (max v until_ms) | Some st \<Rightarrow> st) \<and>
           (\<forall>t < until_ms. \<not> endpoint_is_available (env_health_hash env) (sh_health (w_shared w')) e (Some t)))"
proof (cases failure)
  case (NonRetryableFailure err)
  consider "ge_code err = CredentialUnauthorizedCode" | "ge_code err = CredentialForbidden"
    | "ge_code err \<notin> {CredentialUnauthorizedCode, CredentialForbidden}" by blast
  then show ?thesis
  proof cases
    case 1
    then have "health_call env (\<lambda>hash clock. mark_account CredentialUnauthorized hash clock e cid) w = (Inr (), w')"
      using assms(3-5) NonRetryableFailure
      by (auto simp: record_runtime_state_def mark_credential_unauthorized_def Let_def split: prod.splits)
    from marked_account_unavailable [OF assms(1) _ this, of "OpUnauthorized e cid"] show ?thesis
      using 1 NonRetryableFailure by (simp add: mark_credential_unauthorized_def)
  next
    case 2
    then have "health_call env (\<lambda>hash clock. mark_account AccountForbidden hash clock e cid) w = (Inr (), w')"
      using assms(3-5) NonRetryableFailure
      by (auto simp: record_runtime_state_def mark_credential_forbidden_def Let_def split: prod.splits)
    from marked_account_unavailable [OF assms(1) _ this, of "OpForbidden e cid"] show ?thesis
      using 2 NonRetryableFailure by (simp add: mark_credential_forbidden_def)
  next
    case 3
    then show ?thesis using assms(3) NonRetryableFailure by (auto simp: record_runtime_state_def)
  qed
next
  case (RateLimitedFailure ra)
  from rate_limited_blocks [OF assms(2) assms(3) [unfolded RateLimitedFailure] refl] show ?thesis
    using RateLimitedFailure assms(4,5) by (simp add: quota_endpoint_credential_is_available_def)
next
  case CancelledFailure
  then show ?thesis using assms(3) by (auto simp: record_runtime_state_def)
qed (use transient_blocks [OF assms(1,3,4)] in simp_all)

section \<open>A sample request\<close>

text \<open>The first credential is rate limited, the second answers.\<close>

definition sample_race ::
  "nat \<Rightarrow> attempt_selection \<Rightarrow> duration \<Rightarrow> duration \<Rightarrow> shared_state \<Rightarrow> string attempt_race \<times> shared_state" where
  "sample_race n sel t d s =
     (RaceFinished (if n = 0 then Inl (RateLimitedFailure (Some (from_secs 1))) else Inr ''answer''), s)"

definition sample_attempt_env :: "string attempt_env" where
  "sample_attempt_env =
     \<lparr>env_config = orchestrator_config_default, env_health_hash = sample_hash, env_quota_hash = sample_quota_hash,
      env_clock = \<lambda>_. Some 10, env_health_clock = \<lambda>_. Some 10, env_quota_clock = \<lambda>_. Some 10,
      env_gate = \<lparr>gate_cancelled = \<lambda>_. False, gate_allows_transparent_retry = \<lambda>_. True\<rparr>,
      env_start_timeout = \<lambda>d. d, env_race = sample_race\<rparr>"

definition sample_world :: "string attempt_world" where
  "sample_world =
     \<lparr>w_shared = \<lparr>sh_scheduler = sample_scheduler, sh_health = sample_health [] 1 1, sh_quota = sample_quota\<rparr>,
      w_clock_reads = 0, w_reads = no_reads, w_cancel_polls = 0, w_retry_polls = 0, w_starts = [], w_events = []\<rparr>"

definition sample_start :: "(gateway_error + string started_attempt) \<times> string attempt_world" where
  "sample_start = start_inner sample_attempt_env (Some ''q'') ''r'' (\<lambda>_. True) sample_world"

lemma sample_start_result:
  "map (as_credential_id \<circ> ds_selection) (w_starts (snd sample_start)) = [''a'', ''b'']"
  "map ae_retry_decision (w_events (snd sample_start)) = [RetryEligible, Completed]"
  "(case fst sample_start of Inr sa \<Rightarrow> sa_output sa = ''answer'' \<and> lease_index (as_lease (sa_selection sa)) = 1 | Inl _ \<Rightarrow> False)"
  by code_simp+

lemma sample_shared_ok: "shared_ok (w_shared sample_world)"
  using sample_scheduler_ok by (simp add: shared_ok_def sample_world_def)

lemma sample_well_behaved: "well_behaved sample_attempt_env" and sample_quiet: "quiet sample_attempt_env"
  by (auto simp: well_behaved_def quiet_def sample_attempt_env_def sample_race_def)

lemma sample_run: "start_inner sample_attempt_env (Some ''q'') ''r'' (\<lambda>_. True) sample_world = (fst sample_start, snd sample_start)"
  by (simp add: sample_start_def)

theorem attempts_bounded_and_fresh_witness:
  "length (w_starts (snd sample_start)) = 2 \<and> distinct (map binding_of (w_starts (snd sample_start)))"
proof -
  have "length (w_starts (snd sample_start)) = 2" using arg_cong [OF sample_start_result(1), of length] by simp
  then show ?thesis
    using attempts_bounded_and_fresh [OF sample_shared_ok sample_well_behaved sample_run]
    by (auto simp: sample_world_def)
qed

theorem attempt_leases_conserved_witness:
  "case fst sample_start of
     Inl _ \<Rightarrow> False
   | Inr sa \<Rightarrow> leased (as_lease (sa_selection sa)) (pools_of (w_shared sample_world)) (pools_of (w_shared (snd sample_start)))"
  using attempt_leases_conserved [OF sample_shared_ok sample_well_behaved sample_quiet sample_run] sample_start_result(3)
  by (auto split: sum.splits)


theorem failure_blocks_its_scope_witness:
  "\<not> quota_endpoint_credential_is_available sample_quota_hash
     (sh_quota (w_shared (snd (record_runtime_state sample_attempt_env
        \<lparr>as_candidate = sample_candidate ''a'' 0 2, as_lease = \<lparr>lease_endpoint = ''ep'', lease_index = 0\<rparr>, as_credential_id = ''a''\<rparr>
        (RateLimitedFailure (Some (from_secs 1))) sample_world)))) ''ep'' ''a'' (Some 5000)"
proof -
  let ?sel = "\<lparr>as_candidate = sample_candidate ''a'' 0 2, as_lease = \<lparr>lease_endpoint = ''ep'', lease_index = 0\<rparr>, as_credential_id = ''a''\<rparr>"
  let ?run = "record_runtime_state sample_attempt_env ?sel (RateLimitedFailure (Some (from_secs 1))) sample_world"
  have "fst ?run = Inr ()" by code_simp
  then have run: "?run = (Inr (), snd ?run)" by (metis prod.collapse)
  have ok: "health_ok (env_health_hash sample_attempt_env) (sh_health (w_shared sample_world))"
    "quota_ok (env_quota_hash sample_attempt_env) (sh_quota (w_shared sample_world))"
    using sample_health_ok sample_quota_ok by (simp_all add: sample_attempt_env_def sample_world_def)
  from failure_blocks_its_scope [OF ok run refl refl] show ?thesis
    by (simp add: sample_attempt_env_def sample_candidate_def)
qed

end
