(* ===== verification/Canonical_Stream.thy ===== *)
theory Canonical_Stream
  imports Canonical_Events
begin

text \<open>
  The bounded stream of canonical events of \<open>src/crates/gateway-stream/src/lib.rs\<close>: one sender that
  validates and enqueues, one receiver that validates again and delivers, a shared cancellation token
  and the tracker of the first delivery, which closes the transparent-retry gate.

  Tokio's channel and cancellation token are parameters. An \<open>async\<close> function is the function its
  future runs when it is polled; the polls of sender, receiver and their owners interleave freely in
  the relation \<open>stream_step\<close>.
\<close>

section \<open>Capacities\<close>

datatype stream_capacity_error = ZeroCapacity | TooLargeCapacity

text \<open>\<open>Semaphore::MAX_PERMITS\<close> is a parameter.\<close>

definition stream_capacity_try_new :: "usize \<Rightarrow> usize \<Rightarrow> stream_capacity_error + usize" where
  "stream_capacity_try_new max_permits value =
     (if value = 0 then Err ZeroCapacity
      else if max_permits < value then Err TooLargeCapacity
      else Ok value)"

section \<open>Channel and token\<close>

datatype 'a poll_result = Ready 'a | Pending

datatype send_poll = SendDone | SendClosed | SendPending

record ('c, 't) stream_ops =
  so_channel :: "usize \<Rightarrow> 'c"
  so_send :: "canonical_event \<Rightarrow> 'c \<Rightarrow> send_poll \<times> 'c"
  so_recv :: "'c \<Rightarrow> canonical_event option poll_result \<times> 'c"
  so_drop_sender :: "'c \<Rightarrow> 'c"
  so_drop_receiver :: "'c \<Rightarrow> 'c"
  so_token :: 't
  so_cancel :: "'t \<Rightarrow> 't"
  so_is_cancelled :: "'t \<Rightarrow> bool"

text \<open>
  What the stream relies on: a send that is done has appended its event, within the capacity; a
  receive takes the oldest event and reports the end only when nothing is queued and no sender is
  left; nothing is sent once the receiver is gone; a token is cancelled from its cancellation on. A
  poll may stay pending at any time.
\<close>

record 'c channel_view =
  cv_contents :: "'c \<Rightarrow> canonical_event list"
  cv_capacity :: "'c \<Rightarrow> usize"
  cv_ended :: "'c \<Rightarrow> bool"
  cv_abandoned :: "'c \<Rightarrow> bool"

definition stream_send_law :: "('c, 't) stream_ops \<Rightarrow> 'c channel_view \<Rightarrow> bool" where
  "stream_send_law ops v \<longleftrightarrow>
     (\<forall>e c r c'. so_send ops e c = (r, c') \<longrightarrow>
        cv_capacity v c' = cv_capacity v c \<and> cv_ended v c' = cv_ended v c \<and> cv_abandoned v c' = cv_abandoned v c \<and>
        (if r = SendDone
         then cv_contents v c' = cv_contents v c @ [e] \<and> length (cv_contents v c) < cv_capacity v c \<and> \<not> cv_abandoned v c
         else cv_contents v c' = cv_contents v c))"

definition stream_recv_law :: "('c, 't) stream_ops \<Rightarrow> 'c channel_view \<Rightarrow> bool" where
  "stream_recv_law ops v \<longleftrightarrow>
     (\<forall>c r c'. so_recv ops c = (r, c') \<longrightarrow>
        cv_capacity v c' = cv_capacity v c \<and> cv_ended v c' = cv_ended v c \<and> cv_abandoned v c' = cv_abandoned v c \<and>
        (case r of
           Ready (Some e) \<Rightarrow> cv_contents v c = e # cv_contents v c'
         | Ready None \<Rightarrow> cv_contents v c = [] \<and> cv_contents v c' = [] \<and> cv_ended v c
         | Pending \<Rightarrow> cv_contents v c' = cv_contents v c))"

definition stream_drop_law :: "('c, 't) stream_ops \<Rightarrow> 'c channel_view \<Rightarrow> bool" where
  "stream_drop_law ops v \<longleftrightarrow>
     (\<forall>c. cv_contents v (so_drop_sender ops c) = cv_contents v c \<and> cv_capacity v (so_drop_sender ops c) = cv_capacity v c \<and>
        cv_ended v (so_drop_sender ops c) \<and> cv_abandoned v (so_drop_sender ops c) = cv_abandoned v c \<and>
        cv_ended v (so_drop_receiver ops c) = cv_ended v c \<and> cv_abandoned v (so_drop_receiver ops c))"

definition stream_laws :: "('c, 't) stream_ops \<Rightarrow> 'c channel_view \<Rightarrow> bool" where
  "stream_laws ops v \<longleftrightarrow>
     (\<forall>n. cv_contents v (so_channel ops n) = [] \<and> cv_capacity v (so_channel ops n) = n \<and>
        \<not> cv_ended v (so_channel ops n)) \<and>
     stream_send_law ops v \<and> stream_recv_law ops v \<and> stream_drop_law ops v \<and>
     \<not> so_is_cancelled ops (so_token ops) \<and> (\<forall>t. so_is_cancelled ops (so_cancel ops t))"

section \<open>The stream\<close>

text \<open>
  The fields of \<open>CanonicalEventSender\<close> and \<open>CanonicalEventStream\<close> with what they share; \<open>snd_sender\<close>
  says whether the sender still holds its channel handle.
\<close>

record ('c, 't) canonical_stream =
  bs_channel :: 'c
  bs_cancellation :: 't
  bs_committed :: bool
  snd_sender :: bool
  snd_state :: response_lifecycle
  rcv_state :: response_lifecycle
  rcv_finished :: bool

definition bounded_canonical_stream :: "('c, 't) stream_ops \<Rightarrow> usize \<Rightarrow> ('c, 't) canonical_stream" where
  "bounded_canonical_stream ops capacity =
     \<lparr>bs_channel = so_channel ops capacity, bs_cancellation = so_token ops, bs_committed = False,
      snd_sender = True, snd_state = Initial, rcv_state = Initial, rcv_finished = False\<rparr>"

subsection \<open>Control\<close>

datatype first_semantic_event = First | AlreadyCommitted

datatype first_semantic_event_wait = Delivered | CancelledWait

definition control_cancel :: "('c, 't) stream_ops \<Rightarrow> ('c, 't) canonical_stream \<Rightarrow> ('c, 't) canonical_stream" where
  "control_cancel ops s = s\<lparr>bs_cancellation := so_cancel ops (bs_cancellation s)\<rparr>"

definition control_is_cancelled :: "('c, 't) stream_ops \<Rightarrow> ('c, 't) canonical_stream \<Rightarrow> bool" where
  "control_is_cancelled ops s = so_is_cancelled ops (bs_cancellation s)"

definition mark_delivered ::
  "canonical_event \<Rightarrow> ('c, 't) canonical_stream \<Rightarrow> first_semantic_event \<times> ('c, 't) canonical_stream" where
  "mark_delivered event s = (if bs_committed s then AlreadyCommitted else First, s\<lparr>bs_committed := True\<rparr>)"

definition is_committed :: "('c, 't) canonical_stream \<Rightarrow> bool" where
  "is_committed s = bs_committed s"

definition is_uncommitted :: "('c, 't) canonical_stream \<Rightarrow> bool" where
  "is_uncommitted s = (\<not> is_committed s)"

definition allows_transparent_retry :: "('c, 't) stream_ops \<Rightarrow> ('c, 't) canonical_stream \<Rightarrow> bool" where
  "allows_transparent_retry ops s = (\<not> control_is_cancelled ops s \<and> is_uncommitted s)"

subsection \<open>The sender\<close>

text \<open>
  \<open>send\<close> up to its first await: the next lifecycle state, which the sender adopts only once the
  channel has taken the event.
\<close>

definition send_begin ::
  "('c, 't) stream_ops \<Rightarrow> canonical_event \<Rightarrow> ('c, 't) canonical_stream \<Rightarrow> gateway_error + response_lifecycle" where
  "send_begin ops event s =
     (if control_is_cancelled ops s then Err request_cancelled_error
      else
       (case lifecycle_apply event (snd_state s) of
          (Inl err, _) \<Rightarrow> Err err
        | (Inr _, next_state) \<Rightarrow> if snd_sender s then Ok next_state else Err stream_protocol_error))"

text \<open>
  One poll of \<open>select!\<close>: cancellation first, then the channel. On a terminal event both handles of
  the channel (the field and its clone) are dropped.
\<close>

definition send_poll ::
  "('c, 't) stream_ops \<Rightarrow> canonical_event \<Rightarrow> response_lifecycle \<Rightarrow> ('c, 't) canonical_stream \<Rightarrow>
     (gateway_error + unit) poll_result \<times> ('c, 't) canonical_stream" where
  "send_poll ops event next_state s =
     (if control_is_cancelled ops s then (Ready (Err request_cancelled_error), s)
      else
       (case so_send ops event (bs_channel s) of
          (SendDone, c) \<Rightarrow>
            (Ready (Ok ()),
             if is_terminal next_state
             then s\<lparr>bs_channel := so_drop_sender ops c, snd_state := next_state, snd_sender := False\<rparr>
             else s\<lparr>bs_channel := c, snd_state := next_state\<rparr>)
        | (SendClosed, c) \<Rightarrow> (Ready (Err request_cancelled_error), s\<lparr>bs_channel := c\<rparr>)
        | (SendPending, c) \<Rightarrow> (Pending, s\<lparr>bs_channel := c\<rparr>)))"

definition drop_sender :: "('c, 't) stream_ops \<Rightarrow> ('c, 't) canonical_stream \<Rightarrow> ('c, 't) canonical_stream" where
  "drop_sender ops s =
     (if snd_sender s then s\<lparr>bs_channel := so_drop_sender ops (bs_channel s), snd_sender := False\<rparr> else s)"

subsection \<open>The receiver\<close>

definition stream_receive ::
  "canonical_event option \<Rightarrow> ('c, 't) canonical_stream \<Rightarrow>
     (gateway_error + canonical_event option) \<times> ('c, 't) canonical_stream" where
  "stream_receive event s =
     (case event of
        None \<Rightarrow>
          (case lifecycle_finish (rcv_state s) of
             Inl err \<Rightarrow> (Err err, s\<lparr>rcv_finished := True\<rparr>)
           | Inr _ \<Rightarrow> (Ok None, s\<lparr>rcv_finished := True\<rparr>))
      | Some e \<Rightarrow>
          (case lifecycle_apply e (rcv_state s) of
             (Inl err, st) \<Rightarrow> (Err err, s\<lparr>rcv_state := st, rcv_finished := True\<rparr>)
           | (Inr _, st) \<Rightarrow> (Ok (Some e), s\<lparr>rcv_state := st, rcv_finished := is_terminal st\<rparr>)))"

definition recv_poll ::
  "('c, 't) stream_ops \<Rightarrow> ('c, 't) canonical_stream \<Rightarrow>
     (gateway_error + canonical_event option) poll_result \<times> ('c, 't) canonical_stream" where
  "recv_poll ops s =
     (if rcv_finished s then (Ready (Ok None), s)
      else if control_is_cancelled ops s then (Ready (Err request_cancelled_error), s\<lparr>rcv_finished := True\<rparr>)
      else
       (case so_recv ops (bs_channel s) of
          (Ready event, c) \<Rightarrow> (let (r, s') = stream_receive event (s\<lparr>bs_channel := c\<rparr>) in (Ready r, s'))
        | (Pending, c) \<Rightarrow> (Pending, s\<lparr>bs_channel := c\<rparr>)))"

definition drop_stream :: "('c, 't) stream_ops \<Rightarrow> ('c, 't) canonical_stream \<Rightarrow> ('c, 't) canonical_stream" where
  "drop_stream ops s =
     (let s' = (if is_terminal (rcv_state s) then s else control_cancel ops s)
      in s'\<lparr>bs_channel := so_drop_receiver ops (bs_channel s')\<rparr>)"

section \<open>Interleavings\<close>

text \<open>
  A configuration: the stream, the send in progress, who still owns an end, and what has happened so
  far (events enqueued, events handed out, whether a receive has failed, events marked as delivered).
\<close>

record ('c, 't) stream_config =
  sc_stream :: "('c, 't) canonical_stream"
  sc_sending :: "(canonical_event \<times> response_lifecycle) option"
  sc_sender_alive :: bool
  sc_receiver_alive :: bool
  sc_sent :: "canonical_event list"
  sc_received :: "canonical_event list"
  sc_failed :: bool
  sc_delivered :: "canonical_event list"

definition stream_start :: "('c, 't) stream_ops \<Rightarrow> usize \<Rightarrow> ('c, 't) stream_config" where
  "stream_start ops capacity =
     \<lparr>sc_stream = bounded_canonical_stream ops capacity, sc_sending = None, sc_sender_alive = True,
      sc_receiver_alive = True, sc_sent = [], sc_received = [], sc_failed = False, sc_delivered = []\<rparr>"

definition received_by :: "(gateway_error + canonical_event option) poll_result \<Rightarrow> canonical_event list" where
  "received_by p = (case p of Ready (Inr (Some e)) \<Rightarrow> [e] | _ \<Rightarrow> [])"

definition poll_failed :: "(gateway_error + 'a) poll_result \<Rightarrow> bool" where
  "poll_failed p = (case p of Ready (Inl _) \<Rightarrow> True | _ \<Rightarrow> False)"

definition sent_by :: "canonical_event \<Rightarrow> (gateway_error + unit) poll_result \<Rightarrow> canonical_event list" where
  "sent_by e p = (case p of Ready (Inr _) \<Rightarrow> [e] | _ \<Rightarrow> [])"

inductive stream_step :: "('c, 't) stream_ops \<Rightarrow> ('c, 't) stream_config \<Rightarrow> ('c, 't) stream_config \<Rightarrow> bool"
  for ops :: "('c, 't) stream_ops" where
  begin_send: "sc_sender_alive g \<Longrightarrow> sc_sending g = None \<Longrightarrow> send_begin ops e (sc_stream g) = Inr next_state \<Longrightarrow>
    stream_step ops g (g\<lparr>sc_sending := Some (e, next_state)\<rparr>)"
| poll_send: "sc_sending g = Some (e, next_state) \<Longrightarrow> send_poll ops e next_state (sc_stream g) = (p, s) \<Longrightarrow>
    stream_step ops g (g\<lparr>sc_stream := s, sc_sending := (if p = Pending then Some (e, next_state) else None),
      sc_sent := sc_sent g @ sent_by e p\<rparr>)"
| abandon_send: "stream_step ops g (g\<lparr>sc_sending := None\<rparr>)"
| drop_sender: "sc_sender_alive g \<Longrightarrow> sc_sending g = None \<Longrightarrow>
    stream_step ops g (g\<lparr>sc_stream := drop_sender ops (sc_stream g), sc_sender_alive := False\<rparr>)"
| poll_recv: "sc_receiver_alive g \<Longrightarrow> recv_poll ops (sc_stream g) = (p, s) \<Longrightarrow>
    stream_step ops g (g\<lparr>sc_stream := s, sc_received := sc_received g @ received_by p,
      sc_failed := (sc_failed g \<or> poll_failed p)\<rparr>)"
| drop_stream: "sc_receiver_alive g \<Longrightarrow>
    stream_step ops g (g\<lparr>sc_stream := drop_stream ops (sc_stream g), sc_receiver_alive := False\<rparr>)"
| cancel: "stream_step ops g (g\<lparr>sc_stream := control_cancel ops (sc_stream g)\<rparr>)"
| deliver: "mark_delivered e (sc_stream g) = (first, s) \<Longrightarrow>
    stream_step ops g (g\<lparr>sc_stream := s, sc_delivered := sc_delivered g @ [e]\<rparr>)"

abbreviation stream_run :: "('c, 't) stream_ops \<Rightarrow> ('c, 't) stream_config \<Rightarrow> ('c, 't) stream_config \<Rightarrow> bool" where
  "stream_run ops \<equiv> (stream_step ops)\<^sup>*\<^sup>*"

section \<open>The invariant\<close>

lemma so_sendD:
  assumes "stream_laws ops v" "so_send ops e c = (r, c')"
  shows "cv_capacity v c' = cv_capacity v c" "cv_ended v c' = cv_ended v c" "cv_abandoned v c' = cv_abandoned v c"
    "r \<noteq> SendDone \<Longrightarrow> cv_contents v c' = cv_contents v c"
    "r = SendDone \<Longrightarrow> cv_contents v c' = cv_contents v c @ [e] \<and> length (cv_contents v c) < cv_capacity v c \<and> \<not> cv_abandoned v c"
  using assms by (simp_all add: stream_laws_def stream_send_law_def)

lemma so_recvD:
  assumes "stream_laws ops v" "so_recv ops c = (r, c')"
  shows "cv_capacity v c' = cv_capacity v c" "cv_ended v c' = cv_ended v c" "cv_abandoned v c' = cv_abandoned v c"
    "r = Pending \<Longrightarrow> cv_contents v c' = cv_contents v c"
    "r = Ready None \<Longrightarrow> cv_contents v c = [] \<and> cv_contents v c' = [] \<and> cv_ended v c"
    "r = Ready (Some e) \<Longrightarrow> cv_contents v c = e # cv_contents v c'"
  using assms unfolding stream_laws_def stream_recv_law_def by fastforce+

lemma so_dropD:
  assumes "stream_laws ops v"
  shows "cv_contents v (so_drop_sender ops c) = cv_contents v c" "cv_capacity v (so_drop_sender ops c) = cv_capacity v c"
    "cv_ended v (so_drop_sender ops c)" "cv_abandoned v (so_drop_sender ops c) = cv_abandoned v c"
    "cv_ended v (so_drop_receiver ops c) = cv_ended v c" "cv_abandoned v (so_drop_receiver ops c)"
  using assms by (simp_all add: stream_laws_def stream_drop_law_def)

text \<open>
  Both ends have validated what went through them, and what is queued is what separates them.
\<close>

definition stream_ok :: "'c channel_view \<Rightarrow> usize \<Rightarrow> ('c, 't) stream_config \<Rightarrow> bool" where
  "stream_ok v cap g \<longleftrightarrow>
     (let s = sc_stream g; c = bs_channel s in
      lifecycle_run (sc_sent g) Initial = Inr (snd_state s) \<and>
      lifecycle_run (sc_received g) Initial = Inr (rcv_state s) \<and>
      (\<exists>rest. sc_sent g = sc_received g @ rest \<and>
         (sc_receiver_alive g \<longrightarrow> rest = cv_contents v c \<and> length rest \<le> cap)) \<and>
      (sc_receiver_alive g \<longrightarrow> cv_capacity v c = cap) \<and>
      (\<not> sc_receiver_alive g \<longrightarrow> cv_abandoned v c) \<and>
      (cv_ended v c \<longleftrightarrow> \<not> snd_sender s) \<and>
      (snd_sender s \<longleftrightarrow> sc_sender_alive g \<and> \<not> is_terminal (snd_state s)) \<and>
      (\<forall>e st. sc_sending g = Some (e, st) \<longrightarrow> sc_sender_alive g \<and> lifecycle_apply e (snd_state s) = (Inr (), st)) \<and>
      (rcv_finished s \<longleftrightarrow> sc_failed g \<or> is_terminal (rcv_state s)) \<and>
      (bs_committed s \<longleftrightarrow> sc_delivered g \<noteq> []))"

lemma run_snoc:
  "lifecycle_run es Initial = Inr st \<Longrightarrow>
     lifecycle_run (es @ [e]) Initial = Inr st' \<longleftrightarrow> lifecycle_apply e st = (Inr (), st')"
  by (auto simp: lifecycle_run_append split: prod.splits sum.splits)

lemma terminal_rejects: "is_terminal st \<Longrightarrow> lifecycle_apply e st = (Inl stream_protocol_error, st)"
  by (cases st) (simp_all add: lifecycle_apply_def)

lemma stream_start_ok: "stream_laws ops v \<Longrightarrow> stream_ok v cap (stream_start ops cap)"
  by (simp add: stream_ok_def stream_start_def bounded_canonical_stream_def stream_laws_def)

lemma received_next:
  assumes "lifecycle_run (rs @ e # es) Initial = Inr st" "lifecycle_run rs Initial = Inr st'"
  obtains st'' where "lifecycle_apply e st' = (Inr (), st'')" "lifecycle_run (rs @ [e]) Initial = Inr st''"
  using assms by (auto simp: lifecycle_run_append split: prod.splits sum.splits)

lemma send_poll_ok:
  assumes laws: "stream_laws ops v" and ok: "stream_ok v cap g" and s: "sc_sending g = Some (e, st)"
    and poll: "send_poll ops e st (sc_stream g) = (p, s')"
  shows "stream_ok v cap (g\<lparr>sc_stream := s', sc_sending := (if p = Pending then Some (e, st) else None),
           sc_sent := sc_sent g @ sent_by e p\<rparr>)"
proof -
  have ap: "lifecycle_apply e (snd_state (sc_stream g)) = (Inr (), st)" and al: "sc_sender_alive g"
    using ok s by (simp_all add: stream_ok_def Let_def)
  then have nt: "\<not> is_terminal (snd_state (sc_stream g))" using terminal_rejects by fastforce
  obtain r c where r: "so_send ops e (bs_channel (sc_stream g)) = (r, c)" by fastforce
  note d = so_sendD [OF laws r] so_dropD [OF laws]
  note inv = ok [unfolded stream_ok_def Let_def]
  show ?thesis
  proof (cases "control_is_cancelled ops (sc_stream g)")
    case True
    then have "p = Ready (Inl request_cancelled_error)" "s' = sc_stream g" using poll by (simp_all add: send_poll_def)
    then show ?thesis using inv by (simp add: stream_ok_def sent_by_def)
  next
    case live: False
    show ?thesis
    proof (cases "r = SendDone")
      case True
      then have "p = Ready (Inr ())" and s': "s' = (sc_stream g)\<lparr>bs_channel := if is_terminal st then so_drop_sender ops c else c,
          snd_state := st, snd_sender := \<not> is_terminal st\<rparr>"
        using poll r live inv al nt by (auto simp: send_poll_def)
      moreover have "lifecycle_run (sc_sent g @ [e]) Initial = Inr st" using inv run_snoc ap by blast
      ultimately show ?thesis using inv d(1-3) d(5) [OF True] d(6-9) al nt by (auto simp: stream_ok_def sent_by_def)
    next
      case False
      then have "s' = (sc_stream g)\<lparr>bs_channel := c\<rparr>" "sent_by e p = []"
        using poll r live False by (cases r; auto simp: send_poll_def sent_by_def)+
      then show ?thesis using inv d(1-3) d(4) [OF False] s by (auto simp: stream_ok_def)
    qed
  qed
qed

lemma recv_poll_outcome:
  assumes laws: "stream_laws ops v" and ok: "stream_ok v cap g" and alive: "sc_receiver_alive g"
    and poll: "recv_poll ops (sc_stream g) = (p, s')"
  obtains (finished) "rcv_finished (sc_stream g)" "p = Ready (Inr None)" "s' = sc_stream g"
  | (cancelled) "\<not> rcv_finished (sc_stream g)" "control_is_cancelled ops (sc_stream g)"
      "p = Ready (Inl request_cancelled_error)" "s' = (sc_stream g)\<lparr>rcv_finished := True\<rparr>"
  | (pending) c where "so_recv ops (bs_channel (sc_stream g)) = (Pending, c)"
      "p = Pending" "s' = (sc_stream g)\<lparr>bs_channel := c\<rparr>"
  | (ended) c where "so_recv ops (bs_channel (sc_stream g)) = (Ready None, c)" "\<not> rcv_finished (sc_stream g)"
      "p = Ready (Inl stream_truncated_error)" "s' = (sc_stream g)\<lparr>bs_channel := c, rcv_finished := True\<rparr>"
  | (event) c e st where "so_recv ops (bs_channel (sc_stream g)) = (Ready (Some e), c)" "\<not> rcv_finished (sc_stream g)"
      "lifecycle_apply e (rcv_state (sc_stream g)) = (Inr (), st)" "lifecycle_run (sc_received g @ [e]) Initial = Inr st"
      "p = Ready (Inr (Some e))" "s' = (sc_stream g)\<lparr>bs_channel := c, rcv_state := st, rcv_finished := is_terminal st\<rparr>"
proof -
  note inv = ok [unfolded stream_ok_def Let_def]
  obtain r c where r: "so_recv ops (bs_channel (sc_stream g)) = (r, c)" by fastforce
  show thesis
  proof (cases "rcv_finished (sc_stream g) \<or> control_is_cancelled ops (sc_stream g)")
    case True
    then show thesis using finished cancelled poll by (auto simp: recv_poll_def split: if_splits)
  next
    case live: False
    show thesis
    proof (cases r)
      case Pending
      then show thesis using pending r poll live by (simp add: recv_poll_def)
    next
      case (Ready x)
      show thesis
      proof (cases x)
        case None
        have "lifecycle_finish (rcv_state (sc_stream g)) = Inl stream_truncated_error"
          using live inv by (auto simp: lifecycle_finish_def)
        then show thesis using ended [of c] Ready None r poll live by (simp add: recv_poll_def stream_receive_def)
      next
        case (Some e)
        have "sc_sent g = sc_received g @ e # cv_contents v c"
          using inv alive so_recvD(6) [OF laws r, of e] Ready Some by auto
        then have "lifecycle_run (sc_received g @ e # cv_contents v c) Initial = Inr (snd_state (sc_stream g))"
          using inv by metis
        then obtain st where st: "lifecycle_apply e (rcv_state (sc_stream g)) = (Inr (), st)"
          "lifecycle_run (sc_received g @ [e]) Initial = Inr st"
          using received_next inv by blast
        then show thesis using event [of e c st] Ready Some r poll live by (simp add: recv_poll_def stream_receive_def)
      qed
    qed
  qed
qed

lemma recv_poll_ok:
  assumes laws: "stream_laws ops v" and ok: "stream_ok v cap g" and alive: "sc_receiver_alive g"
    and poll: "recv_poll ops (sc_stream g) = (p, s')"
  shows "stream_ok v cap (g\<lparr>sc_stream := s', sc_received := sc_received g @ received_by p,
      sc_failed := (sc_failed g \<or> poll_failed p)\<rparr>)"
  using laws ok alive poll
proof (cases rule: recv_poll_outcome)
  case finished
  then show ?thesis using ok by (simp add: stream_ok_def received_by_def poll_failed_def)
next
  case cancelled
  then show ?thesis using ok by (simp add: stream_ok_def Let_def received_by_def poll_failed_def)
next
  case (pending c)
  then show ?thesis using ok so_recvD(1-4) [OF laws pending(1)]
    by (simp add: stream_ok_def Let_def received_by_def poll_failed_def)
next
  case (ended c)
  then show ?thesis using ok so_recvD(1-3,5) [OF laws ended(1)]
    by (auto simp: stream_ok_def Let_def received_by_def poll_failed_def)
next
  case (event c e st)
  have "sc_sent g = (sc_received g @ [e]) @ cv_contents v c" "length (cv_contents v c) \<le> cap"
    using ok alive so_recvD(6) [OF laws event(1), of e] by (auto simp: stream_ok_def Let_def)
  then show ?thesis using ok alive event so_recvD(1-3) [OF laws event(1)]
    by (auto simp: stream_ok_def Let_def received_by_def poll_failed_def)
qed

lemma stream_step_ok:
  assumes "stream_laws ops v" "stream_step ops g g'" "stream_ok v cap g"
  shows "stream_ok v cap g'"
  using assms(2,3)
proof (induction rule: stream_step.induct)
  case (begin_send g e next_state)
  then show ?case by (auto simp: stream_ok_def Let_def send_begin_def split: if_splits prod.splits sum.splits)
next
  case (poll_send g e next_state p s)
  then show ?case using send_poll_ok [OF assms(1)] by blast
next
  case (poll_recv g p s)
  then show ?case using recv_poll_ok [OF assms(1)] by blast
next
  case (drop_sender g)
  then show ?case using so_dropD [OF assms(1)] by (auto simp: stream_ok_def Let_def drop_sender_def)
next
  case (drop_stream g)
  then show ?case using so_dropD [OF assms(1)]
    by (auto simp: stream_ok_def Let_def drop_stream_def control_cancel_def)
qed (auto simp: stream_ok_def Let_def control_cancel_def mark_delivered_def)

lemma stream_run_ok:
  assumes "stream_laws ops v" "stream_run ops g g'" "stream_ok v cap g"
  shows "stream_ok v cap g'"
  using assms(2,3) by (induction rule: rtranclp_induct) (auto intro: stream_step_ok [OF assms(1)])

section \<open>Properties of the stream\<close>

lemma run_terminals: "lifecycle_run es Initial = Inr st \<Longrightarrow> is_terminal st \<longleftrightarrow> 0 < terminals es"
  using lifecycle_run_remembers [of es st] by (cases st) auto

lemma run_allowed:
  assumes "lifecycle_run es Initial = Inr st"
  shows "(\<exists>st'. lifecycle_apply e st = (Inr (), st')) \<longleftrightarrow> event_allowed es e"
  using lifecycle_step [OF lifecycle_run_remembers [OF assms], of e] by (auto split: prod.splits sum.splits)

lemma run_after_terminal:
  "lifecycle_run (rs @ es) Initial = Inr st' \<Longrightarrow> lifecycle_run rs Initial = Inr st \<Longrightarrow> is_terminal st \<Longrightarrow> es = []"
  by (cases es) (auto simp: lifecycle_run_append terminal_rejects)

lemma recv_poll_sound:
  assumes laws: "stream_laws ops v" and ok: "stream_ok v cap g" and alive: "sc_receiver_alive g"
    and poll: "recv_poll ops (sc_stream g) = (p, s)"
  shows "case p of
      Pending \<Rightarrow> True
    | Ready (Inl err) \<Rightarrow>
        err = request_cancelled_error \<and> control_is_cancelled ops (sc_stream g) \<or>
        err = stream_truncated_error \<and> sc_received g = sc_sent g \<and> \<not> sc_sender_alive g \<and> terminals (sc_sent g) = 0
    | Ready (Inr None) \<Rightarrow> sc_failed g \<or> sc_received g = sc_sent g \<and> 0 < terminals (sc_sent g)
    | Ready (Inr (Some e)) \<Rightarrow> event_allowed (sc_received g) e \<and> (\<exists>rest. sc_sent g = sc_received g @ e # rest)"
proof -
  note inv = ok [unfolded stream_ok_def Let_def]
  have sent: "lifecycle_run (sc_sent g) Initial = Inr (snd_state (sc_stream g))"
    and rcvd: "lifecycle_run (sc_received g) Initial = Inr (rcv_state (sc_stream g))"
    and rest: "sc_sent g = sc_received g @ cv_contents v (bs_channel (sc_stream g))" using inv alive by auto
  show ?thesis using laws ok alive poll
  proof (cases rule: recv_poll_outcome)
    case finished
    show ?thesis
    proof (cases "sc_failed g")
      case False
      then have t: "is_terminal (rcv_state (sc_stream g))" using inv finished(1) by blast
      then have "sc_received g = sc_sent g" using run_after_terminal [OF _ rcvd t] sent rest by auto
      then show ?thesis using finished run_terminals [OF rcvd] t by simp
    qed (simp add: finished)
  next
    case (ended c)
    have eq: "sc_received g = sc_sent g" and e: "cv_ended v (bs_channel (sc_stream g))"
      using so_recvD(5) [OF laws ended(1)] rest by simp_all
    have nt: "\<not> is_terminal (rcv_state (sc_stream g))" using inv ended(2) by blast
    moreover have "rcv_state (sc_stream g) = snd_state (sc_stream g)" using sent rcvd eq by simp
    ultimately have "\<not> sc_sender_alive g" using inv e by auto
    then show ?thesis using ended run_terminals [OF rcvd] nt eq by simp
  next
    case (event c e st)
    then show ?thesis using run_allowed [OF rcvd, of e] so_recvD(6) [OF laws event(1), of e] rest by auto
  qed simp_all
qed

text \<open>
  C10: Whatever the interleaving of sends, receives, cancellation and drops, the stream hands out exactly
  what was enqueued, in order and within its capacity; the enqueued events form a lawful response; a
  send gets past validation exactly when the request is not cancelled and the event is allowed next.
  A receive fails only because the request is cancelled, or because the source went away before a
  terminal event when everything enqueued has been handed out; it reports the end only after a
  complete response (or after such a failure), and the receiver's second validation never rejects.
\<close>

theorem stream_delivers_exactly:
  assumes laws: "stream_laws ops v" and run: "stream_run ops (stream_start ops cap) g"
  shows "lawful (sc_sent g) \<and>
    (\<exists>rest. sc_sent g = sc_received g @ rest \<and>
       (sc_receiver_alive g \<longrightarrow> rest = cv_contents v (bs_channel (sc_stream g)) \<and> length rest \<le> cap)) \<and>
    (sc_sender_alive g \<longrightarrow> (\<forall>e. (\<exists>st. send_begin ops e (sc_stream g) = Inr st) \<longleftrightarrow>
       \<not> control_is_cancelled ops (sc_stream g) \<and> event_allowed (sc_sent g) e)) \<and>
    (\<forall>p s. sc_receiver_alive g \<and> recv_poll ops (sc_stream g) = (p, s) \<longrightarrow>
       (case p of
          Pending \<Rightarrow> True
        | Ready (Inl err) \<Rightarrow>
            err = request_cancelled_error \<and> control_is_cancelled ops (sc_stream g) \<or>
            err = stream_truncated_error \<and> sc_received g = sc_sent g \<and> \<not> sc_sender_alive g \<and> terminals (sc_sent g) = 0
        | Ready (Inr None) \<Rightarrow> sc_failed g \<or> sc_received g = sc_sent g \<and> 0 < terminals (sc_sent g)
        | Ready (Inr (Some e)) \<Rightarrow> event_allowed (sc_received g) e \<and> (\<exists>rest. sc_sent g = sc_received g @ e # rest)))"
proof -
  have ok: "stream_ok v cap g" using stream_run_ok [OF laws run] stream_start_ok [OF laws] by blast
  note inv = ok [unfolded stream_ok_def Let_def]
  have sent: "lifecycle_run (sc_sent g) Initial = Inr (snd_state (sc_stream g))" using inv by blast
  have admits: "(\<exists>st. send_begin ops e (sc_stream g) = Inr st) \<longleftrightarrow>
      \<not> control_is_cancelled ops (sc_stream g) \<and> event_allowed (sc_sent g) e" if "sc_sender_alive g" for e
    using inv that run_allowed [OF sent, of e] terminal_rejects [of "snd_state (sc_stream g)" e]
    by (auto simp: send_begin_def split: prod.splits sum.splits)
  show ?thesis
  proof (intro conjI allI impI)
    show "lawful (sc_sent g)" using sent lifecycle_run_lawful by blast
    show "\<exists>rest. sc_sent g = sc_received g @ rest \<and>
       (sc_receiver_alive g \<longrightarrow> rest = cv_contents v (bs_channel (sc_stream g)) \<and> length rest \<le> cap)" using inv by blast
  qed (use admits recv_poll_sound [OF laws ok] in blast)+
qed

text \<open>What a step keeps once the request is cancelled, the receiver is gone, or an event is delivered.\<close>

definition stays_closed :: "('c, 't) stream_ops \<Rightarrow> ('c, 't) stream_config \<Rightarrow> ('c, 't) stream_config \<Rightarrow> bool" where
  "stays_closed ops g g' \<longleftrightarrow>
     (control_is_cancelled ops (sc_stream g) \<or> \<not> sc_receiver_alive g \<longrightarrow>
        sc_sent g' = sc_sent g \<and> sc_received g' = sc_received g) \<and>
     (control_is_cancelled ops (sc_stream g) \<longrightarrow> control_is_cancelled ops (sc_stream g')) \<and>
     (\<not> sc_receiver_alive g \<longrightarrow> \<not> sc_receiver_alive g') \<and>
     (sc_delivered g \<noteq> [] \<longrightarrow> sc_delivered g' \<noteq> [])"

lemma stays_closed_refl: "stays_closed ops g g"
  by (simp add: stays_closed_def)

lemma stays_closed_trans: "stays_closed ops g g' \<Longrightarrow> stays_closed ops g' g'' \<Longrightarrow> stays_closed ops g g''"
  unfolding stays_closed_def by metis

lemma cancelled_after: "stream_laws ops v \<Longrightarrow> control_is_cancelled ops (control_cancel ops s)"
  by (simp add: stream_laws_def control_is_cancelled_def control_cancel_def)

lemma send_poll_stays:
  assumes laws: "stream_laws ops v" and poll: "send_poll ops e st s = (p, s')"
  shows "bs_cancellation s' = bs_cancellation s"
    and "control_is_cancelled ops s \<or> cv_abandoned v (bs_channel s) \<Longrightarrow> sent_by e p = []"
  using poll so_sendD(5) [OF laws, of e "bs_channel s" SendDone]
  by (auto simp: send_poll_def sent_by_def split: send_poll.splits if_splits prod.splits)

lemma recv_poll_stays:
  assumes poll: "recv_poll ops s = (p, s')"
  shows "bs_cancellation s' = bs_cancellation s" and "control_is_cancelled ops s \<Longrightarrow> received_by p = []"
  using poll
  by (auto simp: recv_poll_def received_by_def stream_receive_def split: if_splits prod.splits poll_result.splits
      option.splits sum.splits)

lemma stream_step_stays:
  assumes laws: "stream_laws ops v" and "stream_step ops g g'" "stream_ok v cap g"
  shows "stays_closed ops g g'"
  using assms(2,3)
proof (induction rule: stream_step.induct)
  case (poll_send g e next_state p s)
  then have "\<not> sc_receiver_alive g \<Longrightarrow> cv_abandoned v (bs_channel (sc_stream g))" by (simp add: stream_ok_def Let_def)
  then show ?case using send_poll_stays [OF laws poll_send(2)] by (auto simp: stays_closed_def control_is_cancelled_def)
next
  case (poll_recv g p s)
  then show ?case using recv_poll_stays [OF poll_recv(2)] by (auto simp: stays_closed_def control_is_cancelled_def)
next
  case (drop_sender g)
  then show ?case by (simp add: stays_closed_def drop_sender_def control_is_cancelled_def)
next
  case (drop_stream g)
  then show ?case using cancelled_after [OF laws, of "sc_stream g"]
    by (simp add: stays_closed_def drop_stream_def control_is_cancelled_def Let_def)
next
  case (cancel g)
  then show ?case using cancelled_after [OF laws] by (simp add: stays_closed_def)
qed (auto simp: stays_closed_def mark_delivered_def control_is_cancelled_def)

lemma stream_run_stays:
  assumes laws: "stream_laws ops v" and run: "stream_run ops g g'" and ok: "stream_ok v cap g"
  shows "stays_closed ops g g'"
  using run
proof (induction rule: rtranclp_induct)
  case (step y z)
  then show ?case using stream_run_ok [OF laws step(1) ok] stream_step_stays [OF laws step(2)]
    by (blast intro: stays_closed_trans)
qed (rule stays_closed_refl)

text \<open>
  C11: Cancellation and the first delivery are final: along every interleaving, after cancellation or the loss
  of the receiver nothing more is enqueued or handed out; the transparent-retry gate is open exactly
  while nothing has been delivered and the request is not cancelled, so once closed it never opens
  again, and exactly the first delivery is reported as the first.
\<close>

theorem stream_boundaries_final:
  assumes laws: "stream_laws ops v" and "stream_run ops (stream_start ops cap) g" and run: "stream_run ops g g'"
  shows "(control_is_cancelled ops (sc_stream g) \<longrightarrow>
      control_is_cancelled ops (sc_stream g') \<and> sc_sent g' = sc_sent g \<and> sc_received g' = sc_received g) \<and>
    (\<not> sc_receiver_alive g \<longrightarrow> sc_sent g' = sc_sent g \<and> sc_received g' = sc_received g) \<and>
    (allows_transparent_retry ops (sc_stream g) \<longleftrightarrow> \<not> control_is_cancelled ops (sc_stream g) \<and> sc_delivered g = []) \<and>
    (\<not> allows_transparent_retry ops (sc_stream g) \<longrightarrow> \<not> allows_transparent_retry ops (sc_stream g')) \<and>
    (fst (mark_delivered e (sc_stream g)) = First \<longleftrightarrow> sc_delivered g = [])"
proof -
  have ok: "stream_ok v cap g" using stream_run_ok [OF laws assms(2)] stream_start_ok [OF laws] by blast
  have ok': "stream_ok v cap g'" using stream_run_ok [OF laws run ok] .
  have open_iff: "allows_transparent_retry ops (sc_stream h) \<longleftrightarrow>
      \<not> control_is_cancelled ops (sc_stream h) \<and> sc_delivered h = []" if "stream_ok v cap h" for h
    using that by (auto simp: stream_ok_def Let_def allows_transparent_retry_def is_uncommitted_def is_committed_def)
  have "fst (mark_delivered e (sc_stream g)) = First \<longleftrightarrow> sc_delivered g = []"
    using ok by (simp add: stream_ok_def Let_def mark_delivered_def)
  then show ?thesis using stream_run_stays [OF laws run ok] open_iff [OF ok] open_iff [OF ok']
    by (auto simp: stays_closed_def)
qed

subsection \<open>A concrete channel\<close>

record list_channel_state =
  lc_events :: "canonical_event list"
  lc_capacity :: usize
  lc_ended :: bool
  lc_abandoned :: bool

definition list_stream :: "(list_channel_state, bool) stream_ops" where
  "list_stream =
     \<lparr>so_channel = (\<lambda>n. \<lparr>lc_events = [], lc_capacity = n, lc_ended = False, lc_abandoned = False\<rparr>),
      so_send = (\<lambda>e c. if lc_abandoned c then (SendClosed, c)
                       else if length (lc_events c) < lc_capacity c then (SendDone, c\<lparr>lc_events := lc_events c @ [e]\<rparr>)
                       else (SendPending, c)),
      so_recv = (\<lambda>c. case lc_events c of
                        e # es \<Rightarrow> (Ready (Some e), c\<lparr>lc_events := es\<rparr>)
                      | [] \<Rightarrow> (if lc_ended c then Ready None else Pending, c)),
      so_drop_sender = lc_ended_update (\<lambda>_. True),
      so_drop_receiver = (\<lambda>c. c\<lparr>lc_events := [], lc_abandoned := True\<rparr>),
      so_token = False, so_cancel = (\<lambda>_. True), so_is_cancelled = (\<lambda>t. t)\<rparr>"

definition list_view :: "list_channel_state channel_view" where
  "list_view = \<lparr>cv_contents = lc_events, cv_capacity = lc_capacity, cv_ended = lc_ended, cv_abandoned = lc_abandoned\<rparr>"

lemma list_stream_laws: "stream_laws list_stream list_view"
  by (auto simp: stream_laws_def stream_send_law_def stream_recv_law_def stream_drop_law_def list_stream_def
      list_view_def split: list.splits)

definition sample_event :: canonical_event where
  "sample_event = ResponseStart \<lparr>rs_response_id = ''r'', rs_extensions = []\<rparr>"

text \<open>One event is enqueued, handed out and delivered, then the source goes away.\<close>

definition sample_received :: "(list_channel_state, bool) stream_config" where
  "sample_received =
     (stream_start list_stream 1)
       \<lparr>sc_stream := (bounded_canonical_stream list_stream 1)\<lparr>snd_state := Open open_response_default,
          rcv_state := Open open_response_default\<rparr>,
        sc_sent := [sample_event], sc_received := [sample_event]\<rparr>"

definition sample_abandoned :: "(list_channel_state, bool) stream_config" where
  "sample_abandoned =
     sample_received\<lparr>sc_stream := drop_sender list_stream ((sc_stream sample_received)\<lparr>bs_committed := True\<rparr>),
       sc_sender_alive := False, sc_delivered := [sample_event]\<rparr>"

lemmas sample_defs = sample_received_def sample_abandoned_def stream_start_def bounded_canonical_stream_def
  list_stream_def sample_event_def

lemma sample_received_run: "stream_run list_stream (stream_start list_stream 1) sample_received"
proof -
  let ?g0 = "stream_start list_stream 1"
  let ?g1 = "?g0\<lparr>sc_sending := Some (sample_event, Open open_response_default)\<rparr>"
  let ?s2 = "(sc_stream ?g0)\<lparr>bs_channel := snd (so_send list_stream sample_event (so_channel list_stream 1)),
     snd_state := Open open_response_default\<rparr>"
  let ?g2 = "?g1\<lparr>sc_stream := ?s2, sc_sending := None, sc_sent := [sample_event]\<rparr>"
  have "stream_step list_stream ?g0 ?g1"
    by (rule begin_send) (simp_all add: sample_defs send_begin_def lifecycle_apply_def control_is_cancelled_def)
  moreover have "send_poll list_stream sample_event (Open open_response_default) (sc_stream ?g1) = (Ready (Ok ()), ?s2)"
    by (simp add: send_poll_def sample_defs control_is_cancelled_def)
  from poll_send [OF _ this] have "stream_step list_stream ?g1 ?g2" by (simp add: sent_by_def sample_defs)
  moreover have "recv_poll list_stream (sc_stream ?g2) = (Ready (Ok (Some sample_event)), sc_stream sample_received)"
    by (simp add: recv_poll_def stream_receive_def sample_defs control_is_cancelled_def lifecycle_apply_def)
  from poll_recv [OF _ this] have "stream_step list_stream ?g2 sample_received"
    by (simp add: received_by_def poll_failed_def sample_defs)
  ultimately show ?thesis by (meson converse_rtranclp_into_rtranclp rtranclp.rtrancl_refl)
qed

lemma sample_abandoned_run: "stream_run list_stream sample_received sample_abandoned"
proof -
  let ?g = "sample_received\<lparr>sc_stream := (sc_stream sample_received)\<lparr>bs_committed := True\<rparr>, sc_delivered := [sample_event]\<rparr>"
  have "mark_delivered sample_event (sc_stream sample_received) = (First, (sc_stream sample_received)\<lparr>bs_committed := True\<rparr>)"
    by (simp add: mark_delivered_def sample_defs)
  from deliver [OF this] have "stream_step list_stream sample_received ?g" by (simp add: sample_defs)
  moreover have "stream_step list_stream ?g sample_abandoned"
    using stream_step.drop_sender [of ?g list_stream] by (simp add: sample_defs)
  ultimately show ?thesis by (meson converse_rtranclp_into_rtranclp rtranclp.rtrancl_refl)
qed

theorem stream_delivers_exactly_witness:
  "stream_laws list_stream list_view \<and> stream_run list_stream (stream_start list_stream 1) sample_received \<and>
   lawful (sc_sent sample_received) \<and> sc_received sample_received = [sample_event]"
  using stream_delivers_exactly [OF list_stream_laws sample_received_run] sample_received_run list_stream_laws
  by (simp add: sample_received_def)

theorem stream_boundaries_final_witness:
  "stream_run list_stream sample_received sample_abandoned \<and>
   allows_transparent_retry list_stream (sc_stream sample_received) \<and>
   \<not> allows_transparent_retry list_stream (sc_stream sample_abandoned) \<and>
   fst (mark_delivered sample_event (sc_stream sample_received)) = First"
proof -
  note t = stream_boundaries_final [OF list_stream_laws _ _, of 1]
  have "allows_transparent_retry list_stream (sc_stream sample_received) \<and>
      fst (mark_delivered sample_event (sc_stream sample_received)) = First"
    using t [OF sample_received_run sample_abandoned_run, of sample_event] by (simp add: sample_defs control_is_cancelled_def)
  moreover have "\<not> allows_transparent_retry list_stream (sc_stream sample_abandoned)"
    using t [OF rtranclp_trans [OF sample_received_run sample_abandoned_run] rtranclp.rtrancl_refl, of sample_event]
    by (simp add: sample_abandoned_def)
  ultimately show ?thesis using sample_abandoned_run by blast
qed

section \<open>Waiting for the first delivery\<close>

text \<open>
  \<open>wait_for_first_semantic_event_or_cancellation\<close> against concurrent deliveries, one atomic access at a
  time. Tokio's \<open>Notify\<close> is a parameter: \<open>notified\<close> creates a future that every later
  \<open>notify_waiters\<close> makes ready, even before it is first polled.
\<close>

record ('n, 'f) notify_ops =
  no_notified :: "'n \<Rightarrow> 'f"
  no_notify_waiters :: "'n \<Rightarrow> 'n"
  no_ready :: "'f \<Rightarrow> 'n \<Rightarrow> bool"

definition notify_law :: "('n, 'f) notify_ops \<Rightarrow> bool" where
  "notify_law ops \<longleftrightarrow> (\<forall>n k. no_ready ops (no_notified ops n) ((no_notify_waiters ops ^^ Suc k) n))"

text \<open>Where \<open>wait_until_committed\<close> is in its loop, and where the waiter is around it.\<close>

datatype 'f committed_loop = LoopHead | LoopCheck 'f | LoopAwait 'f | LoopRecheck

datatype 'f waiter =
    WaitEntry
  | WaitCommittedTest
  | WaitSelect "'f committed_loop"
  | WaitPolled "'f committed_loop"
  | WaitSuspended 'f
  | WaitDone first_semantic_event_wait

record ('n, 'f) wait_state =
  ws_committed :: bool
  ws_marking :: nat
  ws_notify :: 'n
  ws_cancelled :: bool
  ws_waiter :: "'f waiter"

text \<open>One access of the loop of \<open>wait_until_committed\<close>.\<close>

fun committed_loop_step :: "('n, 'f) notify_ops \<Rightarrow> bool \<Rightarrow> 'n \<Rightarrow> 'f committed_loop \<Rightarrow> 'f waiter" where
  "committed_loop_step ops committed n LoopHead = WaitPolled (LoopCheck (no_notified ops n))"
| "committed_loop_step ops committed n (LoopCheck f) =
     (if committed then WaitDone Delivered else WaitPolled (LoopAwait f))"
| "committed_loop_step ops committed n (LoopAwait f) =
     (if no_ready ops f n then WaitPolled LoopRecheck else WaitSuspended f)"
| "committed_loop_step ops committed n LoopRecheck =
     (if committed then WaitDone Delivered else WaitPolled LoopHead)"

text \<open>
  One access of the waiter; \<open>None\<close> when it has returned or sleeps. Each poll of \<open>select!\<close> looks at the
  cancellation first.
\<close>

fun waiter_step :: "('n, 'f) notify_ops \<Rightarrow> bool \<Rightarrow> 'n \<Rightarrow> bool \<Rightarrow> 'f waiter \<Rightarrow> 'f waiter option" where
  "waiter_step ops committed n cancelled WaitEntry =
     Some (if cancelled then WaitDone CancelledWait else WaitCommittedTest)"
| "waiter_step ops committed n cancelled WaitCommittedTest =
     Some (if committed then WaitDone Delivered else WaitSelect LoopHead)"
| "waiter_step ops committed n cancelled (WaitSelect l) =
     Some (if cancelled then WaitDone CancelledWait else WaitPolled l)"
| "waiter_step ops committed n cancelled (WaitPolled l) = Some (committed_loop_step ops committed n l)"
| "waiter_step ops committed n cancelled (WaitSuspended f) =
     (if cancelled \<or> no_ready ops f n then Some (WaitSelect (LoopAwait f)) else None)"
| "waiter_step ops committed n cancelled (WaitDone r) = None"

definition waiter_advance :: "('n, 'f) notify_ops \<Rightarrow> ('n, 'f) wait_state \<Rightarrow> ('n, 'f) wait_state" where
  "waiter_advance ops st =
     (case waiter_step ops (ws_committed st) (ws_notify st) (ws_cancelled st) (ws_waiter st) of
        None \<Rightarrow> st
      | Some w \<Rightarrow> st\<lparr>ws_waiter := w\<rparr>)"

text \<open>
  \<open>mark_delivered\<close> is two accesses: the swap, and the notification by the one caller that found the flag
  unset (\<open>ws_marking\<close> counts the callers in between).
\<close>

inductive wait_step :: "('n, 'f) notify_ops \<Rightarrow> ('n, 'f) wait_state \<Rightarrow> ('n, 'f) wait_state \<Rightarrow> bool"
  for ops :: "('n, 'f) notify_ops" where
  waits: "wait_step ops st (waiter_advance ops st)"
| swaps: "wait_step ops st (st\<lparr>ws_committed := True, ws_marking := ws_marking st + of_bool (\<not> ws_committed st)\<rparr>)"
| notifies: "0 < ws_marking st \<Longrightarrow>
    wait_step ops st (st\<lparr>ws_marking := ws_marking st - 1, ws_notify := no_notify_waiters ops (ws_notify st)\<rparr>)"
| cancels: "wait_step ops st (st\<lparr>ws_cancelled := True\<rparr>)"

definition wait_start :: "'n \<Rightarrow> ('n, 'f) wait_state" where
  "wait_start n = \<lparr>ws_committed = False, ws_marking = 0, ws_notify = n, ws_cancelled = False, ws_waiter = WaitEntry\<rparr>"

text \<open>The future the waiter holds, if it has looked at the flag since creating it.\<close>

fun held_future :: "'f waiter \<Rightarrow> 'f option" where
  "held_future (WaitSelect (LoopAwait f)) = Some f"
| "held_future (WaitPolled (LoopAwait f)) = Some f"
| "held_future (WaitSuspended f) = Some f"
| "held_future _ = None"

fun unchecked_future :: "'f waiter \<Rightarrow> 'f option" where
  "unchecked_future (WaitPolled (LoopCheck f)) = Some f"
| "unchecked_future _ = None"

definition later :: "('n, 'f) notify_ops \<Rightarrow> 'f \<Rightarrow> nat \<Rightarrow> 'n \<Rightarrow> bool" where
  "later ops f k n \<longleftrightarrow> (\<exists>m. f = no_notified ops m \<and> n = (no_notify_waiters ops ^^ k) m)"

definition wait_ok :: "('n, 'f) notify_ops \<Rightarrow> ('n, 'f) wait_state \<Rightarrow> bool" where
  "wait_ok ops st \<longleftrightarrow>
     (\<forall>f. unchecked_future (ws_waiter st) = Some f \<longrightarrow> (\<exists>k. later ops f k (ws_notify st))) \<and>
     (\<forall>f. held_future (ws_waiter st) = Some f \<longrightarrow>
        (\<exists>k. later ops f k (ws_notify st) \<and> (ws_committed st \<and> ws_marking st = 0 \<longrightarrow> 0 < k))) \<and>
     (ws_waiter st = WaitDone Delivered \<longrightarrow> ws_committed st) \<and>
     (ws_waiter st = WaitDone CancelledWait \<longrightarrow> ws_cancelled st) \<and>
     (\<forall>l. ws_waiter st = WaitSelect l \<longrightarrow> l = LoopHead \<or> (\<exists>f. l = LoopAwait f))"

lemma later_notified: "later ops (no_notified ops n) 0 n"
  unfolding later_def by (intro exI [of _ n]) simp

lemma later_notify: "later ops f k n \<Longrightarrow> later ops f (Suc k) (no_notify_waiters ops n)"
  unfolding later_def by auto

lemma later_ready: "notify_law ops \<Longrightarrow> later ops f k n \<Longrightarrow> 0 < k \<Longrightarrow> no_ready ops f n"
  by (cases k) (auto simp: later_def notify_law_def)

lemma waiter_advance_ok:
  assumes "wait_ok ops st" shows "wait_ok ops (waiter_advance ops st)"
proof (cases "ws_waiter st")
  case (WaitPolled l)
  then show ?thesis using assms
    by (cases l) (auto simp: wait_ok_def waiter_advance_def intro: later_notified)
qed (use assms in \<open>auto simp: wait_ok_def waiter_advance_def\<close>)

lemma wait_step_ok: "wait_step ops st st' \<Longrightarrow> wait_ok ops st \<Longrightarrow> wait_ok ops st'"
proof (induction rule: wait_step.induct)
  case (notifies st)
  then show ?case by (simp add: wait_ok_def) (blast intro: later_notify)
qed (auto simp: waiter_advance_ok, auto simp: wait_ok_def)

lemma wait_run_ok: "(wait_step ops)\<^sup>*\<^sup>* (wait_start n) st \<Longrightarrow> wait_ok ops st"
  by (induction rule: rtranclp_induct) (auto intro: wait_step_ok, simp add: wait_ok_def wait_start_def)

lemma waiter_advance_sel [simp]:
  "ws_committed (waiter_advance ops st) = ws_committed st" "ws_marking (waiter_advance ops st) = ws_marking st"
  "ws_notify (waiter_advance ops st) = ws_notify st" "ws_cancelled (waiter_advance ops st) = ws_cancelled st"
  by (simp_all add: waiter_advance_def split: option.splits)

text \<open>The accesses the waiter still makes once a delivery has been marked.\<close>

fun waiter_distance :: "'f waiter \<Rightarrow> nat" where
  "waiter_distance (WaitDone _) = 0"
| "waiter_distance (WaitPolled (LoopCheck _)) = 1"
| "waiter_distance (WaitPolled LoopRecheck) = 1"
| "waiter_distance WaitCommittedTest = 1"
| "waiter_distance (WaitPolled _) = 2"
| "waiter_distance WaitEntry = 2"
| "waiter_distance (WaitSelect _) = 3"
| "waiter_distance (WaitSuspended _) = 4"

lemma waiter_distance_decreases:
  assumes law: "notify_law ops" and ok: "wait_ok ops st" and c: "ws_committed st" "ws_marking st = 0"
    and d: "0 < waiter_distance (ws_waiter st)"
  shows "waiter_distance (ws_waiter (waiter_advance ops st)) < waiter_distance (ws_waiter st)"
proof -
  have "no_ready ops f (ws_notify st)" if "held_future (ws_waiter st) = Some f" for f
    using ok that c later_ready [OF law] by (auto simp: wait_ok_def)
  moreover have "l = LoopHead \<or> (\<exists>f. l = LoopAwait f)" if "ws_waiter st = WaitSelect l" for l
    using ok that by (simp add: wait_ok_def)
  ultimately show ?thesis using c d
    by (cases "ws_waiter st"; cases "case ws_waiter st of WaitPolled l \<Rightarrow> l | _ \<Rightarrow> LoopHead")
      (auto simp: waiter_advance_def split: committed_loop.splits)
qed

lemma waiter_returns:
  assumes law: "notify_law ops"
  shows "wait_ok ops st \<Longrightarrow> ws_committed st \<Longrightarrow> ws_marking st = 0 \<Longrightarrow>
    \<exists>k \<le> waiter_distance (ws_waiter st). \<exists>r. ws_waiter ((waiter_advance ops ^^ k) st) = WaitDone r"
proof (induction "waiter_distance (ws_waiter st)" arbitrary: st rule: less_induct)
  case less
  show ?case
  proof (cases "waiter_distance (ws_waiter st) = 0")
    case True
    then have "\<exists>r. ws_waiter st = WaitDone r" by (cases "ws_waiter st" rule: waiter_distance.cases) auto
    then show ?thesis by (intro exI [of _ 0]) simp
  next
    case False
    then have dec: "waiter_distance (ws_waiter (waiter_advance ops st)) < waiter_distance (ws_waiter st)"
      using waiter_distance_decreases [OF law less.prems] by simp
    obtain k r where "k \<le> waiter_distance (ws_waiter (waiter_advance ops st))"
      "ws_waiter ((waiter_advance ops ^^ k) (waiter_advance ops st)) = WaitDone r"
      using less.hyps [OF dec waiter_advance_ok [OF less.prems(1)]] less.prems(2,3) by auto
    then show ?thesis using dec by (intro exI [of _ "Suc k"]) (auto simp: funpow_swap1)
  qed
qed

text \<open>
  C12: No wake-up is lost: however the producer's wait interleaves with deliveries and cancellation, once a
  delivery has been marked and notified the waiter is never left asleep and returns within four of its
  own steps; it returns \<open>Delivered\<close> only after a delivery and \<open>Cancelled\<close> only after cancellation.
\<close>

theorem delivery_waiter_never_stranded:
  assumes law: "notify_law ops" and run: "(wait_step ops)\<^sup>*\<^sup>* (wait_start n) st"
  shows "(ws_committed st \<and> ws_marking st = 0 \<longrightarrow>
      (\<exists>k \<le> 4. \<exists>r. ws_waiter ((waiter_advance ops ^^ k) st) = WaitDone r)) \<and>
    (ws_waiter st = WaitDone Delivered \<longrightarrow> ws_committed st) \<and>
    (ws_waiter st = WaitDone CancelledWait \<longrightarrow> ws_cancelled st)"
proof -
  have ok: "wait_ok ops st" using wait_run_ok [OF run] .
  have "waiter_distance (ws_waiter st) \<le> 4" by (cases "ws_waiter st" rule: waiter_distance.cases) auto
  then show ?thesis using waiter_returns [OF law ok] ok by (auto simp: wait_ok_def dest: order_trans)
qed

definition counting_notify :: "(nat, nat) notify_ops" where
  "counting_notify = \<lparr>no_notified = (\<lambda>n. n), no_notify_waiters = Suc, no_ready = (\<lambda>f n. f < n)\<rparr>"

lemma counting_notify_law: "notify_law counting_notify"
  by (simp add: notify_law_def counting_notify_def)

text \<open>The waiter falls asleep, an event is delivered, and the waiter returns.\<close>

definition sample_asleep :: "(nat, nat) wait_state" where
  "sample_asleep = (waiter_advance counting_notify ^^ 6) (wait_start 0)"

definition sample_woken :: "(nat, nat) wait_state" where
  "sample_woken = sample_asleep\<lparr>ws_committed := True, ws_marking := 0, ws_notify := 1\<rparr>"

theorem delivery_waiter_never_stranded_witness:
  "ws_waiter sample_asleep = WaitSuspended 0 \<and>
   (\<exists>k \<le> 4. \<exists>r. ws_waiter ((waiter_advance counting_notify ^^ k) sample_woken) = WaitDone r)"
proof -
  have asleep: "sample_asleep = (wait_start 0)\<lparr>ws_waiter := WaitSuspended 0\<rparr>"
    by (simp add: sample_asleep_def wait_start_def waiter_advance_def counting_notify_def eval_nat_numeral)
  have waits: "(wait_step counting_notify)\<^sup>*\<^sup>* st ((waiter_advance counting_notify ^^ k) st)" for k st
    by (induction k) (auto intro: rtranclp.rtrancl_into_rtrancl waits)
  have "(wait_step counting_notify)\<^sup>*\<^sup>* (wait_start 0) sample_asleep"
    unfolding sample_asleep_def by (rule waits)
  moreover have "wait_step counting_notify sample_asleep (sample_asleep\<lparr>ws_committed := True, ws_marking := 1\<rparr>)"
    using swaps [of counting_notify sample_asleep] by (simp add: asleep wait_start_def)
  moreover have "wait_step counting_notify (sample_asleep\<lparr>ws_committed := True, ws_marking := 1\<rparr>) sample_woken"
    using notifies [of "sample_asleep\<lparr>ws_committed := True, ws_marking := 1\<rparr>" counting_notify]
    by (simp add: asleep sample_woken_def wait_start_def counting_notify_def)
  ultimately have "(wait_step counting_notify)\<^sup>*\<^sup>* (wait_start 0) sample_woken"
    by (meson rtranclp.rtrancl_into_rtrancl)
  then show ?thesis
    using delivery_waiter_never_stranded [OF counting_notify_law, of 0 sample_woken]
    by (simp add: sample_woken_def) (simp add: asleep)
qed

end
