(* ===== verification/Crc32.thy ===== *)
theory Crc32
  imports "HOL-Library.Word"
begin

unbundle bit_operations_syntax

text \<open>
  The bitwise CRC-32 of \<open>src/crates/provider-kiro/src/event_stream.rs\<close> and the errors it detects.
\<close>

type_synonym byte = "8 word"

definition crc32_bit :: "32 word \<Rightarrow> 32 word" where
  "crc32_bit crc = (if crc AND 1 = 0 then drop_bit 1 crc else drop_bit 1 crc XOR 0xedb88320)"

fun crc32_shift :: "nat \<Rightarrow> 32 word \<Rightarrow> 32 word" where
  "crc32_shift 0 crc = crc"
| "crc32_shift (Suc n) crc = crc32_shift n (crc32_bit crc)"

definition crc32_byte :: "32 word \<Rightarrow> byte \<Rightarrow> 32 word" where
  "crc32_byte crc b = crc32_shift 8 (crc XOR ucast b)"

definition crc32 :: "byte list \<Rightarrow> 32 word" where
  "crc32 bs = NOT (foldl crc32_byte (NOT 0) bs)"

section \<open>The checksum\<close>

lemma crc32_top_bit: "bit (0xedb88320 :: 32 word) 31"
  by simp

lemma and_one_zero_iff: "(c :: 32 word) AND 1 = 0 \<longleftrightarrow> \<not> bit c 0"
  by (simp add: and_one_eq even_iff_mod_2_eq_zero bit_0)

lemma xor_right_cancel: "a XOR c = b XOR c \<longleftrightarrow> a = (b :: 'a::len word)"
  by (metis xor.assoc xor_self_eq xor.right_neutral)

lemma crc32_bit_inject:
  assumes "crc32_bit a = crc32_bit b"
  shows "a = b"
proof -
  have top: "bit (crc32_bit c) 31 \<longleftrightarrow> bit c 0" for c
    using crc32_top_bit bit_imp_le_length [of c 32] by (auto simp: crc32_bit_def and_one_zero_iff bit_drop_bit_eq bit_xor_iff)
  have low: "bit a 0 \<longleftrightarrow> bit b 0" using top [of a] top [of b] assms by simp
  have "drop_bit 1 a = drop_bit 1 b"
    using assms low by (auto simp: crc32_bit_def and_one_zero_iff xor_right_cancel split: if_splits)
  then have high: "bit a (Suc n) \<longleftrightarrow> bit b (Suc n)" for n
    by (metis bit_drop_bit_eq comp_apply plus_1_eq_Suc)
  show ?thesis
  proof (rule bit_word_eqI)
    fix n show "bit a n \<longleftrightarrow> bit b n" using low high by (cases n) auto
  qed
qed

lemma crc32_shift_inject: "crc32_shift n a = crc32_shift n b \<longleftrightarrow> a = b"
proof
  show "crc32_shift n a = crc32_shift n b \<Longrightarrow> a = b"
  proof (induction n arbitrary: a b)
    case (Suc n)
    have "crc32_bit a = crc32_bit b" using Suc.IH [of "crc32_bit a" "crc32_bit b"] Suc.prems by simp
    then show ?case by (rule crc32_bit_inject)
  qed simp
qed simp

lemma ucast_byte_inject: "(ucast b :: 32 word) = ucast b' \<longleftrightarrow> b = (b' :: byte)"
proof
  assume eq: "(ucast b :: 32 word) = ucast b'"
  show "b = b'"
  proof (rule bit_word_eqI)
    fix n assume "n < LENGTH(8)"
    then show "bit b n \<longleftrightarrow> bit b' n" using arg_cong [OF eq, of "\<lambda>w. bit w n"] by (simp add: bit_ucast_iff)
  qed
qed simp

lemma xor_left_cancel: "c XOR a = c XOR b \<longleftrightarrow> a = (b :: 'a::len word)"
  by (metis xor.commute xor_right_cancel)

lemma crc32_byte_inject:
  "crc32_byte a b = crc32_byte a' b \<longleftrightarrow> a = a'" "crc32_byte a b = crc32_byte a b' \<longleftrightarrow> b = b'"
  unfolding crc32_byte_def crc32_shift_inject xor_right_cancel xor_left_cancel ucast_byte_inject by (rule refl)+

lemma crc32_fold_inject: "foldl crc32_byte a bs = foldl crc32_byte a' bs \<longleftrightarrow> a = a'"
  by (induction bs arbitrary: a a') (simp_all add: crc32_byte_inject)

lemma crc32_one_byte: "b \<noteq> b' \<Longrightarrow> crc32 (xs @ b # ys) \<noteq> crc32 (xs @ b' # ys)"
  by (simp add: crc32_def crc32_fold_inject crc32_byte_inject)


lemma crc32_shift_8:
  "crc32_shift 8 c =
     crc32_bit (crc32_bit (crc32_bit (crc32_bit (crc32_bit (crc32_bit (crc32_bit (crc32_bit c)))))))"
  by (simp add: numeral_eq_Suc)

lemmas crc32_eval = crc32_def crc32_byte_def crc32_shift_8 crc32_bit_def

text \<open>The check value of the CRC-32 variant, as in the repository's unit test.\<close>

lemma crc32_check_value: "crc32 [49, 50, 51, 52, 53, 54, 55, 56, 57] = 0xcbf43926"
  by (simp add: crc32_eval)

end
