(* ===== verification/Kiro_Event_Stream.thy ===== *)
theory Kiro_Event_Stream
  imports Gateway_Prelude Crc32
begin

text \<open>
  The incremental AWS EventStream decoder of \<open>src/crates/provider-kiro/src/event_stream.rs\<close>: frames with
  two CRC-32 checksums and typed headers, split from a bounded buffer with bounded recovery.

  Bytes are \<open>8 word\<close>; a Rust string is the \<open>string\<close> of its UTF-8 bytes. Lengths and cursors are
  natural numbers: the buffer is at most 32 MiB, so no \<open>usize\<close> addition overflows.
\<close>

section \<open>Bytes\<close>

text \<open>\<open>from_be_bytes\<close> as a number.\<close>

definition be_nat :: "byte list \<Rightarrow> nat" where
  "be_nat bs = foldl (\<lambda>n b. n * 256 + unat b) 0 bs"

definition read_u32 :: "byte list \<Rightarrow> 32 word" where
  "read_u32 bs = of_nat (be_nat (take 4 bs))"

text \<open>Well-formed UTF-8 (the sequences \<open>std::str::from_utf8\<close> accepts), and the string.\<close>

definition continuation :: "byte \<Rightarrow> bool" where
  "continuation b \<longleftrightarrow> 0x80 \<le> b \<and> b \<le> 0xBF"

fun utf8_valid :: "byte list \<Rightarrow> bool" where
  "utf8_valid [] = True"
| "utf8_valid (a # bs) =
     (if a \<le> 0x7F then utf8_valid bs
      else if 0xC2 \<le> a \<and> a \<le> 0xDF then
        (case bs of b # bs' \<Rightarrow> continuation b \<and> utf8_valid bs' | _ \<Rightarrow> False)
      else if 0xE0 \<le> a \<and> a \<le> 0xEF then
        (case bs of
           b # c # bs' \<Rightarrow>
             continuation b \<and> (a = 0xE0 \<longrightarrow> 0xA0 \<le> b) \<and> (a = 0xED \<longrightarrow> b \<le> 0x9F) \<and> continuation c \<and> utf8_valid bs'
         | _ \<Rightarrow> False)
      else if 0xF0 \<le> a \<and> a \<le> 0xF4 then
        (case bs of
           b # c # d # bs' \<Rightarrow>
             continuation b \<and> (a = 0xF0 \<longrightarrow> 0x90 \<le> b) \<and> (a = 0xF4 \<longrightarrow> b \<le> 0x8F) \<and> continuation c \<and> continuation d \<and>
             utf8_valid bs'
         | _ \<Rightarrow> False)
      else False)"

definition string_of_bytes :: "byte list \<Rightarrow> string" where
  "string_of_bytes bs = map (\<lambda>b. char_of (unat b)) bs"

definition from_utf8 :: "byte list \<Rightarrow> string option" where
  "from_utf8 bs = (if utf8_valid bs then Some (string_of_bytes bs) else None)"

section \<open>Headers\<close>

datatype event_stream_error =
    InvalidFrameLength
  | InvalidHeaderLength
  | PreludeCrcMismatch
  | MessageCrcMismatch
  | InvalidHeaderName
  | InvalidHeaderType
  | InvalidHeaderValue
  | DuplicateHeader
  | BufferLimitExceeded
  | TruncatedFrame
  | TooManyErrors
  | DecoderStopped

datatype header_value =
    BoolTrue
  | BoolFalse
  | ByteValue int
  | Int16Value int
  | Int32Value int
  | Int64Value int
  | ByteArrayValue "byte list"
  | StringValue string
  | TimestampValue int
  | UuidValue "byte list"

fun header_as_str :: "header_value \<Rightarrow> string option" where
  "header_as_str (StringValue s) = Some s"
| "header_as_str _ = None"

type_synonym event_stream_headers = "(string, header_value) bmap"

definition headers_get_string :: "event_stream_headers \<Rightarrow> string \<Rightarrow> string option" where
  "headers_get_string hs name = Option.bind (bm_get hs name) header_as_str"

definition message_type :: "event_stream_headers \<Rightarrow> string option" where
  "message_type hs = headers_get_string hs '':message-type''"

definition event_type :: "event_stream_headers \<Rightarrow> string option" where
  "event_type hs = headers_get_string hs '':event-type''"

definition exception_type :: "event_stream_headers \<Rightarrow> string option" where
  "exception_type hs = headers_get_string hs '':exception-type''"

text \<open>Reading at a cursor: the byte_slice and the cursor after it.\<close>

definition read_exact :: "byte list \<Rightarrow> nat \<Rightarrow> nat \<Rightarrow> event_stream_error + byte list \<times> nat" where
  "read_exact bs cursor len =
     (if cursor + len \<le> length bs then Ok (take len (drop cursor bs), cursor + len) else Err InvalidHeaderValue)"

definition read_byte :: "byte list \<Rightarrow> nat \<Rightarrow> event_stream_error + byte \<times> nat" where
  "read_byte bs cursor =
     (case read_exact bs cursor 1 of Inl e \<Rightarrow> Err e | Inr (v, c) \<Rightarrow> Ok (v ! 0, c))"

definition read_i16 :: "byte list \<Rightarrow> nat \<Rightarrow> event_stream_error + int \<times> nat" where
  "read_i16 bs cursor =
     (case read_exact bs cursor 2 of Inl e \<Rightarrow> Err e | Inr (v, c) \<Rightarrow> Ok (sint (of_nat (be_nat v) :: 16 word), c))"

definition read_i32 :: "byte list \<Rightarrow> nat \<Rightarrow> event_stream_error + int \<times> nat" where
  "read_i32 bs cursor =
     (case read_exact bs cursor 4 of Inl e \<Rightarrow> Err e | Inr (v, c) \<Rightarrow> Ok (sint (of_nat (be_nat v) :: 32 word), c))"

definition read_i64 :: "byte list \<Rightarrow> nat \<Rightarrow> event_stream_error + int \<times> nat" where
  "read_i64 bs cursor =
     (case read_exact bs cursor 8 of Inl e \<Rightarrow> Err e | Inr (v, c) \<Rightarrow> Ok (sint (of_nat (be_nat v) :: 64 word), c))"

definition read_variable_bytes :: "byte list \<Rightarrow> nat \<Rightarrow> event_stream_error + byte list \<times> nat" where
  "read_variable_bytes bs cursor =
     (case read_exact bs cursor 2 of Inl e \<Rightarrow> Err e | Inr (v, c) \<Rightarrow> read_exact bs c (be_nat v))"

definition read_utf8 ::
  "byte list \<Rightarrow> nat \<Rightarrow> nat \<Rightarrow> event_stream_error \<Rightarrow> event_stream_error + string \<times> nat" where
  "read_utf8 bs cursor len err =
     (if cursor + len \<le> length bs
      then (case from_utf8 (take len (drop cursor bs)) of
              None \<Rightarrow> Err err
            | Some s \<Rightarrow> Ok (s, cursor + len))
      else Err err)"

definition map_value :: "('a \<Rightarrow> 'b) \<Rightarrow> 'e + 'a \<times> nat \<Rightarrow> 'e + 'b \<times> nat" where
  "map_value f r = (case r of Inl e \<Rightarrow> Err e | Inr (v, c) \<Rightarrow> Ok (f v, c))"

definition parse_header_value ::
  "byte list \<Rightarrow> nat \<Rightarrow> byte \<Rightarrow> event_stream_error + header_value \<times> nat" where
  "parse_header_value bs cursor t =
     (if t = 0 then Ok (BoolTrue, cursor)
      else if t = 1 then Ok (BoolFalse, cursor)
      else if t = 2 then map_value (\<lambda>b. ByteValue (sint b)) (read_byte bs cursor)
      else if t = 3 then map_value Int16Value (read_i16 bs cursor)
      else if t = 4 then map_value Int32Value (read_i32 bs cursor)
      else if t = 5 then map_value Int64Value (read_i64 bs cursor)
      else if t = 6 then map_value ByteArrayValue (read_variable_bytes bs cursor)
      else if t = 7 then
        (case read_variable_bytes bs cursor of
           Inl e \<Rightarrow> Err e
         | Inr (v, c) \<Rightarrow>
             (case from_utf8 v of None \<Rightarrow> Err InvalidHeaderValue | Some s \<Rightarrow> Ok (StringValue s, c)))
      else if t = 8 then map_value TimestampValue (read_i64 bs cursor)
      else if t = 9 then map_value UuidValue (read_exact bs cursor 16)
      else Err InvalidHeaderType)"

definition parse_header :: "byte list \<Rightarrow> nat \<Rightarrow> event_stream_error + (string \<times> header_value) \<times> nat" where
  "parse_header bs cursor =
     (case read_byte bs cursor of
        Inl e \<Rightarrow> Err e
      | Inr (n, c) \<Rightarrow>
          if n = 0 then Err InvalidHeaderName
          else
     (case read_utf8 bs c (unat n) InvalidHeaderName of
        Inl e \<Rightarrow> Err e
      | Inr (name, c) \<Rightarrow>
     (case read_byte bs c of
        Inl e \<Rightarrow> Err e
      | Inr (t, c) \<Rightarrow>
     (case parse_header_value bs c t of
        Inl e \<Rightarrow> Err e
      | Inr (v, c) \<Rightarrow> Ok ((name, v), c)))))"

lemma read_exact_Inr:
  "read_exact bs cursor n = Inr (v, c) \<longleftrightarrow> cursor + n \<le> length bs \<and> v = take n (drop cursor bs) \<and> c = cursor + n"
  by (auto simp: read_exact_def)

lemma reads_advance:
  "read_byte bs cursor = Inr (b, c) \<Longrightarrow> c = cursor + 1"
  "read_utf8 bs cursor n err = Inr (s, c) \<Longrightarrow> c = cursor + n"
  "parse_header_value bs cursor t = Inr (v, c) \<Longrightarrow> cursor \<le> c"
  by (auto simp: read_exact_Inr read_byte_def read_utf8_def parse_header_value_def map_value_def read_i16_def read_i32_def read_i64_def
      read_variable_bytes_def split: sum.splits prod.splits if_splits option.splits)

lemma parse_header_advances: "parse_header bs cursor = Inr (h, c) \<Longrightarrow> cursor < c"
  by (force simp: parse_header_def dest: reads_advance split: sum.splits prod.splits if_splits)

function parse_headers_loop ::
  "byte list \<Rightarrow> nat \<Rightarrow> event_stream_headers \<Rightarrow> event_stream_error + event_stream_headers" where
  "parse_headers_loop bs cursor headers =
     (if length bs \<le> cursor then Ok headers
      else
       (case parse_header bs cursor of
          Inl e \<Rightarrow> Err e
        | Inr ((name, v), c) \<Rightarrow>
            if bm_get headers name \<noteq> None then Err DuplicateHeader
            else parse_headers_loop bs c (bm_insert name v headers)))"
  by pat_completeness auto
termination
  by (relation "measure (\<lambda>(bs, cursor, headers). length bs - cursor)") (auto dest: parse_header_advances)

declare parse_headers_loop.simps [simp del]

definition parse_headers :: "byte list \<Rightarrow> event_stream_error + event_stream_headers" where
  "parse_headers bs = parse_headers_loop bs 0 []"

section \<open>The decoder\<close>

definition prelude_bytes :: nat where "prelude_bytes = 12"
definition message_crc_bytes :: nat where "message_crc_bytes = 4"
definition min_frame_bytes :: nat where "min_frame_bytes = prelude_bytes + message_crc_bytes"
definition max_frame_bytes :: nat where "max_frame_bytes = 16 * 1024 * 1024"
definition max_buffer_bytes :: nat where "max_buffer_bytes = max_frame_bytes * 2"
definition max_consecutive_errors :: nat where "max_consecutive_errors = 5"

lemmas decoder_bounds = prelude_bytes_def message_crc_bytes_def min_frame_bytes_def max_frame_bytes_def
  max_buffer_bytes_def max_consecutive_errors_def

record event_stream_frame =
  fr_headers :: event_stream_headers
  fr_payload :: "byte list"

record event_stream_decoder =
  dec_buffer :: "byte list"
  dec_consecutive_errors :: nat
  dec_stopped :: bool

definition decoder_new :: event_stream_decoder where
  "decoder_new = \<lparr>dec_buffer = [], dec_consecutive_errors = 0, dec_stopped = False\<rparr>"

record prelude =
  pr_total_length :: nat
  pr_headers_length :: nat

definition parse_prelude :: "byte list \<Rightarrow> event_stream_error + prelude" where
  "parse_prelude bs =
     (let total_length = unat (read_u32 (take 4 bs)); headers_length = unat (read_u32 (take 4 (drop 4 bs))) in
      if \<not> (min_frame_bytes \<le> total_length \<and> total_length \<le> max_frame_bytes) then Err InvalidFrameLength
      else if total_length - min_frame_bytes < headers_length then Err InvalidHeaderLength
      else if crc32 (take 8 bs) \<noteq> read_u32 (take 4 (drop 8 bs)) then Err PreludeCrcMismatch
      else Ok \<lparr>pr_total_length = total_length, pr_headers_length = headers_length\<rparr>)"

definition decoder_stop ::
  "event_stream_error \<Rightarrow> event_stream_decoder \<Rightarrow> (event_stream_error + 'a) \<times> event_stream_decoder" where
  "decoder_stop e d = (Err e, d\<lparr>dec_buffer := [], dec_stopped := True\<rparr>)"

definition decoder_recover ::
  "event_stream_error \<Rightarrow> event_stream_decoder \<Rightarrow> (event_stream_error + 'a) \<times> event_stream_decoder" where
  "decoder_recover e d =
     (let d' = d\<lparr>dec_consecutive_errors := dec_consecutive_errors d + 1\<rparr> in
      if max_consecutive_errors \<le> dec_consecutive_errors d' then decoder_stop TooManyErrors d' else (Err e, d'))"

definition decoder_discard :: "nat \<Rightarrow> event_stream_decoder \<Rightarrow> event_stream_decoder" where
  "decoder_discard n d = d\<lparr>dec_buffer := drop n (dec_buffer d)\<rparr>"

definition valid_prelude_at :: "byte list \<Rightarrow> nat \<Rightarrow> bool" where
  "valid_prelude_at bs start =
     (case parse_prelude (take prelude_bytes (drop start bs)) of Inl _ \<Rightarrow> False | Inr _ \<Rightarrow> True)"

definition resynchronize_prelude :: "event_stream_decoder \<Rightarrow> event_stream_decoder" where
  "resynchronize_prelude d =
     (let buffer = dec_buffer d; last_candidate = length buffer - prelude_bytes in
      case find (valid_prelude_at buffer) [1..<last_candidate + 1] of
        Some start \<Rightarrow> decoder_discard start d
      | None \<Rightarrow> decoder_discard (length buffer - (prelude_bytes - 1)) d)"

definition try_prelude ::
  "event_stream_decoder \<Rightarrow> (event_stream_error + prelude option) \<times> event_stream_decoder" where
  "try_prelude d =
     (if length (dec_buffer d) < prelude_bytes then (Ok None, d)
      else
       (case parse_prelude (take prelude_bytes (dec_buffer d)) of
          Inr p \<Rightarrow> (Ok (Some p), d)
        | Inl e \<Rightarrow> decoder_recover e (resynchronize_prelude d)))"

definition feed :: "byte list \<Rightarrow> event_stream_decoder \<Rightarrow> (event_stream_error + unit) \<times> event_stream_decoder" where
  "feed bs d =
     (if dec_stopped d then (Err DecoderStopped, d)
      else if max_buffer_bytes < length (dec_buffer d) + length bs then decoder_stop BufferLimitExceeded d
      else (Ok (), d\<lparr>dec_buffer := dec_buffer d @ bs\<rparr>))"

definition byte_slice :: "nat \<Rightarrow> nat \<Rightarrow> 'a list \<Rightarrow> 'a list" where
  "byte_slice a b xs = take (b - a) (drop a xs)"

definition decode_frame ::
  "prelude \<Rightarrow> event_stream_decoder \<Rightarrow> (event_stream_error + event_stream_frame option) \<times> event_stream_decoder" where
  "decode_frame p d =
     (let buffer = dec_buffer d; total_length = pr_total_length p; message_without_crc = total_length - message_crc_bytes;
          headers_end = prelude_bytes + pr_headers_length p in
      if length buffer < total_length then (Ok None, d)
      else if crc32 (take message_without_crc buffer) \<noteq> read_u32 (byte_slice message_without_crc total_length buffer)
      then decoder_recover MessageCrcMismatch (decoder_discard total_length d)
      else
       (case parse_headers (byte_slice prelude_bytes headers_end buffer) of
          Inl e \<Rightarrow> decoder_recover e (decoder_discard total_length d)
        | Inr headers \<Rightarrow>
            (Ok (Some \<lparr>fr_headers = headers, fr_payload = byte_slice headers_end message_without_crc buffer\<rparr>),
             (decoder_discard total_length d)\<lparr>dec_consecutive_errors := 0\<rparr>)))"

definition next_frame ::
  "event_stream_decoder \<Rightarrow> (event_stream_error + event_stream_frame option) \<times> event_stream_decoder" where
  "next_frame d =
     (if dec_stopped d then (Err DecoderStopped, d)
      else
       (case try_prelude d of
          (Inl e, d') \<Rightarrow> (Err e, d')
        | (Inr None, d') \<Rightarrow> (Ok None, d')
        | (Inr (Some p), d') \<Rightarrow> decode_frame p d'))"

definition finish :: "event_stream_decoder \<Rightarrow> (event_stream_error + unit) \<times> event_stream_decoder" where
  "finish d =
     (if dec_stopped d then (Err DecoderStopped, d)
      else if dec_buffer d = [] then (Ok (), d)
      else decoder_stop TruncatedFrame d)"

section \<open>Frames on the wire\<close>

text \<open>The encoding the decoder inverts, as the AWS EventStream format defines it.\<close>

fun be_bytes :: "nat \<Rightarrow> nat \<Rightarrow> byte list" where
  "be_bytes 0 n = []"
| "be_bytes (Suc k) n = be_bytes k (n div 256) @ [of_nat n]"

definition bytes_of_string :: "string \<Rightarrow> byte list" where
  "bytes_of_string s = map (\<lambda>c. of_nat (of_char c)) s"

definition signed_bytes :: "nat \<Rightarrow> int \<Rightarrow> byte list" where
  "signed_bytes k i = be_bytes k (nat (i mod 256 ^ k))"

fun encode_value :: "header_value \<Rightarrow> byte list" where
  "encode_value BoolTrue = [0]"
| "encode_value BoolFalse = [1]"
| "encode_value (ByteValue i) = 2 # signed_bytes 1 i"
| "encode_value (Int16Value i) = 3 # signed_bytes 2 i"
| "encode_value (Int32Value i) = 4 # signed_bytes 4 i"
| "encode_value (Int64Value i) = 5 # signed_bytes 8 i"
| "encode_value (ByteArrayValue bs) = 6 # be_bytes 2 (length bs) @ bs"
| "encode_value (StringValue s) = 7 # be_bytes 2 (length s) @ bytes_of_string s"
| "encode_value (TimestampValue i) = 8 # signed_bytes 8 i"
| "encode_value (UuidValue bs) = 9 # bs"

definition encode_header :: "string \<times> header_value \<Rightarrow> byte list" where
  "encode_header h = of_nat (length (fst h)) # bytes_of_string (fst h) @ encode_value (snd h)"

definition encode_headers :: "(string \<times> header_value) list \<Rightarrow> byte list" where
  "encode_headers hs = concat (map encode_header hs)"

definition encode_prelude :: "nat \<Rightarrow> nat \<Rightarrow> byte list" where
  "encode_prelude total_length headers =
     (let bs = be_bytes 4 total_length @ be_bytes 4 headers in bs @ be_bytes 4 (unat (crc32 bs)))"

definition frame_body :: "byte list \<Rightarrow> byte list \<Rightarrow> byte list" where
  "frame_body hs payload = encode_prelude (length hs + length payload + 16) (length hs) @ hs @ payload"

definition encode_raw :: "byte list \<Rightarrow> byte list \<Rightarrow> byte list" where
  "encode_raw hs payload = (let body = frame_body hs payload in body @ be_bytes 4 (unat (crc32 body)))"

definition encode_frame :: "(string \<times> header_value) list \<Rightarrow> byte list \<Rightarrow> byte list" where
  "encode_frame hs payload = encode_raw (encode_headers hs) payload"

fun value_ok :: "header_value \<Rightarrow> bool" where
  "value_ok (ByteValue i) \<longleftrightarrow> - (2 ^ 7) \<le> i \<and> i < 2 ^ 7"
| "value_ok (Int16Value i) \<longleftrightarrow> - (2 ^ 15) \<le> i \<and> i < 2 ^ 15"
| "value_ok (Int32Value i) \<longleftrightarrow> - (2 ^ 31) \<le> i \<and> i < 2 ^ 31"
| "value_ok (Int64Value i) \<longleftrightarrow> - (2 ^ 63) \<le> i \<and> i < 2 ^ 63"
| "value_ok (ByteArrayValue bs) \<longleftrightarrow> length bs < 2 ^ 16"
| "value_ok (StringValue s) \<longleftrightarrow> length s < 2 ^ 16 \<and> utf8_valid (bytes_of_string s)"
| "value_ok (TimestampValue i) \<longleftrightarrow> - (2 ^ 63) \<le> i \<and> i < 2 ^ 63"
| "value_ok (UuidValue bs) \<longleftrightarrow> length bs = 16"
| "value_ok _ \<longleftrightarrow> True"

definition header_ok :: "string \<times> header_value \<Rightarrow> bool" where
  "header_ok h \<longleftrightarrow> 0 < length (fst h) \<and> length (fst h) < 256 \<and> utf8_valid (bytes_of_string (fst h)) \<and> value_ok (snd h)"

definition frame_ok :: "(string \<times> header_value) list \<Rightarrow> byte list \<Rightarrow> bool" where
  "frame_ok hs payload \<longleftrightarrow>
     list_all header_ok hs \<and> distinct (map fst hs) \<and> length (encode_headers hs) + length payload + 16 \<le> max_frame_bytes"

section \<open>Reading what was encoded\<close>

lemma be_nat_Nil [simp]: "be_nat [] = 0"
  by (simp add: be_nat_def)

lemma be_nat_snoc [simp]: "be_nat (bs @ [b]) = be_nat bs * 256 + unat b"
  by (simp add: be_nat_def)

lemma length_be_bytes [simp]: "length (be_bytes k n) = k"
  by (induction k arbitrary: n) auto

lemma unat_of_nat_byte: "unat (of_nat n :: byte) = n mod 256"
  by (simp add: unat_of_nat)

lemma be_nat_be_bytes: "be_nat (be_bytes k n) = n mod 256 ^ k"
proof (induction k arbitrary: n)
  case (Suc k)
  have "be_nat (be_bytes (Suc k) n) = (n div 256 mod 256 ^ k) * 256 + n mod 256"
    using Suc.IH by (simp add: unat_of_nat_byte)
  also have "\<dots> = n mod (256 * 256 ^ k)" by (simp add: mod_mult2_eq)
  finally show ?case by simp
qed simp

lemma be_nat_less: "be_nat bs < 256 ^ length bs"
proof (induction bs rule: rev_induct)
  case (snoc b bs)
  have "unat b < 256" using unsigned_less [of b, where 'a = nat] by simp
  then show ?case using snoc by simp
qed simp

lemma read_u32_be_bytes [simp]: "n < 2 ^ 32 \<Longrightarrow> read_u32 (be_bytes 4 n) = of_nat n"
  by (simp add: read_u32_def be_nat_be_bytes)

lemma unat_read_u32: "unat (read_u32 bs) = be_nat (take 4 bs)"
proof -
  have "be_nat (take 4 bs) < 256 ^ length (take 4 bs)" by (rule be_nat_less)
  also have "\<dots> \<le> 256 ^ 4" by (rule power_increasing) simp_all
  finally show ?thesis by (simp add: read_u32_def unat_of_nat)
qed

lemma bytes_of_string_inverse [simp]: "string_of_bytes (bytes_of_string s) = s"
  by (simp add: string_of_bytes_def bytes_of_string_def o_def unat_of_nat_byte map_idI)

lemma length_bytes_of_string [simp]: "length (bytes_of_string s) = length s"
  by (simp add: bytes_of_string_def)

lemma sint_signed_bytes:
  assumes "256 ^ k = (2::int) ^ LENGTH('a::len)" "- (2 ^ (LENGTH('a) - 1)) \<le> i" "i < 2 ^ (LENGTH('a) - 1)"
  shows "sint (of_nat (be_nat (signed_bytes k i)) :: 'a word) = i"
proof -
  have "int (be_nat (signed_bytes k i)) = i mod 256 ^ k mod 256 ^ k"
    by (simp add: signed_bytes_def be_nat_be_bytes zmod_int nat_power_eq)
  then have "(of_nat (be_nat (signed_bytes k i)) :: 'a word) = of_int (i mod 2 ^ LENGTH('a))"
    using assms(1) by (metis mod_mod_trivial of_int_of_nat_eq)
  also have "\<dots> = of_int i" by (simp add: word_of_int_eq_iff take_bit_eq_mod)
  finally show ?thesis using assms(2,3) by (simp add: signed_of_int signed_take_bit_int_eq_self)
qed

lemma length_signed_bytes [simp]: "length (signed_bytes k i) = k"
  by (simp add: signed_bytes_def)

text \<open>Reading at the start of \<open>x\<close> within \<open>pre @ x @ post\<close>.\<close>

lemma read_exact_at: "n = length x \<Longrightarrow> read_exact (pre @ x @ post) (length pre) n = Inr (x, length pre + n)"
  by (simp add: read_exact_def)

lemma read_byte_at: "read_byte (pre @ b # post) (length pre) = Inr (b, length pre + 1)"
  using read_exact_at [of 1 "[b]" pre post] by (simp add: read_byte_def)

lemma read_variable_at:
  assumes "length x < 2 ^ 16"
  shows "read_variable_bytes (pre @ be_bytes 2 (length x) @ x @ post) (length pre) = Inr (x, length pre + 2 + length x)"
  using read_exact_at [of 2 "be_bytes 2 (length x)" pre "x @ post"]
    read_exact_at [of "length x" x "pre @ be_bytes 2 (length x)" post] assms
  by (simp add: read_variable_bytes_def be_nat_be_bytes)

lemma parse_header_value_at:
  assumes "value_ok v" "encode_value v = t # x"
  shows "parse_header_value (pre @ x @ post) (length pre) t = Inr (v, length pre + length x)"
proof -
  note at = read_exact_at [of _ x pre post]
  note signed = sint_signed_bytes [where 'a = 8] sint_signed_bytes [where 'a = 16] sint_signed_bytes [where 'a = 32]
    sint_signed_bytes [where 'a = 64]
  show ?thesis
  proof (cases v)
    case (ByteArrayValue bs)
    then show ?thesis using assms read_variable_at [of bs pre post]
      by (auto simp: parse_header_value_def map_value_def)
  next
    case (StringValue s)
    then show ?thesis using assms read_variable_at [of "bytes_of_string s" pre post]
      by (auto simp: parse_header_value_def from_utf8_def)
  next
    case (ByteValue i)
    then have x: "x = signed_bytes 1 i" and t: "t = 2" using assms(2) by simp_all
    have "be_nat x = unat (x ! 0)" using arg_cong [OF x, of length] by (cases x) (auto simp: be_nat_def)
    then have "sint (x ! 0) = i" using sint_signed_bytes [where 'a = 8, of 1 i] assms(1) x ByteValue by simp
    then show ?thesis using at [of 1] x t ByteValue by (simp add: parse_header_value_def map_value_def read_byte_def)
  qed (use assms at signed in \<open>auto simp: parse_header_value_def map_value_def read_i16_def read_i32_def read_i64_def\<close>)
qed

lemma encode_value_Cons: "\<exists>t x. encode_value v = t # x"
  by (cases v) auto

lemma parse_header_at:
  assumes "header_ok h"
  shows "parse_header (pre @ encode_header h @ post) (length pre) = Inr (h, length pre + length (encode_header h))"
proof -
  obtain name v where h: "h = (name, v)" by (cases h)
  obtain t x where t: "encode_value v = t # x" using encode_value_Cons by blast
  let ?n = "of_nat (length name) :: byte" and ?nb = "bytes_of_string name"
  have n: "unat ?n = length name" "?n \<noteq> 0" using assms h by (auto simp: header_ok_def unat_of_nat_byte unat_eq_zero [symmetric])
  have 1: "read_byte (pre @ encode_header h @ post) (length pre) = Inr (?n, length pre + 1)"
    using read_byte_at [of pre ?n] h by (simp add: encode_header_def)
  have 2: "read_utf8 (pre @ encode_header h @ post) (length pre + 1) (length name) InvalidHeaderName = Inr (name, length pre + 1 + length name)"
    using assms h by (simp add: read_utf8_def encode_header_def from_utf8_def header_ok_def)
  have 3: "read_byte (pre @ encode_header h @ post) (length pre + 1 + length name) = Inr (t, length pre + 1 + length name + 1)"
    using read_byte_at [of "pre @ ?n # ?nb" t "x @ post"] h t by (simp add: encode_header_def)
  have 4: "parse_header_value (pre @ encode_header h @ post) (length pre + 1 + length name + 1) t =
      Inr (v, length pre + 1 + length name + 1 + length x)"
    using parse_header_value_at [of v t x "pre @ ?n # ?nb @ [t]" post] assms h t
    by (simp add: encode_header_def header_ok_def)
  show ?thesis using 1 2 3 4 n h t by (simp add: parse_header_def encode_header_def)
qed

definition headers_of :: "(string \<times> header_value) list \<Rightarrow> event_stream_headers \<Rightarrow> event_stream_headers" where
  "headers_of hs m = fold (\<lambda>h. bm_insert (fst h) (snd h)) hs m"

lemma headers_of_simps [simp]:
  "headers_of [] m = m" "headers_of (h # hs) m = headers_of hs (bm_insert (fst h) (snd h) m)"
  by (simp_all add: headers_of_def)

lemma headers_of_get:
  "distinct (map fst hs) \<Longrightarrow> bm_get (headers_of hs m) k = (case map_of hs k of None \<Rightarrow> bm_get m k | Some v \<Rightarrow> Some v)"
proof (induction hs arbitrary: m)
  case (Cons h hs)
  have "k = fst h \<Longrightarrow> map_of hs k = None" using Cons.prems by (auto simp: map_of_eq_None_iff)
  then show ?case using Cons by (cases h) (auto simp: bm_get_insert split: option.splits)
qed simp

lemma encode_header_nonempty: "0 < length (encode_header h)"
  by (simp add: encode_header_def)

lemma parse_headers_loop_at:
  "list_all header_ok hs \<Longrightarrow> distinct (map fst hs) \<Longrightarrow> (\<forall>h \<in> set hs. bm_get m (fst h) = None) \<Longrightarrow>
     parse_headers_loop (pre @ encode_headers hs) (length pre) m = Inr (headers_of hs m)"
proof (induction hs arbitrary: pre m)
  case Nil
  then show ?case by (simp add: parse_headers_loop.simps encode_headers_def)
next
  case (Cons h hs)
  have fresh: "\<forall>k \<in> set hs. bm_get (bm_insert (fst h) (snd h) m) (fst k) = None"
    using Cons.prems(2,3) by (auto simp: bm_get_insert rev_image_eqI)
  have "parse_header (pre @ encode_headers (h # hs)) (length pre) = Inr (h, length pre + length (encode_header h))"
    using parse_header_at [of h pre "encode_headers hs"] Cons.prems(1) by (simp add: encode_headers_def)
  moreover have "parse_headers_loop ((pre @ encode_header h) @ encode_headers hs) (length (pre @ encode_header h))
      (bm_insert (fst h) (snd h) m) = Inr (headers_of hs (bm_insert (fst h) (snd h) m))"
    using Cons.prems fresh by (intro Cons.IH) simp_all
  moreover have "length pre < length (pre @ encode_headers (h # hs))"
    using encode_header_nonempty [of h] by (simp add: encode_headers_def)
  ultimately show ?case using Cons.prems(3)
    unfolding parse_headers_loop.simps [of "pre @ encode_headers (h # hs)" "length pre" m]
    by (cases h) (auto simp: encode_headers_def)
qed

lemma parse_headers_encode:
  "list_all header_ok hs \<Longrightarrow> distinct (map fst hs) \<Longrightarrow> parse_headers (encode_headers hs) = Inr (headers_of hs [])"
  using parse_headers_loop_at [of hs "[]" "[]"] by (simp add: parse_headers_def)

lemma read_u32_append: "length xs = 4 \<Longrightarrow> read_u32 (xs @ ys) = read_u32 xs"
  by (simp add: read_u32_def)

lemma unat_crc32_less: "unat (w :: 32 word) < 2 ^ 32"
  using unsigned_less [of w, where 'a = nat] by simp

lemma length_encode_prelude [simp]: "length (encode_prelude t h) = 12"
  by (simp add: encode_prelude_def Let_def)

lemma parse_encode_prelude:
  assumes "min_frame_bytes \<le> t" "t \<le> max_frame_bytes" "h \<le> t - min_frame_bytes"
  shows "parse_prelude (encode_prelude t h) = Inr \<lparr>pr_total_length = t, pr_headers_length = h\<rparr>"
proof -
  have b: "t < 2 ^ 32" "h < 2 ^ 32" using assms by (auto simp: decoder_bounds)
  then have "unat (read_u32 (be_bytes 4 t)) = t" "unat (read_u32 (be_bytes 4 h)) = h"
    by (simp_all add: unat_read_u32 be_nat_be_bytes unat_of_nat)
  moreover have "read_u32 (be_bytes 4 (unat w)) = w" for w :: "32 word"
    using unat_crc32_less [of w] by simp
  ultimately show ?thesis using assms
    by (simp add: parse_prelude_def encode_prelude_def Let_def)
qed

lemma length_frame_body [simp]: "length (frame_body hs payload) = length hs + length payload + 12"
  by (simp add: frame_body_def)

lemma length_encode_raw [simp]: "length (encode_raw hs payload) = length hs + length payload + 16"
  by (simp add: encode_raw_def Let_def)

lemma byte_slice_mid: "a = length xs \<Longrightarrow> b = length xs + length ys \<Longrightarrow> byte_slice a b (xs @ ys @ zs) = ys"
  by (simp add: byte_slice_def)

text \<open>A frame at the head of the buffer, whatever its header bytes and its last four bytes are.\<close>

lemma next_frame_at:
  assumes d: "\<not> dec_stopped d" "dec_buffer d = frame_body hs payload @ crc @ rest" "length crc = 4"
    and len: "length hs + length payload + 16 \<le> max_frame_bytes"
  shows "next_frame d =
    (if crc32 (frame_body hs payload) \<noteq> read_u32 crc
     then decoder_recover MessageCrcMismatch (d\<lparr>dec_buffer := rest\<rparr>)
     else
      (case parse_headers hs of
         Inl e \<Rightarrow> decoder_recover e (d\<lparr>dec_buffer := rest\<rparr>)
       | Inr headers \<Rightarrow> (Inr (Some \<lparr>fr_headers = headers, fr_payload = payload\<rparr>),
           d\<lparr>dec_buffer := rest, dec_consecutive_errors := 0\<rparr>)))"
proof -
  let ?t = "length hs + length payload + 16"
  let ?p = "\<lparr>pr_total_length = ?t, pr_headers_length = length hs\<rparr>"
  have buf: "dec_buffer d = encode_prelude ?t (length hs) @ hs @ payload @ crc @ rest"
    using d(2) by (simp add: frame_body_def)
  have "parse_prelude (take 12 (dec_buffer d)) = Inr ?p"
    using parse_encode_prelude [of ?t "length hs"] len buf by (simp add: min_frame_bytes_def prelude_bytes_def message_crc_bytes_def)
  then have "try_prelude d = (Inr (Some ?p), d)" using buf by (simp add: try_prelude_def prelude_bytes_def)
  then have nf: "next_frame d = decode_frame ?p d" using d(1) by (simp add: next_frame_def)
  have "byte_slice (?t - 4) ?t (dec_buffer d) = crc"
    using byte_slice_mid [of "?t - 4" "frame_body hs payload" ?t crc rest] d(2,3) by simp
  moreover have "byte_slice 12 (12 + length hs) (dec_buffer d) = hs"
    using byte_slice_mid [of 12 "encode_prelude ?t (length hs)" "12 + length hs" hs "payload @ crc @ rest"] buf by simp
  moreover have "byte_slice (12 + length hs) (?t - 4) (dec_buffer d) = payload"
    using byte_slice_mid [of "12 + length hs" "encode_prelude ?t (length hs) @ hs" "?t - 4" payload "crc @ rest"] buf by simp
  moreover have "take (?t - 4) (dec_buffer d) = frame_body hs payload" "drop ?t (dec_buffer d) = rest" "?t \<le> length (dec_buffer d)"
    using d(2,3) by simp_all
  ultimately show ?thesis unfolding nf
    by (cases "parse_headers hs")
      (simp_all add: decode_frame_def Let_def prelude_bytes_def message_crc_bytes_def decoder_discard_def)
qed

lemma next_frame_encoded:
  assumes "\<not> dec_stopped d" "dec_buffer d = encode_frame hs payload @ rest" "frame_ok hs payload"
  shows "next_frame d = (Inr (Some \<lparr>fr_headers = headers_of hs [], fr_payload = payload\<rparr>),
    d\<lparr>dec_buffer := rest, dec_consecutive_errors := 0\<rparr>)"
proof -
  let ?body = "frame_body (encode_headers hs) payload"
  have "dec_buffer d = ?body @ be_bytes 4 (unat (crc32 ?body)) @ rest"
    using assms(2) by (simp add: encode_frame_def encode_raw_def Let_def)
  moreover have "read_u32 (be_bytes 4 (unat (crc32 ?body))) = crc32 ?body"
    using unat_crc32_less [of "crc32 ?body"] by simp
  ultimately show ?thesis
    using next_frame_at [of d "encode_headers hs" payload _ rest] assms parse_headers_encode [of hs]
    by (simp add: frame_ok_def)
qed

end
