(* ===== verification/Kiro_Decoder.thy ===== *)
theory Kiro_Decoder
  imports Kiro_Event_Stream
begin

text \<open>
  Properties of the EventStream decoder: what it returns is on the wire, what is on the wire it returns
  however the bytes are cut into chunks, single corrupted bytes are detected, and recovery is bounded.
\<close>

section \<open>Steps of the decoder\<close>

lemma be_bytes_be_nat: "be_bytes (length bs) (be_nat bs) = bs"
proof (induction bs rule: rev_induct)
  case (snoc b bs)
  have "unat b < 256" using unsigned_less [of b, where 'a = nat] by simp
  then have "(be_nat bs * 256 + unat b) div 256 = be_nat bs" by simp
  moreover have "(of_nat (be_nat bs * 256 + unat b) :: byte) = b"
    using \<open>unat b < 256\<close> by (simp only: word_unat_eq_iff unat_of_nat_byte) simp
  ultimately show ?case using snoc by simp
qed simp

lemma be_bytes_read_u32: "length bs = 4 \<Longrightarrow> be_bytes 4 (unat (read_u32 bs)) = bs"
  using be_bytes_be_nat [of bs] by (simp add: unat_read_u32)

lemma parse_prelude_Inr:
  assumes len: "length bs = 12" and p: "parse_prelude bs = Inr p"
  shows "bs = encode_prelude (pr_total_length p) (pr_headers_length p)"
    and "16 \<le> pr_total_length p" "pr_total_length p \<le> max_frame_bytes" "pr_headers_length p \<le> pr_total_length p - 16"
proof -
  let ?a = "take 4 bs" and ?b = "take 4 (drop 4 bs)" and ?c = "take 4 (drop 8 bs)"
  have l: "length ?a = 4" "length ?b = 4" "length ?c = 4" using len by simp_all
  have "bs = ?a @ ?b @ drop 4 (drop 4 bs)" by (simp only: append_take_drop_id)
  then have "bs = ?a @ ?b @ ?c" using len by simp
  moreover have "take 8 bs = ?a @ ?b" using take_add [of 4 4 bs] by simp
  moreover have "p = \<lparr>pr_total_length = unat (read_u32 ?a), pr_headers_length = unat (read_u32 ?b)\<rparr>"
    "crc32 (take 8 bs) = read_u32 ?c"
    using p by (auto simp: parse_prelude_def Let_def split: if_splits)
  ultimately show "bs = encode_prelude (pr_total_length p) (pr_headers_length p)"
    using be_bytes_read_u32 [OF l(1)] be_bytes_read_u32 [OF l(2)] be_bytes_read_u32 [OF l(3)]
    by (simp add: encode_prelude_def Let_def)
  show "16 \<le> pr_total_length p" "pr_total_length p \<le> max_frame_bytes" "pr_headers_length p \<le> pr_total_length p - 16"
    using p by (auto simp: parse_prelude_def Let_def min_frame_bytes_def prelude_bytes_def message_crc_bytes_def
        split: if_splits)
qed

text \<open>A buffer whose prelude is valid and whose frame is complete splits into the parts of the frame.\<close>

lemma frame_parts:
  assumes p: "parse_prelude (take 12 buf) = Inr p" "12 \<le> length buf" "pr_total_length p \<le> length buf"
  obtains hs payload crc rest where "buf = frame_body hs payload @ crc @ rest" "length crc = 4"
    "length hs = pr_headers_length p" "length hs + length payload + 16 = pr_total_length p"
    "length hs + length payload + 16 \<le> max_frame_bytes"
proof -
  let ?t = "pr_total_length p" and ?h = "pr_headers_length p"
  note pr = parse_prelude_Inr [OF _ p(1)]
  have b: "take 12 buf = encode_prelude ?t ?h" "16 \<le> ?t" "?t \<le> max_frame_bytes" "?h \<le> ?t - 16" using pr p(2) by simp_all
  define x y z where "x = drop 12 buf" and "y = drop ?h x" and "z = drop (?t - 16 - ?h) y"
  have "buf = take 12 buf @ take ?h x @ take (?t - 16 - ?h) y @ take 4 z @ drop 4 z"
    unfolding x_def y_def z_def by (simp only: append_take_drop_id)
  moreover have len: "length (take ?h x) = ?h" "length (take (?t - 16 - ?h) y) = ?t - 16 - ?h" "length (take 4 z) = 4"
    using b p(3) by (simp_all add: x_def y_def z_def)
  moreover have "?t = length (take ?h x) + length (take (?t - 16 - ?h) y) + 16" using len b by simp
  ultimately have "buf = frame_body (take ?h x) (take (?t - 16 - ?h) y) @ take 4 z @ drop 4 z"
    using b(1) by (simp add: frame_body_def)
  then show thesis using that [of "take ?h x" "take (?t - 16 - ?h) y" "take 4 z" "drop 4 z"] len b by simp
qed

lemma next_frame_cases:
  assumes nf: "next_frame d = (r, d')"
  obtains (stopped) "dec_stopped d" "r = Inl DecoderStopped" "d' = d"
  | (more) "\<not> dec_stopped d" "r = Inr None" "d' = d"
      "length (dec_buffer d) < 12 \<or> (\<exists>p. parse_prelude (take 12 (dec_buffer d)) = Inr p \<and> length (dec_buffer d) < pr_total_length p)"
  | (resync) e where "\<not> dec_stopped d" "12 \<le> length (dec_buffer d)" "parse_prelude (take 12 (dec_buffer d)) = Inl e"
      "(r, d') = decoder_recover e (resynchronize_prelude d)"
  | (bad_frame) e hs payload crc rest where "\<not> dec_stopped d" "dec_buffer d = frame_body hs payload @ crc @ rest" "length crc = 4"
      "length hs + length payload + 16 \<le> max_frame_bytes"
      "if crc32 (frame_body hs payload) \<noteq> read_u32 crc then e = MessageCrcMismatch else parse_headers hs = Inl e"
      "(r, d') = decoder_recover e (d\<lparr>dec_buffer := rest\<rparr>)"
  | (frame) hs payload crc rest headers where "\<not> dec_stopped d" "dec_buffer d = frame_body hs payload @ crc @ rest" "length crc = 4"
      "length hs + length payload + 16 \<le> max_frame_bytes"
      "crc32 (frame_body hs payload) = read_u32 crc" "parse_headers hs = Inr headers"
      "r = Inr (Some \<lparr>fr_headers = headers, fr_payload = payload\<rparr>)" "d' = d\<lparr>dec_buffer := rest, dec_consecutive_errors := 0\<rparr>"
proof (cases "dec_stopped d")
  case True
  then show thesis using stopped nf by (simp add: next_frame_def)
next
  case live: False
  show thesis
  proof (cases "length (dec_buffer d) < 12")
    case True
    then show thesis using more live nf by (simp add: next_frame_def try_prelude_def prelude_bytes_def)
  next
    case len: False
    show thesis
    proof (cases "parse_prelude (take 12 (dec_buffer d))")
      case (Inl e)
      then have "(r, d') = decoder_recover e (resynchronize_prelude d)"
        using nf live len by (auto simp: next_frame_def try_prelude_def prelude_bytes_def decoder_recover_def decoder_stop_def
            Let_def split: if_splits)
      then show thesis using resync live len Inl by simp
    next
      case (Inr p)
      show thesis
      proof (cases "length (dec_buffer d) < pr_total_length p")
        case True
        then show thesis using more live nf Inr len
          by (simp add: next_frame_def try_prelude_def prelude_bytes_def decode_frame_def Let_def)
      next
        case False
        then obtain hs payload crc rest where f: "dec_buffer d = frame_body hs payload @ crc @ rest" "length crc = 4"
          "length hs + length payload + 16 \<le> max_frame_bytes"
          using frame_parts [OF Inr] len by (metis not_less)
        note eq = next_frame_at [OF live f]
        show thesis
        proof (cases "parse_headers hs")
          case (Inl e)
          then show thesis using bad_frame [OF live f] eq nf by (auto split: if_splits)
        next
          case (Inr headers)
          then show thesis using bad_frame [OF live f] frame [OF live f] eq nf by (auto split: if_splits)
        qed
      qed
    qed
  qed
qed

section \<open>Invariant and progress\<close>

definition decoder_ok :: "event_stream_decoder \<Rightarrow> bool" where
  "decoder_ok d \<longleftrightarrow>
     length (dec_buffer d) \<le> max_buffer_bytes \<and>
     (if dec_stopped d then dec_buffer d = [] else dec_consecutive_errors d < max_consecutive_errors)"

lemma decoder_new_ok: "decoder_ok decoder_new"
  by (simp add: decoder_ok_def decoder_new_def max_consecutive_errors_def)

lemma feed_ok: "decoder_ok d \<Longrightarrow> decoder_ok (snd (feed bs d))"
  by (auto simp: decoder_ok_def feed_def decoder_stop_def)

lemma finish_ok: "decoder_ok d \<Longrightarrow> decoder_ok (snd (finish d))"
  by (auto simp: decoder_ok_def finish_def decoder_stop_def)

text \<open>What resynchronisation keeps: everything from the first later position with a valid prelude on.\<close>

lemma find_upt_Some:
  "find P [a..<b] = Some k \<longleftrightarrow> a \<le> k \<and> k < b \<and> P k \<and> (\<forall>i. a \<le> i \<and> i < k \<longrightarrow> \<not> P i)"
proof
  assume "find P [a..<b] = Some k"
  then obtain i where i: "i < b - a" "P (a + i)" "k = a + i" "\<forall>j<i. \<not> P (a + j)"
    by (auto simp: find_Some_iff)
  then have "\<not> P j" if "a \<le> j" "j < k" for j using that by (metis add_diff_inverse_nat add_less_cancel_left not_less)
  then show "a \<le> k \<and> k < b \<and> P k \<and> (\<forall>i. a \<le> i \<and> i < k \<longrightarrow> \<not> P i)" using i by auto
next
  assume k: "a \<le> k \<and> k < b \<and> P k \<and> (\<forall>i. a \<le> i \<and> i < k \<longrightarrow> \<not> P i)"
  then show "find P [a..<b] = Some k" by (auto simp: find_Some_iff intro!: exI [of _ "k - a"])
qed

lemma resynchronize_keeps:
  assumes "12 \<le> length (dec_buffer d)"
  obtains k where "resynchronize_prelude d = d\<lparr>dec_buffer := drop k (dec_buffer d)\<rparr>" "1 \<le> k" "k \<le> length (dec_buffer d)"
    "\<forall>i. 1 \<le> i \<and> i < k \<and> i + 12 \<le> length (dec_buffer d) \<longrightarrow> \<not> valid_prelude_at (dec_buffer d) i"
    "valid_prelude_at (dec_buffer d) k \<and> k + 12 \<le> length (dec_buffer d) \<or> k + 11 = length (dec_buffer d)"
proof (cases "find (valid_prelude_at (dec_buffer d)) [1..<length (dec_buffer d) - 12 + 1]")
  case None
  have none: "\<not> valid_prelude_at (dec_buffer d) i" if "1 \<le> i" "i + 12 \<le> length (dec_buffer d)" for i
    using None that by (auto simp: find_None_iff simp del: upt_Suc)
  show thesis
  proof (rule that [of "length (dec_buffer d) - 11"])
    show "resynchronize_prelude d = d\<lparr>dec_buffer := drop (length (dec_buffer d) - 11) (dec_buffer d)\<rparr>"
      using None by (simp add: resynchronize_prelude_def prelude_bytes_def Let_def decoder_discard_def)
  qed (use none assms in auto)
next
  case (Some k)
  show thesis
  proof (rule that [of k])
    show "resynchronize_prelude d = d\<lparr>dec_buffer := drop k (dec_buffer d)\<rparr>"
      using Some by (simp add: resynchronize_prelude_def prelude_bytes_def Let_def decoder_discard_def)
  qed (use Some [unfolded find_upt_Some] assms in auto)
qed

text \<open>After an error the decoder has stopped, or has dropped bytes and counted the error.\<close>

definition recovers :: "event_stream_decoder \<Rightarrow> event_stream_error \<Rightarrow> event_stream_decoder \<Rightarrow> bool" where
  "recovers d e d' \<longleftrightarrow>
     (if dec_consecutive_errors d + 1 < max_consecutive_errors
      then \<not> dec_stopped d' \<and> dec_consecutive_errors d' = dec_consecutive_errors d + 1 \<and>
        (\<exists>k. 1 \<le> k \<and> k \<le> length (dec_buffer d) \<and> dec_buffer d' = drop k (dec_buffer d))
      else e = TooManyErrors \<and> dec_stopped d' \<and> dec_buffer d' = [])"

lemma decoder_recover_recovers:
  assumes "(Inl e, d') = (decoder_recover x (d\<lparr>dec_buffer := drop k (dec_buffer d)\<rparr>) :: (_ + 'a) \<times> _)"
    "\<not> dec_stopped d" "1 \<le> k" "k \<le> length (dec_buffer d)"
  shows "recovers d e d'"
  using assms by (auto simp: recovers_def decoder_recover_def decoder_stop_def Let_def split: if_splits)

lemma decoder_recover_Inl: "\<exists>e d'. decoder_recover x d = (Inl e, d')"
  by (simp add: decoder_recover_def decoder_stop_def Let_def)

lemma next_frame_error:
  assumes nf: "next_frame d = (Inl e, d')" and live: "\<not> dec_stopped d"
  shows "recovers d e d'"
  using nf
proof (cases rule: next_frame_cases)
  case (resync x)
  then obtain k where "resynchronize_prelude d = d\<lparr>dec_buffer := drop k (dec_buffer d)\<rparr>" "1 \<le> k" "k \<le> length (dec_buffer d)"
    using resynchronize_keeps by metis
  then show ?thesis using decoder_recover_recovers resync live by metis
next
  case (bad_frame x hs payload crc rest)
  have "d\<lparr>dec_buffer := rest\<rparr> = d\<lparr>dec_buffer := drop (length hs + length payload + 16) (dec_buffer d)\<rparr>"
    using bad_frame(2,3) by simp
  moreover have "length hs + length payload + 16 \<le> length (dec_buffer d)" using bad_frame(2,3) by simp
  ultimately show ?thesis using decoder_recover_recovers [of e d' x "length hs + length payload + 16" d] bad_frame live by simp
qed (use live in auto)

lemma next_frame_shrinks:
  assumes "next_frame d = (Inr (Some f), d')"
  shows "length (dec_buffer d') + 16 \<le> length (dec_buffer d)"
  using assms
proof (cases rule: next_frame_cases)
  case (resync e)
  then show ?thesis using decoder_recover_Inl by (metis Inl_Inr_False Pair_inject)
next
  case (bad_frame e)
  then show ?thesis using decoder_recover_Inl by (metis Inl_Inr_False Pair_inject)
qed auto

lemma next_frame_ok:
  assumes "decoder_ok d" shows "decoder_ok (snd (next_frame d))"
proof -
  obtain r d' where nf: "next_frame d = (r, d')" by fastforce
  then show ?thesis
  proof (cases rule: next_frame_cases)
    case (frame hs payload crc rest headers)
    then show ?thesis using assms nf by (auto simp: decoder_ok_def max_consecutive_errors_def)
  next
    case (resync x)
    then obtain e where "r = Inl e" using decoder_recover_Inl by (metis Pair_inject)
    then show ?thesis using next_frame_error [of d e d'] nf resync(1) assms
      by (auto simp: decoder_ok_def recovers_def split: if_splits)
  next
    case (bad_frame x)
    then obtain e where "r = Inl e" using decoder_recover_Inl by (metis Pair_inject)
    then show ?thesis using next_frame_error [of d e d'] nf bad_frame(1) assms
      by (auto simp: decoder_ok_def recovers_def split: if_splits)
  qed (use assms nf in auto)
qed

section \<open>Draining and chunks\<close>

text \<open>The caller's loop: after each chunk take frames until more bytes are needed or an error occurs.\<close>

function drain :: "event_stream_decoder \<Rightarrow> event_stream_frame list \<times> (event_stream_error + unit) \<times> event_stream_decoder" where
  "drain d =
     (case next_frame d of
        (Inl e, d') \<Rightarrow> ([], Err e, d')
      | (Inr None, d') \<Rightarrow> ([], Ok (), d')
      | (Inr (Some f), d') \<Rightarrow> (let (fs, r) = drain d' in (f # fs, r)))"
  by pat_completeness auto
termination
proof (relation "measure (\<lambda>d. length (dec_buffer d))", goal_cases)
  case (2 d x d' y f)
  then have "length (dec_buffer d') + 16 \<le> length (dec_buffer d)" using next_frame_shrinks [of d f d'] by simp
  then show ?case by simp
qed simp

declare drain.simps [simp del]

fun decode_chunks ::
  "byte list list \<Rightarrow> event_stream_decoder \<Rightarrow> event_stream_frame list \<times> (event_stream_error + unit) \<times> event_stream_decoder" where
  "decode_chunks [] d = ([], finish d)"
| "decode_chunks (bs # chunks) d =
     (case feed bs d of
        (Inl e, d') \<Rightarrow> ([], Err e, d')
      | (Inr _, d') \<Rightarrow>
          (case drain d' of
             (fs, Inl e, d'') \<Rightarrow> (fs, Err e, d'')
           | (fs, Inr _, d'') \<Rightarrow> (let (gs, r) = decode_chunks chunks d'' in (fs @ gs, r))))"

type_synonym wire_frame = "(string \<times> header_value) list \<times> byte list"

abbreviation wire :: "wire_frame list \<Rightarrow> byte list" where
  "wire fs \<equiv> concat (map (\<lambda>(hs, payload). encode_frame hs payload) fs)"

definition decoded :: "wire_frame \<Rightarrow> event_stream_frame" where
  "decoded f = \<lparr>fr_headers = headers_of (fst f) [], fr_payload = snd f\<rparr>"

lemma length_encode_frame: "frame_ok hs payload \<Longrightarrow> 16 \<le> length (encode_frame hs payload) \<and> length (encode_frame hs payload) \<le> max_frame_bytes"
  by (simp add: encode_frame_def frame_ok_def)

text \<open>An incomplete frame is left alone.\<close>

lemma next_frame_incomplete:
  assumes ok: "frame_ok hs payload" and d: "\<not> dec_stopped d" "dec_buffer d @ later = encode_frame hs payload @ rest"
    and short: "length (dec_buffer d) < length (encode_frame hs payload)"
  shows "next_frame d = (Inr None, d)"
proof (cases "length (dec_buffer d) < 12")
  case True
  then show ?thesis using d by (simp add: next_frame_def try_prelude_def prelude_bytes_def)
next
  case False
  let ?t = "length (encode_headers hs) + length payload + 16"
  have "take 12 (dec_buffer d) = take 12 (encode_frame hs payload @ rest)" using arg_cong [OF d(2), of "take 12"] False by simp
  also have "\<dots> = encode_prelude ?t (length (encode_headers hs))" by (simp add: encode_frame_def encode_raw_def frame_body_def Let_def)
  finally have "parse_prelude (take 12 (dec_buffer d)) = Inr \<lparr>pr_total_length = ?t, pr_headers_length = length (encode_headers hs)\<rparr>"
    using parse_encode_prelude [of ?t "length (encode_headers hs)"] ok
    by (simp add: frame_ok_def min_frame_bytes_def prelude_bytes_def message_crc_bytes_def)
  then show ?thesis using False d(1) short
    by (simp add: next_frame_def try_prelude_def prelude_bytes_def decode_frame_def Let_def encode_frame_def)
qed

lemma next_frame_wait:
  assumes "\<not> dec_stopped d" "dec_buffer d = []" shows "next_frame d = (Inr None, d)"
  using assms by (simp add: next_frame_def try_prelude_def prelude_bytes_def)

lemma append_prefix: "xs @ ys = zs @ ws \<Longrightarrow> length zs \<le> length xs \<Longrightarrow> \<exists>b. xs = zs @ b \<and> b @ ys = ws"
  by (metis append_assoc append_eq_append_conv append_take_drop_id length_take min.absorb2)

text \<open>The buffer holds less than the next frame.\<close>

definition awaits :: "wire_frame list \<Rightarrow> event_stream_decoder \<Rightarrow> bool" where
  "awaits fs d \<longleftrightarrow>
     (case fs of [] \<Rightarrow> dec_buffer d = [] | (hs, payload) # _ \<Rightarrow> length (dec_buffer d) < length (encode_frame hs payload))"

lemma awaits_bounded:
  "awaits fs d \<Longrightarrow> list_all (\<lambda>(hs, payload). frame_ok hs payload) fs \<Longrightarrow> length (dec_buffer d) \<le> max_frame_bytes"
  using length_encode_frame by (force simp: awaits_def split: list.splits)

lemma drain_wire:
  "list_all (\<lambda>(hs, payload). frame_ok hs payload) fs \<Longrightarrow> \<not> dec_stopped d \<Longrightarrow> dec_buffer d @ later = wire fs \<Longrightarrow>
     \<exists>gs rest d'. fs = gs @ rest \<and> drain d = (map decoded gs, Inr (), d') \<and> \<not> dec_stopped d' \<and>
       dec_buffer d' @ later = wire rest \<and> awaits rest d'"
proof (induction fs arbitrary: d)
  case Nil
  then have "dec_buffer d = []" by simp
  then have "drain d = ([], Inr (), d)" using next_frame_wait [OF Nil.prems(2)] by (simp add: drain.simps [of d])
  then show ?case using Nil by (intro exI [of _ "[]"] exI [of _ d]) (simp add: awaits_def)
next
  case (Cons f fs)
  obtain hs payload where f: "f = (hs, payload)" by (cases f)
  let ?e = "encode_frame hs payload"
  have ok: "frame_ok hs payload" using Cons.prems f by simp
  have buf: "dec_buffer d @ later = ?e @ wire fs" using Cons.prems(3) f by simp
  show ?case
  proof (cases "length (dec_buffer d) < length ?e")
    case True
    then have "next_frame d = (Inr None, d)" using next_frame_incomplete [OF ok Cons.prems(2) buf] by simp
    then have "drain d = ([], Inr (), d)" by (simp add: drain.simps [of d])
    then show ?thesis using Cons.prems True f by (intro exI [of _ "[]"] exI [of _ "f # fs"] exI [of _ d]) (simp add: awaits_def)
  next
    case False
    then obtain b where b: "dec_buffer d = ?e @ b" "b @ later = wire fs"
      using append_prefix [OF buf] by (auto simp: not_less)
    let ?d = "d\<lparr>dec_buffer := b, dec_consecutive_errors := 0\<rparr>"
    have nf: "next_frame d = (Inr (Some (decoded f)), ?d)"
      using next_frame_encoded [OF Cons.prems(2) b(1) ok] by (simp add: decoded_def f)
    obtain gs rest d' where IH: "fs = gs @ rest" "drain ?d = (map decoded gs, Inr (), d')" "\<not> dec_stopped d'"
      "dec_buffer d' @ later = wire rest" "awaits rest d'"
      using Cons.IH [of ?d] Cons.prems b(2) by auto
    then have "drain d = (map decoded (f # gs), Inr (), d')" using nf by (simp add: drain.simps [of d])
    then show ?thesis using IH by (intro exI [of _ "f # gs"] exI [of _ rest] exI [of _ d']) simp
  qed
qed

lemma decode_chunks_wire:
  "list_all (\<lambda>(hs, payload). frame_ok hs payload) fs \<Longrightarrow> \<not> dec_stopped d \<Longrightarrow> dec_buffer d @ concat chunks = wire fs \<Longrightarrow>
     awaits fs d \<Longrightarrow> list_all (\<lambda>bs. length bs \<le> max_frame_bytes) chunks \<Longrightarrow>
     \<exists>d'. decode_chunks chunks d = (map decoded fs, Inr (), d') \<and> \<not> dec_stopped d' \<and> dec_buffer d' = []"
proof (induction chunks arbitrary: fs d)
  case Nil
  then have "fs = []" by (cases fs) (auto simp: awaits_def)
  then show ?case using Nil by (simp add: finish_def)
next
  case (Cons bs chunks)
  let ?d = "d\<lparr>dec_buffer := dec_buffer d @ bs\<rparr>"
  have "length (dec_buffer d) \<le> max_frame_bytes" using awaits_bounded Cons.prems by blast
  then have fd: "feed bs d = (Inr (), ?d)" using Cons.prems by (simp add: feed_def max_buffer_bytes_def)
  have "dec_buffer ?d @ concat chunks = wire fs" using Cons.prems(3) by simp
  then obtain gs rest d' where dr: "fs = gs @ rest" "drain ?d = (map decoded gs, Inr (), d')" "\<not> dec_stopped d'"
    "dec_buffer d' @ concat chunks = wire rest" "awaits rest d'"
    using drain_wire [OF Cons.prems(1), of ?d "concat chunks"] Cons.prems(2) by auto
  obtain d'' where "decode_chunks chunks d' = (map decoded rest, Inr (), d'')" "\<not> dec_stopped d''" "dec_buffer d'' = []"
    using Cons.IH [of rest d'] Cons.prems dr by auto
  then show ?case using fd dr by simp
qed

section \<open>Properties of the decoder\<close>

text \<open>
  C15: Frames survive the wire: for every list of well-formed frames and every way of cutting their
  encoding into chunks of at most 16 MiB (the maximal frame size) each, feeding the chunks and draining the decoder
  after each yields exactly the frames, in order, with every header readable under its name, and the
  end of the stream is accepted.
\<close>

theorem event_stream_roundtrip:
  assumes "list_all (\<lambda>(hs, payload). frame_ok hs payload) fs" "concat chunks = wire fs"
    "list_all (\<lambda>bs. length bs \<le> max_frame_bytes) chunks"
  shows "\<exists>d frames. decode_chunks chunks decoder_new = (frames, Inr (), d) \<and> length frames = length fs \<and>
    (\<forall>i < length fs. fr_payload (frames ! i) = snd (fs ! i) \<and>
       (\<forall>name. bm_get (fr_headers (frames ! i)) name = map_of (fst (fs ! i)) name))"
proof -
  have start: "\<not> dec_stopped decoder_new" "awaits fs decoder_new"
    using assms(1) length_encode_frame by (force simp: decoder_new_def awaits_def split: list.splits)+
  obtain d where "decode_chunks chunks decoder_new = (map decoded fs, Inr (), d)"
    using decode_chunks_wire [OF assms(1) start(1) _ start(2) assms(3)] assms(2) by (auto simp: decoder_new_def)
  moreover have "distinct (map fst (fst (fs ! i)))" if "i < length fs" for i
    using assms(1) that by (cases "fs ! i") (auto simp: list_all_length frame_ok_def)
  ultimately show ?thesis
    by (intro exI [of _ d] exI [of _ "map decoded fs"]) (auto simp: decoded_def headers_of_get split: option.splits)
qed

text \<open>
  C17: What the decoder returns is on the wire: a frame is returned exactly when the buffer starts with the
  prelude its lengths and checksum demand, header bytes that parse without a duplicate name, the
  payload, and the checksum of all of it; exactly these bytes are consumed and the error count is reset.
\<close>

theorem event_stream_frames_genuine:
  "next_frame d = (Inr (Some f), d') \<longleftrightarrow>
     \<not> dec_stopped d \<and>
     (\<exists>hs crc. dec_buffer d = frame_body hs (fr_payload f) @ crc @ dec_buffer d' \<and> length crc = 4 \<and>
        read_u32 crc = crc32 (frame_body hs (fr_payload f)) \<and>
        length hs + length (fr_payload f) + 16 \<le> max_frame_bytes \<and> parse_headers hs = Inr (fr_headers f)) \<and>
     d' = d\<lparr>dec_buffer := dec_buffer d', dec_consecutive_errors := 0\<rparr>" (is "_ = ?R")
proof
  assume "next_frame d = (Inr (Some f), d')"
  then show ?R
  proof (cases rule: next_frame_cases)
    case (resync e)
    then show ?thesis using decoder_recover_Inl by (metis Inl_Inr_False Pair_inject)
  next
    case (bad_frame e)
    then show ?thesis using decoder_recover_Inl by (metis Inl_Inr_False Pair_inject)
  next
    case (frame hs payload crc rest headers)
    then show ?thesis by (intro conjI exI [of _ hs] exI [of _ crc]) simp_all
  qed auto
next
  assume ?R
  then show "next_frame d = (Inr (Some f), d')" using next_frame_at [of d _ "fr_payload f" _ "dec_buffer d'"] by auto
qed

subsection \<open>Corruption\<close>

lemma next_frame_bad_prelude:
  "\<not> dec_stopped d \<Longrightarrow> 12 \<le> length (dec_buffer d) \<Longrightarrow> parse_prelude (take 12 (dec_buffer d)) = Inl x \<Longrightarrow>
     \<exists>e d'. next_frame d = (Inl e, d')"
  by (simp add: next_frame_def try_prelude_def prelude_bytes_def decoder_recover_def decoder_stop_def Let_def)

lemma be_bytes_crc_inject: "be_bytes 4 (unat (v :: 32 word)) = be_bytes 4 (unat w) \<longleftrightarrow> v = w"
proof
  assume "be_bytes 4 (unat v) = be_bytes 4 (unat w)"
  then have "read_u32 (be_bytes 4 (unat v)) = read_u32 (be_bytes 4 (unat w))" by simp
  then show "v = w" using unat_crc32_less [of v] unat_crc32_less [of w] by simp
qed simp

text \<open>A checked block stays checked under no change of a single byte.\<close>

lemma one_byte_detected:
  assumes "(xs @ be_bytes 4 (unat (crc32 xs)))[i := b] = ys @ be_bytes 4 (unat (crc32 ys))" "length ys = length xs"
    "i < length xs + 4" "b \<noteq> (xs @ be_bytes 4 (unat (crc32 xs))) ! i"
  shows False
proof (cases "i < length xs")
  case True
  then have "ys = xs[i := b]" "crc32 ys = crc32 xs"
    using assms(1,2) by (simp_all add: list_update_append be_bytes_crc_inject)
  moreover have "xs[i := b] = take i xs @ b # drop (Suc i) xs" "xs = take i xs @ xs ! i # drop (Suc i) xs"
    using True by (simp_all add: upd_conv_take_nth_drop id_take_nth_drop)
  ultimately show False using crc32_one_byte [of b "xs ! i" "take i xs" "drop (Suc i) xs"] assms(4) True
    by (simp add: nth_append)
next
  case False
  then have eq: "ys = xs" "(be_bytes 4 (unat (crc32 xs)))[i - length xs := b] = be_bytes 4 (unat (crc32 xs))"
    using assms(1,2) by (auto simp: list_update_append)
  have "i - length xs < length (be_bytes 4 (unat (crc32 xs)))" using assms(3) False by simp
  then have "be_bytes 4 (unat (crc32 xs)) ! (i - length xs) = b" using eq(2) by (metis nth_list_update_eq)
  then show False using assms(4) False by (simp add: nth_append)
qed

lemma damaged_prelude:
  assumes "i < 12" "b \<noteq> encode_prelude n m ! i"
  shows "\<exists>e. parse_prelude ((encode_prelude n m)[i := b]) = Inl e"
proof (cases "parse_prelude ((encode_prelude n m)[i := b])")
  case (Inr p)
  let ?a = "be_bytes 4 n @ be_bytes 4 m"
  have pre: "encode_prelude n m = ?a @ be_bytes 4 (unat (crc32 ?a))" by (simp add: encode_prelude_def Let_def)
  have "(encode_prelude n m)[i := b] = encode_prelude (pr_total_length p) (pr_headers_length p)"
    using parse_prelude_Inr(1) [of "(encode_prelude n m)[i := b]" p] Inr by simp
  then have False
    using one_byte_detected [of ?a i b "be_bytes 4 (pr_total_length p) @ be_bytes 4 (pr_headers_length p)"] assms
    by (simp add: pre encode_prelude_def Let_def del: be_bytes.simps)
  then show ?thesis ..
qed blast

text \<open>
  C16: No single corrupted byte goes unnoticed: when one byte of an encoded frame is changed, at whatever
  position, the decoder reports an error in its place; beyond the prelude the error is the message
  checksum's, exactly the damaged frame is dropped, and what follows it is untouched, unless this is the
  fifth error in a row, which stops the decoder with \<open>TooManyErrors\<close> and empties its buffer.
\<close>

theorem event_stream_corruption_detected:
  assumes ok: "frame_ok hs payload" and live: "\<not> dec_stopped d"
    and buf: "dec_buffer d = (encode_frame hs payload)[i := b] @ rest"
    and i: "i < length (encode_frame hs payload)" "b \<noteq> encode_frame hs payload ! i"
  shows "(\<exists>e d'. next_frame d = (Inl e, d')) \<and>
    (12 \<le> i \<longrightarrow> next_frame d =
       (if dec_consecutive_errors d + 1 < 5
        then (Inl MessageCrcMismatch, d\<lparr>dec_buffer := rest, dec_consecutive_errors := dec_consecutive_errors d + 1\<rparr>)
        else (Inl TooManyErrors,
          d\<lparr>dec_buffer := [], dec_consecutive_errors := dec_consecutive_errors d + 1, dec_stopped := True\<rparr>)))"
proof -
  let ?H = "encode_headers hs" let ?t = "length ?H + length payload + 16"
  let ?pre = "encode_prelude ?t (length ?H)" let ?body = "frame_body ?H payload"
  let ?crc = "be_bytes 4 (unat (crc32 ?body))"
  have enc: "encode_frame hs payload = ?body @ ?crc" by (simp add: encode_frame_def encode_raw_def Let_def)
  have t: "?t \<le> max_frame_bytes" using ok by (simp add: frame_ok_def)
  show ?thesis
  proof (cases "i < 12")
    case True
    have "take 12 (dec_buffer d) = ?pre[i := b]" using True buf by (simp add: enc frame_body_def list_update_append)
    moreover have "b \<noteq> ?pre ! i" using i True by (simp add: enc frame_body_def nth_append)
    ultimately obtain e where "parse_prelude (take 12 (dec_buffer d)) = Inl e" using damaged_prelude True by metis
    moreover have "12 \<le> length (dec_buffer d)" using buf by (simp add: enc)
    ultimately have "\<exists>e d'. next_frame d = (Inl e, d')" by (intro next_frame_bad_prelude [OF live])
    then show ?thesis using True by simp
  next
    case False
    define x where "x = drop 12 ((?body @ ?crc)[i := b])"
    define y c where "y = take (length ?H + length payload) x" and "c = drop (length ?H + length payload) x"
    have "take 12 ((?body @ ?crc)[i := b]) = ?pre" using False by (simp add: frame_body_def)
    then have split: "(?body @ ?crc)[i := b] = ?pre @ y @ c"
      unfolding y_def c_def append_take_drop_id unfolding x_def by (metis append_take_drop_id)
    have len: "length y = length ?H + length payload" "length c = 4" by (simp_all add: x_def y_def c_def)
    have body': "frame_body (take (length ?H) y) (drop (length ?H) y) = ?pre @ y"
      using len by (simp add: frame_body_def)
    have "crc32 (?pre @ y) \<noteq> read_u32 c"
    proof
      assume "crc32 (?pre @ y) = read_u32 c"
      then have "(?body @ ?crc)[i := b] = (?pre @ y) @ be_bytes 4 (unat (crc32 (?pre @ y)))"
        using split be_bytes_read_u32 [OF len(2)] by simp
      then show False using one_byte_detected [of ?body i b "?pre @ y"] i len by (simp add: enc del: be_bytes.simps)
    qed
    moreover have "dec_buffer d = (?pre @ y) @ c @ rest" using buf split by (simp add: enc)
    ultimately have "next_frame d = decoder_recover MessageCrcMismatch (d\<lparr>dec_buffer := rest\<rparr>)"
      using next_frame_at [OF live, of "take (length ?H) y" "drop (length ?H) y" c rest] len t body' by simp
    then show ?thesis by (simp add: decoder_recover_def decoder_stop_def max_consecutive_errors_def)
  qed
qed

subsection \<open>Recovery\<close>

lemma prelude_error:
  assumes nf: "next_frame d = (Inl e, d')" and live: "\<not> dec_stopped d" and bad: "parse_prelude (take 12 (dec_buffer d)) = Inl e"
    and lt: "dec_consecutive_errors d + 1 < max_consecutive_errors"
  obtains k where "1 \<le> k" "k \<le> length (dec_buffer d)" "dec_buffer d' = drop k (dec_buffer d)"
    "\<forall>i. 1 \<le> i \<and> i < k \<and> i + 12 \<le> length (dec_buffer d) \<longrightarrow> \<not> valid_prelude_at (dec_buffer d) i"
    "valid_prelude_at (dec_buffer d) k \<or> length (dec_buffer d') = 11"
proof -
  have len: "12 \<le> length (dec_buffer d)"
    using nf live by (rule_tac ccontr) (simp add: next_frame_def try_prelude_def prelude_bytes_def)
  obtain k where k: "resynchronize_prelude d = d\<lparr>dec_buffer := drop k (dec_buffer d)\<rparr>" "1 \<le> k" "k \<le> length (dec_buffer d)"
    "\<forall>i. 1 \<le> i \<and> i < k \<and> i + 12 \<le> length (dec_buffer d) \<longrightarrow> \<not> valid_prelude_at (dec_buffer d) i"
    "valid_prelude_at (dec_buffer d) k \<and> k + 12 \<le> length (dec_buffer d) \<or> k + 11 = length (dec_buffer d)"
    using resynchronize_keeps [OF len] by blast
  have "next_frame d = (Inl e, d\<lparr>dec_buffer := drop k (dec_buffer d), dec_consecutive_errors := dec_consecutive_errors d + 1\<rparr>)"
    using live len bad lt k(1)
    by (simp add: next_frame_def try_prelude_def prelude_bytes_def decoder_recover_def Let_def)
  then have b: "dec_buffer d' = drop k (dec_buffer d)" using nf by auto
  have "length (dec_buffer d') = 11" if "k + 11 = length (dec_buffer d)" using that b by simp
  then show thesis using that [OF k(2,3) b k(4)] k(5) by blast
qed

text \<open>
  C18: Recovery is bounded and loses no later frame: an error of a running decoder either is the fifth in a
  row, and stops it with an empty buffer, or drops at least one byte and is counted; after an invalid
  prelude the buffer restarts at the first later position with a valid prelude (or keeps the last
  eleven bytes, too few for one). The buffer never exceeds its bound, and a stopped decoder refuses
  everything.
\<close>

theorem event_stream_recovery:
  assumes ok: "decoder_ok d" and nf: "next_frame d = (Inl e, d')"
  shows "decoder_ok d' \<and>
    (if dec_stopped d then e = DecoderStopped \<and> d' = d \<and> feed bs d = (Inl DecoderStopped, d) \<and> finish d = (Inl DecoderStopped, d)
     else if dec_consecutive_errors d + 1 = max_consecutive_errors then e = TooManyErrors \<and> dec_stopped d' \<and> dec_buffer d' = []
     else \<not> dec_stopped d' \<and> dec_consecutive_errors d' = dec_consecutive_errors d + 1 \<and>
       (\<exists>k. 1 \<le> k \<and> k \<le> length (dec_buffer d) \<and> dec_buffer d' = drop k (dec_buffer d) \<and>
          (parse_prelude (take 12 (dec_buffer d)) = Inl e \<longrightarrow>
             (\<forall>i. 1 \<le> i \<and> i < k \<and> i + 12 \<le> length (dec_buffer d) \<longrightarrow> \<not> valid_prelude_at (dec_buffer d) i) \<and>
             (valid_prelude_at (dec_buffer d) k \<or> length (dec_buffer d') = 11))))"
proof (cases "dec_stopped d")
  case True
  then show ?thesis using ok nf by (simp add: next_frame_def feed_def finish_def)
next
  case live: False
  have ok': "decoder_ok d'" using next_frame_ok [OF ok] nf by simp
  note rec = next_frame_error [OF nf live]
  have errs: "dec_consecutive_errors d < max_consecutive_errors" using ok live by (simp add: decoder_ok_def)
  show ?thesis
  proof (cases "dec_consecutive_errors d + 1 = max_consecutive_errors")
    case True
    then show ?thesis using ok' live rec by (simp add: recovers_def)
  next
    case more: False
    then have lt: "dec_consecutive_errors d + 1 < max_consecutive_errors" using errs by simp
    have st: "\<not> dec_stopped d'" "dec_consecutive_errors d' = dec_consecutive_errors d + 1"
      and k0: "\<exists>k. 1 \<le> k \<and> k \<le> length (dec_buffer d) \<and> dec_buffer d' = drop k (dec_buffer d)"
      using rec lt by (simp_all add: recovers_def)
    have "\<exists>k. 1 \<le> k \<and> k \<le> length (dec_buffer d) \<and> dec_buffer d' = drop k (dec_buffer d) \<and>
          (parse_prelude (take 12 (dec_buffer d)) = Inl e \<longrightarrow>
             (\<forall>i. 1 \<le> i \<and> i < k \<and> i + 12 \<le> length (dec_buffer d) \<longrightarrow> \<not> valid_prelude_at (dec_buffer d) i) \<and>
             (valid_prelude_at (dec_buffer d) k \<or> length (dec_buffer d') = 11))"
    proof (cases "parse_prelude (take 12 (dec_buffer d)) = Inl e")
      case True
      obtain k where "1 \<le> k" "k \<le> length (dec_buffer d)" "dec_buffer d' = drop k (dec_buffer d)"
        "\<forall>i. 1 \<le> i \<and> i < k \<and> i + 12 \<le> length (dec_buffer d) \<longrightarrow> \<not> valid_prelude_at (dec_buffer d) i"
        "valid_prelude_at (dec_buffer d) k \<or> length (dec_buffer d') = 11"
        by (rule prelude_error [OF nf live True lt])
      then show ?thesis by (intro exI [of _ k] conjI impI) assumption+
    next
      case False
      then show ?thesis using k0 by blast
    qed
    then show ?thesis using ok' live more st by (simp only: if_False simp_thms)
  qed
qed

subsection \<open>Samples\<close>

definition sample_frame :: wire_frame where
  "sample_frame = ([(''a'', BoolTrue)], [1])"

lemma sample_frame_ok: "frame_ok [(''a'', BoolTrue)] [1]"
  by (simp add: frame_ok_def header_ok_def bytes_of_string_def encode_headers_def encode_header_def max_frame_bytes_def)

lemma sample_frame_length: "length (encode_frame [(''a'', BoolTrue)] [1]) = 20"
  by (simp add: encode_frame_def encode_headers_def encode_header_def)

theorem event_stream_roundtrip_witness:
  "\<exists>d f. decode_chunks [take 5 (wire [sample_frame]), drop 5 (wire [sample_frame])] decoder_new = ([f], Inr (), d) \<and>
     fr_payload f = [1] \<and> bm_get (fr_headers f) ''a'' = Some BoolTrue"
proof -
  let ?cs = "[take 5 (wire [sample_frame]), drop 5 (wire [sample_frame])]"
  have ok: "list_all (\<lambda>(hs, payload). frame_ok hs payload) [sample_frame]" using sample_frame_ok by (simp add: sample_frame_def)
  have len: "list_all (\<lambda>bs. length bs \<le> max_frame_bytes) ?cs"
    using sample_frame_length by (simp add: sample_frame_def max_frame_bytes_def)
  have "concat ?cs = wire [sample_frame]" by simp
  from event_stream_roundtrip [OF ok this len] obtain d frames where f: "decode_chunks ?cs decoder_new = (frames, Inr (), d)"
    "length frames = 1" "fr_payload (frames ! 0) = [1]" "bm_get (fr_headers (frames ! 0)) ''a'' = Some BoolTrue"
    by (auto simp: sample_frame_def)
  then obtain g where "frames = [g]" by (auto simp: length_Suc_conv)
  then show ?thesis using f by (intro exI [of _ d] exI [of _ g]) simp
qed

definition sample_damaged :: event_stream_decoder where
  "sample_damaged =
     decoder_new\<lparr>dec_buffer :=
       (encode_frame [(''a'', BoolTrue)] [1]) [15 := encode_frame [(''a'', BoolTrue)] [1] ! 15 + 1]\<rparr>"

theorem event_stream_corruption_detected_witness:
  "next_frame sample_damaged = (Inl MessageCrcMismatch, decoder_new\<lparr>dec_consecutive_errors := 1\<rparr>)"
  using event_stream_corruption_detected [OF sample_frame_ok, of sample_damaged 15 _ "[]"] sample_frame_length
  by (simp add: sample_damaged_def decoder_new_def max_consecutive_errors_def)

theorem event_stream_recovery_witness:
  "\<exists>e d'. next_frame (decoder_new\<lparr>dec_buffer := replicate 12 0\<rparr>) = (Inl e, d') \<and> \<not> dec_stopped d' \<and>
     dec_consecutive_errors d' = 1 \<and> length (dec_buffer d') < 12"
proof -
  let ?d = "decoder_new\<lparr>dec_buffer := replicate 12 0\<rparr>"
  have ok: "decoder_ok ?d" "\<not> dec_stopped ?d" "dec_consecutive_errors ?d = 0"
    by (simp_all add: decoder_ok_def decoder_new_def max_buffer_bytes_def max_frame_bytes_def max_consecutive_errors_def)
  have "parse_prelude (take 12 (replicate 12 0)) = Inl InvalidFrameLength"
    by (simp add: parse_prelude_def unat_read_u32 be_nat_def min_frame_bytes_def prelude_bytes_def eval_nat_numeral)
  then obtain e d' where nf: "next_frame ?d = (Inl e, d')" using next_frame_bad_prelude [OF ok(2)] by auto
  obtain k where "1 \<le> k" "dec_buffer d' = drop k (dec_buffer ?d)" "\<not> dec_stopped d'" "dec_consecutive_errors d' = 1"
    using event_stream_recovery [OF ok(1) nf] ok by (auto simp: max_consecutive_errors_def)
  then show ?thesis using nf by auto
qed

end
