(* ===== verification/Kiro_Source.thy ===== *)
theory Kiro_Source
  imports Canonical_Events Kiro_Decoder
begin

text \<open>
  From Kiro frames to canonical events: the semantic mapper of
  \<open>src/crates/provider-kiro/src/event_semantics.rs\<close> and the streaming event source of
  \<open>src/crates/provider-kiro/src/inference.rs\<close>, which feeds response chunks to the decoder, maps the
  frames and hands out the events one by one.

  \<open>serde_json\<close> is a parameter: what it reads is a tree whose objects may repeat a field; the strict
  visitor that rejects such objects is the source's own.
\<close>

section \<open>Strict JSON\<close>

datatype parsed_json =
    ParsedNull
  | ParsedBool bool
  | ParsedNumber string
  | ParsedString string
  | ParsedArray "parsed_json list"
  | ParsedObject "(string \<times> parsed_json) list"

datatype json_value =
    JNull
  | JBool bool
  | JNumber string
  | JString string
  | JArray "json_value list"
  | JObject "(string \<times> json_value) list"

type_synonym json_object = "(string, json_value) bmap"

record json_ops =
  js_parse :: "byte list \<Rightarrow> parsed_json option"
  js_to_string :: "json_value \<Rightarrow> string option"
  js_raw_value :: "string \<Rightarrow> bool"

fun strict_visit :: "parsed_json \<Rightarrow> json_value option"
  and strict_visit_seq :: "parsed_json list \<Rightarrow> json_value list option"
  and strict_visit_map :: "(string \<times> parsed_json) list \<Rightarrow> json_object \<Rightarrow> json_object option" where
  "strict_visit ParsedNull = Some JNull"
| "strict_visit (ParsedBool b) = Some (JBool b)"
| "strict_visit (ParsedNumber n) = Some (JNumber n)"
| "strict_visit (ParsedString s) = Some (JString s)"
| "strict_visit (ParsedArray vs) = map_option JArray (strict_visit_seq vs)"
| "strict_visit (ParsedObject fs) = map_option JObject (strict_visit_map fs [])"
| "strict_visit_seq [] = Some []"
| "strict_visit_seq (v # vs) =
     (case strict_visit v of
        None \<Rightarrow> None
      | Some w \<Rightarrow> map_option (Cons w) (strict_visit_seq vs))"
| "strict_visit_map [] m = Some m"
| "strict_visit_map ((key, v) # fs) m =
     (if bm_get m key \<noteq> None then None
      else
       (case strict_visit v of
          None \<Rightarrow> None
        | Some w \<Rightarrow> strict_visit_map fs (bm_insert key w m)))"

section \<open>Semantic mapping\<close>

datatype kiro_semantic_error =
    UnexpectedFrame
  | UnsupportedEvent
  | InvalidPayload
  | InvalidToolState
  | ToolArgumentsTooLarge
  | UnfinishedTool
  | InvalidLifecycle

definition max_event_payload_bytes :: nat where "max_event_payload_bytes = 1024 * 1024"
definition max_tool_argument_bytes :: nat where "max_tool_argument_bytes = 1024 * 1024"
definition max_tool_call_id_bytes :: nat where "max_tool_call_id_bytes = 512"
definition max_tool_name_bytes :: nat where "max_tool_name_bytes = 256"

record open_tool =
  ot_name :: string
  ot_input :: string

record kiro_mapper =
  km_response_id :: string
  km_started :: bool
  km_finished :: bool
  km_open_tools :: "(string, open_tool) bmap"

definition mapper_new :: "string \<Rightarrow> kiro_mapper" where
  "mapper_new response_id = \<lparr>km_response_id = response_id, km_started = False, km_finished = False, km_open_tools = []\<rparr>"

definition deserialize_strict_json :: "json_ops \<Rightarrow> byte list \<Rightarrow> kiro_semantic_error + json_value" where
  "deserialize_strict_json js bs = ok_or InvalidPayload (Option.bind (js_parse js bs) strict_visit)"

definition strict_payload_object :: "json_ops \<Rightarrow> byte list \<Rightarrow> kiro_semantic_error + json_object" where
  "strict_payload_object js bs =
     (if max_event_payload_bytes < length bs then Err InvalidPayload
      else
       (case deserialize_strict_json js bs of
          Inl e \<Rightarrow> Err e
        | Inr (JObject m) \<Rightarrow> Ok m
        | Inr _ \<Rightarrow> Err InvalidPayload))"

definition optional_string :: "json_object \<Rightarrow> string \<Rightarrow> kiro_semantic_error + string option" where
  "optional_string payload field =
     (case bm_get payload field of
        None \<Rightarrow> Ok None
      | Some (JString v) \<Rightarrow> Ok (Some v)
      | Some _ \<Rightarrow> Err InvalidPayload)"

definition required_string :: "json_object \<Rightarrow> string \<Rightarrow> kiro_semantic_error + string" where
  "required_string payload field =
     (case optional_string payload field of
        Inl e \<Rightarrow> Err e
      | Inr v \<Rightarrow> ok_or InvalidToolState v)"

definition optional_same_string :: "json_object \<Rightarrow> string \<Rightarrow> string \<Rightarrow> kiro_semantic_error + string option" where
  "optional_same_string payload a b =
     (case optional_string payload a of
        Inl e \<Rightarrow> Err e
      | Inr x \<Rightarrow>
     (case optional_string payload b of
        Inl e \<Rightarrow> Err e
      | Inr y \<Rightarrow>
          (case (x, y) of
             (Some v, Some w) \<Rightarrow> if v \<noteq> w then Err InvalidPayload else Ok (Some v)
           | (Some v, None) \<Rightarrow> Ok (Some v)
           | (None, Some w) \<Rightarrow> Ok (Some w)
           | (None, None) \<Rightarrow> Ok None)))"

text \<open>The control characters of Unicode (up to U+001F, and U+007F to U+009F) in UTF-8.\<close>

fun has_control :: "string \<Rightarrow> bool" where
  "has_control [] = False"
| "has_control (c # cs) =
     ((of_char c :: nat) < 0x20 \<or> (of_char c :: nat) = 0x7F \<or>
      (of_char c :: nat) = 0xC2 \<and> (case cs of d # _ \<Rightarrow> 0x80 \<le> (of_char d :: nat) \<and> (of_char d :: nat) \<le> 0x9F | [] \<Rightarrow> False) \<or>
      has_control cs)"

definition is_valid_identifier :: "string \<Rightarrow> nat \<Rightarrow> bool" where
  "is_valid_identifier v max_bytes \<longleftrightarrow> v \<noteq> [] \<and> length v \<le> max_bytes \<and> \<not> has_control v"

text \<open>\<open>text_events\<close> looks at the two fields in turn.\<close>

definition text_field :: "json_object \<Rightarrow> string \<Rightarrow> kiro_semantic_error + canonical_event list" where
  "text_field payload key =
     (case bm_get payload key of
        None \<Rightarrow> Ok []
      | Some (JString v) \<Rightarrow> Ok (if v = [] then [] else [TextDelta \<lparr>td_text = v, td_extensions = []\<rparr>])
      | Some _ \<Rightarrow> Err InvalidPayload)"

definition text_events :: "json_object \<Rightarrow> kiro_semantic_error + canonical_event list" where
  "text_events payload =
     (case text_field payload ''content'' of
        Inl e \<Rightarrow> Err e
      | Inr xs \<Rightarrow>
          (case text_field payload ''code'' of
             Inl e \<Rightarrow> Err e
           | Inr ys \<Rightarrow> Ok (xs @ ys)))"

definition reasoning_events :: "json_object \<Rightarrow> kiro_semantic_error + canonical_event list" where
  "reasoning_events payload =
     (case optional_same_string payload ''content'' ''reasoningContent'' of
        Inl e \<Rightarrow> Err e
      | Inr None \<Rightarrow> Err InvalidPayload
      | Inr (Some content) \<Rightarrow>
          Ok (if content = [] then [] else [ReasoningDelta \<lparr>rd_text = content, rd_extensions = []\<rparr>]))"

text \<open>One question of \<open>AskUserQuestion\<close>: its text may be missing when a header stands in for it.\<close>

definition normalize_question :: "json_value \<Rightarrow> json_value option" where
  "normalize_question v =
     (case v of
        JObject q \<Rightarrow>
          (case (case bm_get q ''question'' of
                   Some (JString t) \<Rightarrow> if t \<noteq> [] then Some None else None
                 | Some _ \<Rightarrow> None
                 | None \<Rightarrow>
                     (case bm_get q ''header'' of
                        Some (JString t) \<Rightarrow> if t \<noteq> [] then Some (Some t) else None
                      | _ \<Rightarrow> None)) of
             None \<Rightarrow> None
           | Some normalized \<Rightarrow>
               (case (bm_get q ''options'', bm_get q ''multiSelect'') of
                  (Some (JArray _), Some (JBool _)) \<Rightarrow>
                    Some (JObject (case normalized of
                                     None \<Rightarrow> q
                                   | Some t \<Rightarrow> bm_insert ''question'' (JString t) q))
                | _ \<Rightarrow> None))
      | _ \<Rightarrow> None)"

fun normalize_questions :: "json_value list \<Rightarrow> json_value list option" where
  "normalize_questions [] = Some []"
| "normalize_questions (q # qs) =
     (case normalize_question q of
        None \<Rightarrow> None
      | Some q' \<Rightarrow> map_option (Cons q') (normalize_questions qs))"

definition normalize_ask_user_question :: "json_object \<Rightarrow> kiro_semantic_error + json_object" where
  "normalize_ask_user_question m =
     (case bm_get m ''questions'' of
        Some (JArray qs) \<Rightarrow>
          if qs = [] then Err InvalidToolState
          else
           (case normalize_questions qs of
              None \<Rightarrow> Err InvalidToolState
            | Some qs' \<Rightarrow> Ok (bm_insert ''questions'' (JArray qs') m))
      | _ \<Rightarrow> Err InvalidToolState)"

definition raw_json_from_string :: "json_ops \<Rightarrow> string \<Rightarrow> kiro_semantic_error + raw_json" where
  "raw_json_from_string js s = (if js_raw_value js s then Ok s else Err InvalidToolState)"

definition completed_tool_arguments :: "json_ops \<Rightarrow> open_tool \<Rightarrow> kiro_semantic_error + raw_json" where
  "completed_tool_arguments js tool =
     (if ot_input tool = [] then
        (if ot_name tool \<in> {''EnterPlanMode'', ''ExitPlanMode''} then raw_json_from_string js ''{}''
         else Err InvalidToolState)
      else
       (case deserialize_strict_json js (bytes_of_string (ot_input tool)) of
          Inl e \<Rightarrow> Err e
        | Inr (JObject m) \<Rightarrow>
            if ot_name tool = ''AskUserQuestion'' then
             (case normalize_ask_user_question m of
                Inl e \<Rightarrow> Err e
              | Inr m' \<Rightarrow>
                  (case js_to_string js (JObject m') of
                     None \<Rightarrow> Err InvalidToolState
                   | Some s \<Rightarrow> raw_json_from_string js s))
            else raw_json_from_string js (ot_input tool)
        | Inr _ \<Rightarrow> Err InvalidToolState))"

section \<open>The mapper\<close>

definition mapper_start :: "kiro_mapper \<Rightarrow> (kiro_semantic_error + canonical_event list) \<times> kiro_mapper" where
  "mapper_start m =
     (if km_started m \<or> km_finished m then (Err InvalidLifecycle, m)
      else
       (Ok [ResponseStart \<lparr>rs_response_id = km_response_id m, rs_extensions = []\<rparr>,
            MessageStart \<lparr>ms_role = ''assistant'', ms_extensions = []\<rparr>],
        m\<lparr>km_started := True\<rparr>))"

text \<open>The first part of \<open>tool_events\<close>: the tool the event belongs to, opened if it is new.\<close>

definition open_tool_for ::
  "json_object \<Rightarrow> kiro_mapper \<Rightarrow> (kiro_semantic_error + string \<times> bool) \<times> kiro_mapper" where
  "open_tool_for payload m =
     (case required_string payload ''toolUseId'' of
        Inl e \<Rightarrow> (Err e, m)
      | Inr call_id \<Rightarrow>
          if \<not> is_valid_identifier call_id max_tool_call_id_bytes then (Err InvalidToolState, m)
          else
           (case bm_get (km_open_tools m) call_id of
              None \<Rightarrow>
               (case required_string payload ''name'' of
                  Inl e \<Rightarrow> (Err e, m)
                | Inr name \<Rightarrow>
                    if \<not> is_valid_identifier name max_tool_name_bytes then (Err InvalidToolState, m)
                    else (Ok (call_id, True),
                          m\<lparr>km_open_tools := bm_insert call_id \<lparr>ot_name = name, ot_input = []\<rparr> (km_open_tools m)\<rparr>))
            | Some tool \<Rightarrow>
                if (case bm_get payload ''name'' of
                      None \<Rightarrow> False
                    | Some (JString name) \<Rightarrow> name \<noteq> ot_name tool
                    | Some _ \<Rightarrow> True)
                then (Err InvalidToolState, m)
                else (Ok (call_id, False), m)))"

definition tool_stop :: "json_object \<Rightarrow> kiro_semantic_error + bool" where
  "tool_stop payload =
     (case bm_get payload ''stop'' of
        None \<Rightarrow> Ok False
      | Some (JBool b) \<Rightarrow> Ok b
      | Some _ \<Rightarrow> Err InvalidToolState)"

definition tool_input :: "json_object \<Rightarrow> kiro_semantic_error + string" where
  "tool_input payload =
     (case bm_get payload ''input'' of
        None \<Rightarrow> Ok []
      | Some (JString v) \<Rightarrow> Ok v
      | Some _ \<Rightarrow> Err InvalidToolState)"

text \<open>The last part: append the fragment, emit the events, close the tool on \<open>stop\<close>.\<close>

definition tool_fragment ::
  "json_ops \<Rightarrow> string \<Rightarrow> bool \<Rightarrow> bool \<Rightarrow> string \<Rightarrow> kiro_mapper \<Rightarrow>
     (kiro_semantic_error + canonical_event list) \<times> kiro_mapper" where
  "tool_fragment js call_id is_new stop input m =
     (case bm_get (km_open_tools m) call_id of
        None \<Rightarrow> (Err InvalidToolState, m)
      | Some tool \<Rightarrow>
          if max_tool_argument_bytes < length (ot_input tool) + length input then (Err ToolArgumentsTooLarge, m)
          else
           (let tool' = tool\<lparr>ot_input := ot_input tool @ input\<rparr>;
                m' = m\<lparr>km_open_tools := bm_insert call_id tool' (km_open_tools m)\<rparr>;
                events =
                  (if is_new
                   then [ToolCallStart \<lparr>tcs_call_id = call_id, tcs_name = ot_name tool', tcs_extensions = []\<rparr>]
                   else []) @
                  (if input \<noteq> []
                   then [ToolCallArgumentsDelta \<lparr>tcd_call_id = call_id, tcd_delta = input, tcd_extensions = []\<rparr>]
                   else [])
            in if \<not> stop then (Ok events, m')
               else
                (let m'' = m'\<lparr>km_open_tools := bm_remove call_id (km_open_tools m')\<rparr> in
                 case completed_tool_arguments js tool' of
                   Inl e \<Rightarrow> (Err e, m'')
                 | Inr arguments \<Rightarrow>
                     (Ok (events @ [ToolCallEnd \<lparr>tce_call_id = call_id, tce_arguments = arguments, tce_extensions = []\<rparr>]),
                      m''))))"

definition tool_events ::
  "json_ops \<Rightarrow> json_object \<Rightarrow> kiro_mapper \<Rightarrow> (kiro_semantic_error + canonical_event list) \<times> kiro_mapper" where
  "tool_events js payload m =
     (case open_tool_for payload m of
        (Inl e, m') \<Rightarrow> (Err e, m')
      | (Inr (call_id, is_new), m') \<Rightarrow>
     (case tool_stop payload of
        Inl e \<Rightarrow> (Err e, m')
      | Inr stop \<Rightarrow>
     (case tool_input payload of
        Inl e \<Rightarrow> (Err e, m')
      | Inr input \<Rightarrow> tool_fragment js call_id is_new stop input m')))"

definition push_frame ::
  "json_ops \<Rightarrow> event_stream_frame \<Rightarrow> kiro_mapper \<Rightarrow> (kiro_semantic_error + canonical_event list) \<times> kiro_mapper" where
  "push_frame js f m =
     (if \<not> km_started m \<or> km_finished m then (Err InvalidLifecycle, m)
      else if message_type (fr_headers f) \<noteq> Some ''event'' then (Err UnexpectedFrame, m)
      else
       (case event_type (fr_headers f) of
          None \<Rightarrow> (Err UnexpectedFrame, m)
        | Some t \<Rightarrow>
       (case strict_payload_object js (fr_payload f) of
          Inl e \<Rightarrow> (Err e, m)
        | Inr payload \<Rightarrow>
            if t = ''assistantResponseEvent'' \<or> t = ''codeEvent'' then (text_events payload, m)
            else if t = ''reasoningContentEvent'' then (reasoning_events payload, m)
            else if t = ''toolUseEvent'' then tool_events js payload m
            else if t = ''contextUsageEvent'' then (Ok [], m)
            else (Err UnsupportedEvent, m))))"

definition mapper_finish :: "kiro_mapper \<Rightarrow> (kiro_semantic_error + canonical_event list) \<times> kiro_mapper" where
  "mapper_finish m =
     (if \<not> km_started m \<or> km_finished m then (Err InvalidLifecycle, m)
      else if km_open_tools m \<noteq> [] then (Err UnfinishedTool, m)
      else
       (Ok [MessageEnd \<lparr>me_extensions = []\<rparr>,
            ResponseEnd \<lparr>stop_reason = None, stop_sequence = None, re_extensions = []\<rparr>],
        m\<lparr>km_finished := True\<rparr>))"

section \<open>The event source\<close>

datatype kiro_stream_lifecycle = AwaitingFirstFrame | Streaming | Finished

record kiro_source =
  ks_framing :: event_stream_decoder
  ks_semantics :: kiro_mapper
  ks_pending :: "canonical_event list"
  ks_lifecycle :: kiro_stream_lifecycle
  ks_response_started :: bool
  ks_terminal_failure_emitted :: bool

definition provider_protocol_error :: gateway_error where
  "provider_protocol_error = gateway_error_new UpstreamProtocolError ProviderScope"

definition source_new :: "string \<Rightarrow> kiro_source" where
  "source_new response_id =
     \<lparr>ks_framing = decoder_new, ks_semantics = mapper_new response_id, ks_pending = [],
      ks_lifecycle = AwaitingFirstFrame, ks_response_started = False, ks_terminal_failure_emitted = False\<rparr>"

definition next_pending :: "kiro_source \<Rightarrow> canonical_event option \<times> kiro_source" where
  "next_pending s =
     (case ks_pending s of
        [] \<Rightarrow> (None, s)
      | e # es \<Rightarrow>
          (Some e,
           (case e of ResponseStart _ \<Rightarrow> s\<lparr>ks_pending := es, ks_response_started := True\<rparr> | _ \<Rightarrow> s\<lparr>ks_pending := es\<rparr>)))"

text \<open>The body of the loop of \<open>map_available_frames\<close>, for one frame.\<close>

definition map_frame :: "json_ops \<Rightarrow> event_stream_frame \<Rightarrow> kiro_source \<Rightarrow> (gateway_error + unit) \<times> kiro_source" where
  "map_frame js f s =
     (case (if ks_lifecycle s = AwaitingFirstFrame
            then (case mapper_start (ks_semantics s) of
                    (Inl _, m) \<Rightarrow> (Err provider_protocol_error, s\<lparr>ks_semantics := m\<rparr>)
                  | (Inr es, m) \<Rightarrow>
                      (Ok (), s\<lparr>ks_semantics := m, ks_pending := ks_pending s @ es, ks_lifecycle := Streaming\<rparr>))
            else (Ok (), s)) of
        (Inl e, s1) \<Rightarrow> (Err e, s1)
      | (Inr _, s1) \<Rightarrow>
          (case push_frame js f (ks_semantics s1) of
             (Inl _, m) \<Rightarrow> (Err provider_protocol_error, s1\<lparr>ks_semantics := m\<rparr>)
           | (Inr es, m) \<Rightarrow> (Ok (), s1\<lparr>ks_semantics := m, ks_pending := ks_pending s1 @ es\<rparr>)))"

lemma map_frame_framing: "map_frame js f s = (r, s') \<Longrightarrow> ks_framing s' = ks_framing s"
  by (auto simp: map_frame_def split: prod.splits sum.splits if_splits)

lemma map_frame_decreases:
  "(Inr (Some f), d) = next_frame (ks_framing s) \<Longrightarrow> (r, s') = map_frame js f (s\<lparr>ks_framing := d\<rparr>) \<Longrightarrow>
     length (dec_buffer (ks_framing s')) < length (dec_buffer (ks_framing s))"
  using next_frame_shrinks [of "ks_framing s" f d] map_frame_framing [of js f "s\<lparr>ks_framing := d\<rparr>" r s'] by simp

function map_available_frames :: "json_ops \<Rightarrow> kiro_source \<Rightarrow> (gateway_error + unit) \<times> kiro_source" where
  "map_available_frames js s =
     (case next_frame (ks_framing s) of
        (Inl _, d) \<Rightarrow> (Err provider_protocol_error, s\<lparr>ks_framing := d\<rparr>)
      | (Inr None, d) \<Rightarrow> (Ok (), s\<lparr>ks_framing := d\<rparr>)
      | (Inr (Some f), d) \<Rightarrow>
          (case map_frame js f (s\<lparr>ks_framing := d\<rparr>) of
             (Inl e, s') \<Rightarrow> (Err e, s')
           | (Inr _, s') \<Rightarrow> map_available_frames js s'))"
  by pat_completeness auto
termination
  by (relation "measure (\<lambda>(js, s). length (dec_buffer (ks_framing s)))")
    (auto intro: map_frame_decreases)

declare map_available_frames.simps [simp del]

definition finish_stream :: "json_ops \<Rightarrow> kiro_source \<Rightarrow> (gateway_error + unit) \<times> kiro_source" where
  "finish_stream js s =
     (case finish (ks_framing s) of
        (Inl _, d) \<Rightarrow> (Err provider_protocol_error, s\<lparr>ks_framing := d\<rparr>)
      | (Inr _, d) \<Rightarrow>
     (case map_available_frames js (s\<lparr>ks_framing := d\<rparr>) of
        (Inl e, s') \<Rightarrow> (Err e, s')
      | (Inr _, s') \<Rightarrow>
          if ks_lifecycle s' \<noteq> Streaming then (Err provider_protocol_error, s')
          else
           (case mapper_finish (ks_semantics s') of
              (Inl _, m) \<Rightarrow> (Err provider_protocol_error, s'\<lparr>ks_semantics := m\<rparr>)
            | (Inr es, m) \<Rightarrow>
                (Ok (), s'\<lparr>ks_semantics := m, ks_pending := ks_pending s' @ es, ks_lifecycle := Finished\<rparr>))))"

definition terminal_failure ::
  "gateway_error \<Rightarrow> kiro_source \<Rightarrow> (gateway_error + canonical_event option) \<times> kiro_source" where
  "terminal_failure e s =
     (if \<not> ks_response_started s then (Err e, s)
      else if ks_terminal_failure_emitted s then (Ok None, s)
      else (Ok (Some (StreamError \<lparr>se_error = e\<rparr>)), s\<lparr>ks_terminal_failure_emitted := True, ks_lifecycle := Finished\<rparr>))"

text \<open>
  The response body is the list of what its \<open>next_chunk\<close> returns; when the list is used up the body is
  still waiting, and so is the event source (\<open>None\<close>).
\<close>

type_synonym body_result = "gateway_error + byte list option"

fun next_event_loop ::
  "json_ops \<Rightarrow> body_result list \<Rightarrow> kiro_source \<Rightarrow>
     (gateway_error + canonical_event option) option \<times> body_result list \<times> kiro_source" where
  "next_event_loop js [] s = (None, [], s)"
| "next_event_loop js (Inl e # body) s = (let (r, s') = terminal_failure e s in (Some r, body, s'))"
| "next_event_loop js (Inr None # body) s =
     (case finish_stream js s of
        (Inr _, s') \<Rightarrow> (let (e, s'') = next_pending s' in (Some (Ok e), body, s''))
      | (Inl e, s') \<Rightarrow> (let (r, s'') = terminal_failure e s' in (Some r, body, s'')))"
| "next_event_loop js (Inr (Some chunk) # body) s =
     (case (case feed chunk (ks_framing s) of
              (Inl _, d) \<Rightarrow> (Err provider_protocol_error, s\<lparr>ks_framing := d\<rparr>)
            | (Inr _, d) \<Rightarrow> map_available_frames js (s\<lparr>ks_framing := d\<rparr>)) of
        (Inl e, s') \<Rightarrow> (let (r, s'') = terminal_failure e s' in (Some r, body, s''))
      | (Inr _, s') \<Rightarrow>
          (case next_pending s' of
             (Some e, s'') \<Rightarrow> (Some (Ok (Some e)), body, s'')
           | (None, s'') \<Rightarrow> next_event_loop js body s''))"

definition next_event ::
  "json_ops \<Rightarrow> body_result list \<Rightarrow> kiro_source \<Rightarrow>
     (gateway_error + canonical_event option) option \<times> body_result list \<times> kiro_source" where
  "next_event js body s =
     (case next_pending s of
        (Some e, s') \<Rightarrow> (Some (Ok (Some e)), body, s')
      | (None, s') \<Rightarrow>
          if ks_lifecycle s' = Finished then (Some (Ok None), body, s') else next_event_loop js body s')"

section \<open>Mapped events are lawful\<close>

text \<open>
  The canonical lifecycle allows a tool call id once per response. The mapper does not remember ids of
  completed tools, so this much depends on the upstream.
\<close>

definition fresh_tools :: "canonical_event list \<Rightarrow> bool" where
  "fresh_tools h \<longleftrightarrow> (\<forall>i. tool_starts i h \<le> 1)"

lemma fresh_tools_append: "fresh_tools (h @ es) \<Longrightarrow> fresh_tools h"
proof -
  have "tool_starts i (h @ es) = tool_starts i h + tool_starts i es" for i by (simp add: tool_starts_def)
  then show "fresh_tools (h @ es) \<Longrightarrow> fresh_tools h" by (simp add: fresh_tools_def) (metis add_leD1)
qed

text \<open>The mapper's view of the events mapped so far.\<close>

definition streaming :: "canonical_event list \<Rightarrow> kiro_mapper \<Rightarrow> bool" where
  "streaming h m \<longleftrightarrow>
     h \<noteq> [] \<and> lawful h \<and> terminals h = 0 \<and> in_message h \<and> (\<forall>i. tool_open i h \<longleftrightarrow> bm_get (km_open_tools m) i \<noteq> None)"

lemma tool_open_snoc:
  "tool_open i (h @ [e]) \<longleftrightarrow>
     tool_starts i h + of_bool (case e of ToolCallStart s \<Rightarrow> tcs_call_id s = i | _ \<Rightarrow> False) = 1 \<and>
     tool_ends i h + of_bool (case e of ToolCallEnd t \<Rightarrow> tce_call_id t = i | _ \<Rightarrow> False) = 0"
  by (simp only: tool_open_def history_snoc)

lemma streaming_delta:
  assumes "streaming h m" "(\<exists>d. e = TextDelta d \<and> td_text d \<noteq> []) \<or> (\<exists>d. e = ReasoningDelta d \<and> rd_text d \<noteq> []) \<or>
    (\<exists>d. e = ToolCallArgumentsDelta d \<and> bm_get (km_open_tools m) (tcd_call_id d) \<noteq> None)"
  shows "streaming (h @ [e]) m"
  using assms
  by (auto simp: streaming_def lawful_snoc event_allowed_nonempty in_message_def tool_open_def)

lemma streaming_start:
  assumes "streaming h m" "fresh_tools (h @ [ToolCallStart s])" "tcs_call_id s \<noteq> []" "tcs_name s \<noteq> []"
  shows "streaming (h @ [ToolCallStart s]) (m\<lparr>km_open_tools := bm_insert (tcs_call_id s) t (km_open_tools m)\<rparr>)"
proof -
  have "tool_starts (tcs_call_id s) h + 1 \<le> 1"
    using assms(2) spec [of "\<lambda>i. tool_starts i (h @ [ToolCallStart s]) \<le> 1" "tcs_call_id s"] by (simp add: fresh_tools_def)
  then have z: "tool_starts (tcs_call_id s) h = 0" by simp
  moreover have "tool_ends (tcs_call_id s) h = 0" using lawful_counts [of h "tcs_call_id s"] assms(1) z by (simp add: streaming_def)
  ultimately show ?thesis using assms
    by (auto simp: streaming_def lawful_snoc event_allowed_nonempty in_message_def tool_open_def bm_get_insert)
qed

lemma streaming_end:
  assumes "streaming h m" "bm_get (km_open_tools m) (tce_call_id t) \<noteq> None"
  shows "streaming (h @ [ToolCallEnd t]) (m\<lparr>km_open_tools := bm_remove (tce_call_id t) (km_open_tools m)\<rparr>)"
  using assms
  by (auto simp: streaming_def lawful_snoc event_allowed_nonempty in_message_def tool_open_def bm_get_remove)

lemma streaming_open_tools: "streaming h m \<Longrightarrow> (\<forall>i. bm_get (km_open_tools m') i = None \<longleftrightarrow> bm_get (km_open_tools m) i = None) \<Longrightarrow> streaming h m'"
  by (simp add: streaming_def)

lemma text_events_streaming:
  assumes "streaming h m" "text_events payload = Inr es" shows "streaming (h @ es) m"
proof -
  have field: "streaming (g @ xs) m" if "streaming g m" "text_field payload key = Inr xs" for g key xs
    using that streaming_delta [OF that(1)]
    by (auto simp: text_field_def split: option.splits json_value.splits if_splits)
  obtain xs ys where "text_field payload ''content'' = Inr xs" "text_field payload ''code'' = Inr ys" "es = xs @ ys"
    using assms(2) by (auto simp: text_events_def split: sum.splits)
  then show ?thesis using field [OF field [OF assms(1)]] by simp
qed

lemma reasoning_events_streaming:
  "streaming h m \<Longrightarrow> reasoning_events payload = Inr es \<Longrightarrow> streaming (h @ es) m"
  using streaming_delta [of h m] by (auto simp: reasoning_events_def split: sum.splits option.splits if_splits)

lemma open_tool_for_cases:
  assumes "open_tool_for payload m = (Inr (call_id, is_new), m')"
  obtains (new) name where "is_new" "bm_get (km_open_tools m) call_id = None" "call_id \<noteq> []" "name \<noteq> []"
      "m' = m\<lparr>km_open_tools := bm_insert call_id \<lparr>ot_name = name, ot_input = []\<rparr> (km_open_tools m)\<rparr>"
  | (old) "\<not> is_new" "bm_get (km_open_tools m) call_id \<noteq> None" "m' = m"
proof (cases "bm_get (km_open_tools m) call_id")
  case None
  then show thesis using assms new
    by (auto simp: open_tool_for_def is_valid_identifier_def split: sum.splits if_splits option.splits)
next
  case (Some tool)
  then show thesis using assms old
    by (auto simp: open_tool_for_def split: sum.splits if_splits option.splits)
qed

text \<open>The mapper before and after an operation differ in their open tools only.\<close>

definition same_phase :: "kiro_mapper \<Rightarrow> kiro_mapper \<Rightarrow> bool" where
  "same_phase m m' \<longleftrightarrow> km_started m' = km_started m \<and> km_finished m' = km_finished m"

lemma push_frame_phase: "push_frame js f m = (r, m') \<Longrightarrow> same_phase m m'"
  by (auto simp: push_frame_def tool_events_def open_tool_for_def tool_fragment_def same_phase_def Let_def
      split: if_splits option.splits sum.splits prod.splits json_value.splits)

lemma tool_fragment_streaming:
  assumes h: "streaming g m" and t: "bm_get (km_open_tools m) call_id = Some tool"
    and r: "tool_fragment js call_id is_new stop input m = (Inr es, m')"
  obtains xs where "es = (if is_new then [ToolCallStart \<lparr>tcs_call_id = call_id, tcs_name = ot_name tool, tcs_extensions = []\<rparr>] else []) @ xs"
    "streaming (g @ xs) m'"
proof -
  let ?tool = "tool\<lparr>ot_input := ot_input tool @ input\<rparr>"
  let ?m = "m\<lparr>km_open_tools := bm_insert call_id ?tool (km_open_tools m)\<rparr>"
  let ?d = "if input \<noteq> [] then [ToolCallArgumentsDelta \<lparr>tcd_call_id = call_id, tcd_delta = input, tcd_extensions = []\<rparr>] else []"
  have m: "streaming g ?m" using streaming_open_tools [OF h, of ?m] t by (simp add: bm_get_insert)
  then have d: "streaming (g @ ?d) ?m" using streaming_delta [OF m] by (auto simp: bm_get_insert)
  show thesis
  proof (cases stop)
    case False
    then show thesis using that [of ?d] d r t
      by (auto simp: tool_fragment_def Let_def split: if_splits)
  next
    case True
    then obtain a where a: "completed_tool_arguments js ?tool = Inr a"
      using r t by (auto simp: tool_fragment_def Let_def split: if_splits sum.splits)
    let ?e = "ToolCallEnd \<lparr>tce_call_id = call_id, tce_arguments = a, tce_extensions = []\<rparr>"
    have "streaming ((g @ ?d) @ [?e]) (?m\<lparr>km_open_tools := bm_remove call_id (km_open_tools ?m)\<rparr>)"
      using streaming_end [OF d, of "\<lparr>tce_call_id = call_id, tce_arguments = a, tce_extensions = []\<rparr>"] by (simp add: bm_get_insert)
    then show thesis using that [of "?d @ [?e]"] a r t True
      by (auto simp: tool_fragment_def Let_def split: if_splits)
  qed
qed

lemma tool_events_streaming:
  assumes h: "streaming h m" and r: "tool_events js payload m = (Inr es, m')" and fresh: "fresh_tools (h @ es)"
  shows "streaming (h @ es) m'"
proof -
  obtain call_id is_new m1 stop input where o: "open_tool_for payload m = (Inr (call_id, is_new), m1)"
    and f: "tool_fragment js call_id is_new stop input m1 = (Inr es, m')"
    using r by (auto simp: tool_events_def split: prod.splits sum.splits)
  from o show ?thesis
  proof (cases rule: open_tool_for_cases)
    case old
    then obtain tool where t: "bm_get (km_open_tools m1) call_id = Some tool" by auto
    from h have "streaming h m1" using old by simp
    from tool_fragment_streaming [OF this t f] show ?thesis using old by auto
  next
    case (new name)
    let ?s = "\<lparr>tcs_call_id = call_id, tcs_name = name, tcs_extensions = []\<rparr>"
    have t: "bm_get (km_open_tools m1) call_id = Some \<lparr>ot_name = name, ot_input = []\<rparr>" using new by (simp add: bm_get_insert)
    have es: "\<exists>xs. es = ToolCallStart ?s # xs" using f t new(1)
      by (auto simp: tool_fragment_def Let_def split: if_splits sum.splits)
    then have "fresh_tools (h @ [ToolCallStart ?s])" using fresh fresh_tools_append by (metis append.assoc append_Cons append_Nil)
    then have "streaming (h @ [ToolCallStart ?s]) m1"
      using streaming_start [OF h, of ?s "\<lparr>ot_name = name, ot_input = []\<rparr>"] new by simp
    from tool_fragment_streaming [OF this t f] show ?thesis using new(1,5) by auto
  qed
qed

lemma push_frame_streaming:
  assumes h: "streaming h m" and r: "push_frame js f m = (Inr es, m')" and fresh: "fresh_tools (h @ es)"
  shows "streaming (h @ es) m'"
proof -
  have tool: "streaming (h @ es) m'" if "tool_events js payload m = (Inr es, m')" for payload
    using tool_events_streaming [OF h that fresh] .
  have words: "streaming (h @ es) m'" if "text_events payload = Inr es \<or> reasoning_events payload = Inr es" "m' = m" for payload
    using that text_events_streaming [OF h] reasoning_events_streaming [OF h] by blast
  show ?thesis using r tool words h
    by (auto simp: push_frame_def split: if_splits option.splits sum.splits)
qed

section \<open>The source's output\<close>

text \<open>
  \<open>h\<close> is what has been handed out followed by what is pending. While the stream runs the mapper's view
  of it holds, unless the upstream reused a tool id.
\<close>

definition source_ok :: "canonical_event list \<Rightarrow> kiro_source \<Rightarrow> bool" where
  "source_ok h s \<longleftrightarrow>
     (case ks_lifecycle s of
        AwaitingFirstFrame \<Rightarrow> h = [] \<and> (\<exists>rid. ks_semantics s = mapper_new rid)
      | Streaming \<Rightarrow> km_started (ks_semantics s) \<and> \<not> km_finished (ks_semantics s) \<and> (fresh_tools h \<longrightarrow> streaming h (ks_semantics s))
      | Finished \<Rightarrow> fresh_tools h \<longrightarrow> canonical_response_try_new h = Inr h)"

text \<open>What is left of it when mapping has failed.\<close>

definition source_calm :: "canonical_event list \<Rightarrow> bool" where
  "source_calm h \<longleftrightarrow> (fresh_tools h \<longrightarrow> lawful h \<and> terminals h = 0)"

lemma lawful_Nil [simp]: "lawful []"
  by (simp add: lawful_def)

lemma source_ok_calm: "source_ok h s \<Longrightarrow> ks_lifecycle s \<noteq> Finished \<Longrightarrow> source_calm h"
  by (auto simp: source_ok_def source_calm_def streaming_def split: kiro_stream_lifecycle.splits)

lemma mapper_start_streaming:
  assumes "mapper_start m = (Inr es, m')" "m = mapper_new rid"
  shows "streaming es m' \<and> km_started m' \<and> \<not> km_finished m'"
  using assms by (auto simp: mapper_start_def mapper_new_def streaming_def lawful_def less_Suc_eq nth_Cons'
      in_message_def history_defs between_messages_def tool_open_def)

lemma map_frame_ok:
  assumes ok: "source_ok (es @ ks_pending s) s" and run: "ks_lifecycle s \<noteq> Finished" and r: "map_frame js f s = (x, s')"
  shows "ks_response_started s' = ks_response_started s" "ks_terminal_failure_emitted s' = ks_terminal_failure_emitted s"
    "case x of Inl _ \<Rightarrow> source_calm (es @ ks_pending s')
     | Inr _ \<Rightarrow> source_ok (es @ ks_pending s') s' \<and> ks_lifecycle s' = Streaming"
proof -
  obtain s1 where s1: "source_ok (es @ ks_pending s1) s1" "ks_lifecycle s1 = Streaming"
    and same: "ks_response_started s1 = ks_response_started s" "ks_terminal_failure_emitted s1 = ks_terminal_failure_emitted s"
    and p: "map_frame js f s =
      (case push_frame js f (ks_semantics s1) of
         (Inl _, m) \<Rightarrow> (Err provider_protocol_error, s1\<lparr>ks_semantics := m\<rparr>)
       | (Inr xs, m) \<Rightarrow> (Ok (), s1\<lparr>ks_semantics := m, ks_pending := ks_pending s1 @ xs\<rparr>))"
  proof (cases "ks_lifecycle s")
    case AwaitingFirstFrame
    then obtain rid where m: "ks_semantics s = mapper_new rid" and e: "es = []" "ks_pending s = []"
      using ok by (auto simp: source_ok_def)
    obtain ys m1 where y: "mapper_start (ks_semantics s) = (Inr ys, m1)"
      using m by (simp add: mapper_start_def mapper_new_def)
    let ?s = "s\<lparr>ks_semantics := m1, ks_pending := ks_pending s @ ys, ks_lifecycle := Streaming\<rparr>"
    have "source_ok (es @ ks_pending ?s) ?s" using mapper_start_streaming [OF y m] e by (simp add: source_ok_def)
    then show thesis using that [of ?s] y AwaitingFirstFrame by (simp add: map_frame_def)
  next
    case Streaming
    then show thesis using that [of s] ok by (simp add: map_frame_def)
  qed (use run in simp)
  obtain y m where y: "push_frame js f (ks_semantics s1) = (y, m)" by fastforce
  show "ks_response_started s' = ks_response_started s" "ks_terminal_failure_emitted s' = ks_terminal_failure_emitted s"
    using r p y same by (auto split: sum.splits)
  show "case x of Inl _ \<Rightarrow> source_calm (es @ ks_pending s')
     | Inr _ \<Rightarrow> source_ok (es @ ks_pending s') s' \<and> ks_lifecycle s' = Streaming"
  proof (cases y)
    case (Inl e)
    then show ?thesis using r p y source_ok_calm [OF s1(1)] s1(2) by auto
  next
    case (Inr xs)
    let ?h = "es @ ks_pending s1"
    have "km_started m \<and> \<not> km_finished m"
      using push_frame_phase [OF y] s1 by (simp add: same_phase_def source_ok_def)
    moreover have "streaming (?h @ xs) m" if fr: "fresh_tools (?h @ xs)"
      using push_frame_streaming [OF _ _ fr, of "ks_semantics s1" js f m] fresh_tools_append [OF fr] s1 y Inr
      by (simp add: source_ok_def)
    ultimately show ?thesis using r p y Inr s1(2) by (auto simp: source_ok_def)
  qed
qed

text \<open>What a step of the source keeps besides its events.\<close>

definition same_flags :: "kiro_source \<Rightarrow> kiro_source \<Rightarrow> bool" where
  "same_flags s s' \<longleftrightarrow>
     ks_response_started s' = ks_response_started s \<and> ks_terminal_failure_emitted s' = ks_terminal_failure_emitted s"

lemma source_ok_framing [simp]: "source_ok h (s\<lparr>ks_framing := d\<rparr>) = source_ok h s"
  by (simp add: source_ok_def split: kiro_stream_lifecycle.split)

lemma map_available_frames_ok:
  "source_ok (es @ ks_pending s) s \<Longrightarrow> ks_lifecycle s \<noteq> Finished \<Longrightarrow> map_available_frames js s = (x, s') \<Longrightarrow>
     same_flags s s' \<and>
     (case x of Inl _ \<Rightarrow> source_calm (es @ ks_pending s')
      | Inr _ \<Rightarrow> source_ok (es @ ks_pending s') s' \<and> ks_lifecycle s' \<noteq> Finished)"
proof (induction js s arbitrary: x s' rule: map_available_frames.induct)
  case (1 js s)
  obtain r d where nf: "next_frame (ks_framing s) = (r, d)" by fastforce
  let ?s = "s\<lparr>ks_framing := d\<rparr>"
  show ?case
  proof (cases "\<exists>f. r = Inr (Some f)")
    case False
    then have "s' = ?s" "x = Inl provider_protocol_error \<or> x = Inr ()"
      using "1.prems"(3) nf by (auto simp: map_available_frames.simps [of js s] split: sum.splits option.splits)
    then show ?thesis using "1.prems" source_ok_calm by (auto simp: same_flags_def)
  next
    case True
    then obtain f where f: "r = Inr (Some f)" by blast
    obtain y s1 where y: "map_frame js f ?s = (y, s1)" by fastforce
    have ok1: "source_ok (es @ ks_pending ?s) ?s" "ks_lifecycle ?s \<noteq> Finished" using "1.prems"(1,2) by simp_all
    note m = map_frame_ok [OF ok1 y]
    show ?thesis
    proof (cases y)
      case (Inl e)
      then show ?thesis using "1.prems"(3) nf f y m by (auto simp: map_available_frames.simps [of js s] same_flags_def)
    next
      case (Inr u)
      then have "map_available_frames js s1 = (x, s')"
        using "1.prems"(3) nf f y by (simp add: map_available_frames.simps [of js s])
      then show ?thesis using "1.IH" [of r d "Some f" f y s1 u x s'] nf f y m Inr by (auto simp: same_flags_def)
    qed
  qed
qed

lemma streaming_finish:
  assumes h: "streaming h m" and r: "mapper_finish m = (Inr es, m')"
  shows "canonical_response_try_new (h @ es) = Inr (h @ es)"
proof -
  let ?a = "MessageEnd \<lparr>me_extensions = []\<rparr>" and ?b = "ResponseEnd \<lparr>stop_reason = None, stop_sequence = None, re_extensions = []\<rparr>"
  have es: "es = [?a, ?b]" and "km_open_tools m = []" using r by (auto simp: mapper_finish_def split: if_splits)
  then have closed: "tools_closed h" using h by (simp add: streaming_def tools_closed_iff)
  have 1: "lawful (h @ [?a])" using h closed by (simp add: streaming_def lawful_snoc event_allowed_nonempty)
  have "tools_closed (h @ [?a])" using closed by (simp add: tools_closed_iff tool_open_def)
  moreover have "between_messages (h @ [?a])" "terminals (h @ [?a]) = 0"
    using h by (simp_all add: streaming_def between_messages_def in_message_def)
  ultimately have "lawful ((h @ [?a]) @ [?b])"
    using 1 lawful_snoc [of "h @ [?a]" ?b] event_allowed_nonempty [of "h @ [?a]" ?b] by simp
  then show ?thesis using try_new_iff [of "h @ es" "h @ es"] es by auto
qed

lemma finish_stream_ok:
  assumes "source_ok (es @ ks_pending s) s" "ks_lifecycle s \<noteq> Finished" "finish_stream js s = (x, s')"
  shows "same_flags s s' \<and>
     (case x of Inl _ \<Rightarrow> source_calm (es @ ks_pending s')
      | Inr _ \<Rightarrow> source_ok (es @ ks_pending s') s' \<and> ks_lifecycle s' = Finished \<and> ks_pending s' \<noteq> [])"
proof -
  obtain r d where f: "finish (ks_framing s) = (r, d)" by fastforce
  let ?s = "s\<lparr>ks_framing := d\<rparr>"
  obtain y s1 where y: "map_available_frames js ?s = (y, s1)" by fastforce
  have m: "same_flags ?s s1 \<and> (case y of Inl _ \<Rightarrow> source_calm (es @ ks_pending s1)
      | Inr _ \<Rightarrow> source_ok (es @ ks_pending s1) s1 \<and> ks_lifecycle s1 \<noteq> Finished)"
    using map_available_frames_ok [of es ?s js y s1] assms(1,2) y by simp
  show ?thesis
  proof (cases "(\<exists>e. r = Inl e) \<or> (\<exists>e. y = Inl e) \<or> ks_lifecycle s1 \<noteq> Streaming")
    case True
    then show ?thesis using assms f y m source_ok_calm
      by (auto simp: finish_stream_def same_flags_def split: sum.splits if_splits)
  next
    case False
    then obtain u v where uv: "r = Inr u" "y = Inr v" "ks_lifecycle s1 = Streaming" by (cases r; cases y) auto
    obtain z m1 where z: "mapper_finish (ks_semantics s1) = (z, m1)" by fastforce
    have ok1: "source_ok (es @ ks_pending s1) s1" using m uv by simp
    show ?thesis
    proof (cases z)
      case (Inl e)
      then show ?thesis using assms(3) f y uv z m source_ok_calm [OF ok1] by (auto simp: finish_stream_def same_flags_def)
    next
      case (Inr zs)
      have "canonical_response_try_new ((es @ ks_pending s1) @ zs) = Inr ((es @ ks_pending s1) @ zs)"
        if "fresh_tools ((es @ ks_pending s1) @ zs)"
        using streaming_finish [of "es @ ks_pending s1" "ks_semantics s1" zs m1] fresh_tools_append [OF that] ok1 uv z Inr
        by (simp add: source_ok_def)
      moreover have "zs \<noteq> []" using z Inr by (auto simp: mapper_finish_def split: if_splits)
      ultimately show ?thesis using assms(3) f y uv z m Inr by (auto simp: finish_stream_def source_ok_def same_flags_def)
    qed
  qed
qed

section \<open>Pulling the source to its end\<close>

text \<open>
  A consumer calls \<open>next_event\<close> until the source waits for its body, refuses, fails the stream it has
  started, or ends.
\<close>

datatype pull_end = Waiting | Refused gateway_error | StreamFailed | Ended

definition is_stream_error :: "canonical_event \<Rightarrow> bool" where
  "is_stream_error ev = (case ev of StreamError _ \<Rightarrow> True | _ \<Rightarrow> False)"

lemma next_event_loop_consumes:
  "next_event_loop js body s = (Some r, body', s') \<Longrightarrow> length body' < length body"
proof (induction js body s rule: next_event_loop.induct)
  case (4 js chunk body s)
  then show ?case
    by (fastforce simp: Let_def split: prod.splits sum.splits option.splits)
qed (auto simp: Let_def split: prod.splits sum.splits)

lemma next_event_consumes:
  "next_event js body s = (Some (Inr (Some e)), body', s') \<Longrightarrow>
     length body' < length body \<or> body' = body \<and> length (ks_pending s') < length (ks_pending s)"
  by (auto simp: next_event_def next_pending_def dest: next_event_loop_consumes
      split: list.splits if_splits canonical_event.splits)

function pull :: "json_ops \<Rightarrow> body_result list \<Rightarrow> kiro_source \<Rightarrow> canonical_event list \<times> pull_end \<times> kiro_source" where
  "pull js body s =
     (case next_event js body s of
        (None, _, s') \<Rightarrow> ([], Waiting, s')
      | (Some (Inl e), _, s') \<Rightarrow> ([], Refused e, s')
      | (Some (Inr None), _, s') \<Rightarrow> ([], Ended, s')
      | (Some (Inr (Some ev)), body', s') \<Rightarrow>
          if is_stream_error ev then ([ev], StreamFailed, s')
          else (let (es, fin, s'') = pull js body' s' in (ev # es, fin, s'')))"
  by pat_completeness auto
termination
  by (relation "measures [\<lambda>(js, body, s). length body, \<lambda>(js, body, s). length (ks_pending s)]")
    (auto dest!: next_event_consumes [OF sym])

declare pull.simps [simp del]

text \<open>The source after the events \<open>h\<close> have been handed out and the stream has not failed.\<close>

definition source_live :: "canonical_event list \<Rightarrow> kiro_source \<Rightarrow> bool" where
  "source_live h s \<longleftrightarrow>
     source_ok (h @ ks_pending s) s \<and> \<not> ks_terminal_failure_emitted s \<and>
     (fresh_tools (h @ ks_pending s) \<longrightarrow> (ks_response_started s \<longleftrightarrow> h \<noteq> []))"

lemma lawful_append: "lawful (xs @ ys) \<Longrightarrow> lawful xs"
  using lawful_take [of "xs @ ys" "length xs"] by simp

lemma lawful_starts: "lawful (e # es) \<Longrightarrow> \<exists>x. e = ResponseStart x"
  by (cases e) (auto simp: lawful_def dest!: spec [of _ 0])

lemma terminals_append: "terminals (xs @ ys) = terminals xs + terminals ys"
  by (simp add: terminals_def)

lemma source_ok_lawful: "source_ok h s \<Longrightarrow> fresh_tools h \<Longrightarrow> lawful h"
  using source_ok_calm [of h s] try_new_iff [of h h]
  by (cases "ks_lifecycle s = Finished") (auto simp: source_calm_def source_ok_def)

lemma source_ok_pending [simp]: "source_ok h (s\<lparr>ks_pending := p\<rparr>) = source_ok h s"
  "source_ok h (s\<lparr>ks_pending := p, ks_response_started := b\<rparr>) = source_ok h s"
  by (simp_all add: source_ok_def split: kiro_stream_lifecycle.split)

lemma next_pending_some:
  "next_pending s = (Some e, s') \<Longrightarrow>
     \<exists>es. ks_pending s = e # es \<and>
       s' = s\<lparr>ks_pending := es, ks_response_started := (ks_response_started s \<or> (\<exists>x. e = ResponseStart x))\<rparr>"
  by (cases e) (auto simp: next_pending_def split: list.splits)

lemma next_pending_Cons: "ks_pending s = e # es \<Longrightarrow> \<exists>s'. next_pending s = (Some e, s')"
  by (simp add: next_pending_def)

lemma next_pending_live:
  assumes "source_live h s" "next_pending s = (Some e, s')"
  shows "source_live (h @ [e]) s'"
proof -
  obtain es where es: "ks_pending s = e # es"
    and s': "s' = s\<lparr>ks_pending := es, ks_response_started := (ks_response_started s \<or> (\<exists>x. e = ResponseStart x))\<rparr>"
    using next_pending_some [OF assms(2)] by blast
  have "\<exists>x. e = ResponseStart x" if "fresh_tools (h @ e # es)" "h = []"
    using assms(1) es that source_ok_lawful [of "h @ e # es" s] lawful_starts [of e es] by (simp add: source_live_def)
  then have "fresh_tools (h @ e # es) \<longrightarrow> ks_response_started s'"
    using assms(1) es s' by (cases "h = []") (simp_all add: source_live_def)
  then show ?thesis using assms(1) es s' by (simp add: source_live_def)
qed

lemma terminal_failure_live:
  assumes calm: "source_calm (h @ ks_pending s)" and flag: "\<not> ks_terminal_failure_emitted s"
    and started: "fresh_tools (h @ ks_pending s) \<longrightarrow> (ks_response_started s \<longleftrightarrow> h \<noteq> [])"
    and r: "terminal_failure e s = (r, s')" and fresh: "fresh_tools (h @ ks_pending s')"
  shows "case r of Inl _ \<Rightarrow> h = [] | Inr x \<Rightarrow> x = Some (StreamError \<lparr>se_error = e\<rparr>) \<and> h \<noteq> [] \<and> lawful (h @ [the x])"
proof -
  have p: "ks_pending s' = ks_pending s" using r by (auto simp: terminal_failure_def split: if_splits)
  have started': "ks_response_started s \<longleftrightarrow> h \<noteq> []" using started fresh p by simp
  have "lawful (h @ ks_pending s)" "terminals (h @ ks_pending s) = 0" using calm fresh p by (simp_all add: source_calm_def)
  then have law: "lawful h" "terminals h = 0" using lawful_append [of h "ks_pending s"] by (simp_all add: terminals_append)
  show ?thesis
  proof (cases "h = []")
    case True
    then show ?thesis using r started' by (auto simp: terminal_failure_def)
  next
    case False
    then have "lawful (h @ [StreamError \<lparr>se_error = e\<rparr>])"
      using law event_allowed_nonempty [of h "StreamError \<lparr>se_error = e\<rparr>"] by (simp add: lawful_snoc)
    moreover have "r = Inr (Some (StreamError \<lparr>se_error = e\<rparr>))"
      using r started' flag False by (simp add: terminal_failure_def)
    ultimately show ?thesis using False by simp
  qed
qed

definition pulled :: "canonical_event list \<Rightarrow> (gateway_error + canonical_event option) option \<Rightarrow> kiro_source \<Rightarrow> bool" where
  "pulled h r s \<longleftrightarrow>
     (case r of
        None \<Rightarrow> fresh_tools (h @ ks_pending s) \<longrightarrow> lawful h \<and> terminals h = 0
      | Some (Inl _) \<Rightarrow> fresh_tools (h @ ks_pending s) \<longrightarrow> h = []
      | Some (Inr None) \<Rightarrow> fresh_tools (h @ ks_pending s) \<longrightarrow> canonical_response_try_new h = Inr h
      | Some (Inr (Some ev)) \<Rightarrow>
          (if is_stream_error ev then fresh_tools (h @ ev # ks_pending s) \<longrightarrow> h \<noteq> [] \<and> lawful (h @ [ev])
           else source_live (h @ [ev]) s))"

lemma fresh_tools_error: "fresh_tools (h @ StreamError x # p) \<longleftrightarrow> fresh_tools (h @ p)"
  by (simp add: fresh_tools_def tool_starts_def)

lemma pulled_failure:
  assumes "source_calm (h @ ks_pending s)" "\<not> ks_terminal_failure_emitted s"
    "fresh_tools (h @ ks_pending s) \<longrightarrow> (ks_response_started s \<longleftrightarrow> h \<noteq> [])" "terminal_failure e s = (r, s')"
  shows "pulled h (Some r) s'"
proof (cases "fresh_tools (h @ ks_pending s')")
  case True
  then show ?thesis
    using terminal_failure_live [OF assms True]
    by (cases r) (auto simp: pulled_def is_stream_error_def)
next
  case False
  have "r = Inl e \<or> r = Inr (Some (StreamError \<lparr>se_error = e\<rparr>))"
    using assms(2,4) by (auto simp: terminal_failure_def split: if_splits)
  then show ?thesis using False by (auto simp: pulled_def is_stream_error_def fresh_tools_error)
qed

lemma pulled_pending:
  assumes "source_live h s" "next_pending s = (Some e, s')"
  shows "pulled h (Some (Ok (Some e))) s'"
proof -
  have live: "source_live (h @ [e]) s'" by (rule next_pending_live [OF assms])
  have "h \<noteq> [] \<and> lawful (h @ [e])" if "is_stream_error e" "fresh_tools (h @ e # ks_pending s')"
  proof -
    have "lawful ((h @ [e]) @ ks_pending s')"
      using live that(2) source_ok_lawful [of "h @ e # ks_pending s'" s'] by (simp add: source_live_def)
    then have "lawful (h @ [e])" by (rule lawful_append)
    moreover have "h \<noteq> []" using calculation that(1) lawful_starts [of e "[]"] by (auto simp: is_stream_error_def)
    ultimately show ?thesis by blast
  qed
  then show ?thesis using live by (simp add: pulled_def)
qed

lemma drained_started:
  assumes "source_live h s" "ks_pending s = []" "same_flags s s'"
  shows "\<not> ks_terminal_failure_emitted s'" "fresh_tools (h @ ks_pending s') \<longrightarrow> (ks_response_started s' \<longleftrightarrow> h \<noteq> [])"
  using assms fresh_tools_append [of h "ks_pending s'"] by (auto simp: source_live_def same_flags_def)

lemma mapped_chunk_ok:
  assumes "source_live h s" "ks_pending s = []" "ks_lifecycle s \<noteq> Finished"
    and r: "(case feed chunk (ks_framing s) of
        (Inl _, d) \<Rightarrow> (Err provider_protocol_error, s\<lparr>ks_framing := d\<rparr>)
      | (Inr _, d) \<Rightarrow> map_available_frames js (s\<lparr>ks_framing := d\<rparr>)) = (x, s')"
  shows "same_flags s s'" "case x of Inl _ \<Rightarrow> source_calm (h @ ks_pending s')
      | Inr _ \<Rightarrow> source_ok (h @ ks_pending s') s' \<and> ks_lifecycle s' \<noteq> Finished"
proof -
  obtain f d where f: "feed chunk (ks_framing s) = (f, d)" by fastforce
  let ?s = "s\<lparr>ks_framing := d\<rparr>"
  have ok: "source_ok (h @ ks_pending ?s) ?s" "ks_lifecycle ?s \<noteq> Finished" "source_calm h"
    using assms(1-3) source_ok_calm [of h s] by (simp_all add: source_live_def)
  have "same_flags ?s s' \<and> (case x of Inl _ \<Rightarrow> source_calm (h @ ks_pending s')
      | Inr _ \<Rightarrow> source_ok (h @ ks_pending s') s' \<and> ks_lifecycle s' \<noteq> Finished)"
  proof (cases f)
    case (Inl e)
    then have "s' = ?s" "x = Inl provider_protocol_error" using r f by simp_all
    then show ?thesis using ok assms(2) by (simp add: same_flags_def)
  next
    case (Inr u)
    then show ?thesis using map_available_frames_ok [OF ok(1,2), of js x s'] r f by simp
  qed
  then show "same_flags s s'" "case x of Inl _ \<Rightarrow> source_calm (h @ ks_pending s')
      | Inr _ \<Rightarrow> source_ok (h @ ks_pending s') s' \<and> ks_lifecycle s' \<noteq> Finished" by (simp_all add: same_flags_def)
qed

lemma finish_branch_pulled:
  assumes live: "source_live h s" "ks_pending s = []" "ks_lifecycle s \<noteq> Finished"
    and r: "next_event_loop js (Inr None # body) s = (r, body', s')"
  shows "pulled h r s'"
proof -
  obtain x s1 where x: "finish_stream js s = (x, s1)" by fastforce
  have m: "same_flags s s1" "case x of Inl _ \<Rightarrow> source_calm (h @ ks_pending s1)
      | Inr _ \<Rightarrow> source_ok (h @ ks_pending s1) s1 \<and> ks_lifecycle s1 = Finished \<and> ks_pending s1 \<noteq> []"
    using finish_stream_ok [of h s js x s1] live x by (simp_all add: source_live_def)
  note d = drained_started [OF live(1,2) m(1)]
  show ?thesis
  proof (cases x)
    case (Inl e)
    obtain y s2 where y: "terminal_failure e s1 = (y, s2)" by fastforce
    then show ?thesis using r x Inl pulled_failure [OF _ d y] m(2) by simp
  next
    case (Inr u)
    then have live1: "source_live h s1" "ks_pending s1 \<noteq> []" using m d by (simp_all add: source_live_def)
    then obtain e s2 where y: "next_pending s1 = (Some e, s2)"
      using next_pending_Cons [of s1] by (meson neq_Nil_conv)
    then show ?thesis using r x Inr pulled_pending [OF live1(1) y] by simp
  qed
qed

lemma next_event_loop_pulled:
  "source_live h s \<Longrightarrow> ks_pending s = [] \<Longrightarrow> ks_lifecycle s \<noteq> Finished \<Longrightarrow>
     next_event_loop js body s = (r, body', s') \<Longrightarrow> pulled h r s'"
proof (induction js body s arbitrary: r body' s' rule: next_event_loop.induct)
  case (1 js s)
  then show ?case using source_ok_calm [of h s] by (auto simp: pulled_def source_live_def source_calm_def)
next
  case (2 js e body s)
  obtain x s1 where x: "terminal_failure e s = (x, s1)" by fastforce
  have "source_calm (h @ ks_pending s)" using "2.prems" source_ok_calm [of h s] by (simp add: source_live_def)
  then have "pulled h (Some x) s1"
    by (rule pulled_failure [OF _ drained_started [OF "2.prems"(1,2)] x]) (simp_all add: same_flags_def)
  then show ?case using "2.prems"(4) x by simp
next
  case (3 js body s)
  then show ?case using finish_branch_pulled by blast
next
  case (4 js chunk body s)
  obtain a s1 where a: "(case feed chunk (ks_framing s) of
      (Inl _, d) \<Rightarrow> (Err provider_protocol_error, s\<lparr>ks_framing := d\<rparr>)
    | (Inr _, d) \<Rightarrow> map_available_frames js (s\<lparr>ks_framing := d\<rparr>)) = (a, s1)" by fastforce
  note m = mapped_chunk_ok [OF "4.prems"(1-3) a] and d = drained_started [OF "4.prems"(1,2) mapped_chunk_ok(1) [OF "4.prems"(1-3) a]]
  have run: "next_event_loop js (Inr (Some chunk) # body) s =
      (case (a, s1) of
        (Inl e, s') \<Rightarrow> (let (r, s'') = terminal_failure e s' in (Some r, body, s''))
      | (Inr _, s') \<Rightarrow>
          (case next_pending s' of
             (Some e, s'') \<Rightarrow> (Some (Ok (Some e)), body, s'')
           | (None, s'') \<Rightarrow> next_event_loop js body s''))"
    using a by simp
  show ?case
  proof (cases a)
    case (Inl e)
    obtain y s2 where y: "terminal_failure e s1 = (y, s2)" by fastforce
    then show ?thesis using "4.prems"(4) run Inl pulled_failure [OF _ d y] m(2) by simp
  next
    case (Inr u)
    then have live1: "source_live h s1" "ks_lifecycle s1 \<noteq> Finished" using m d by (simp_all add: source_live_def)
    show ?thesis
    proof (cases "ks_pending s1")
      case Nil
      then have np: "next_pending s1 = (None, s1)" by (simp add: next_pending_def)
      then have "next_event_loop js body s1 = (r, body', s')" using "4.prems"(4) run Inr by simp
      then show ?thesis
        using "4.IH" [OF a [symmetric] Inr np [symmetric]] Nil live1 by simp
    next
      case (Cons e es)
      then obtain s2 where y: "next_pending s1 = (Some e, s2)" using next_pending_Cons by blast
      then show ?thesis using "4.prems"(4) run Inr pulled_pending [OF live1(1) y] by simp
    qed
  qed
qed

lemma next_event_pulled:
  assumes live: "source_live h s" and r: "next_event js body s = (r, body', s')"
  shows "pulled h r s'"
proof (cases "ks_pending s")
  case (Cons e es)
  then obtain s1 where y: "next_pending s = (Some e, s1)" using next_pending_Cons by blast
  then show ?thesis using r pulled_pending [OF live y] by (simp add: next_event_def)
next
  case Nil
  then have y: "next_pending s = (None, s)" by (simp add: next_pending_def)
  show ?thesis
  proof (cases "ks_lifecycle s = Finished")
    case True
    then have "r = Some (Ok None)" "s' = s" using r y by (simp_all add: next_event_def)
    then show ?thesis using live True Nil by (simp add: pulled_def source_live_def source_ok_def)
  next
    case False
    then show ?thesis using r y next_event_loop_pulled [OF live Nil False] by (simp add: next_event_def)
  qed
qed

text \<open>What a consumer has in its hands when its pulling ends.\<close>

fun pull_sound :: "canonical_event list \<Rightarrow> pull_end \<Rightarrow> bool" where
  "pull_sound es Waiting \<longleftrightarrow> lawful es \<and> terminals es = 0"
| "pull_sound es (Refused _) \<longleftrightarrow> es = []"
| "pull_sound es StreamFailed \<longleftrightarrow> lawful es \<and> (\<exists>h x. h \<noteq> [] \<and> es = h @ [StreamError x])"
| "pull_sound es Ended \<longleftrightarrow> canonical_response_try_new es = Inr es"

lemma pull_pulled:
  "source_live h s \<Longrightarrow> pull js body s = (es, fin, s') \<Longrightarrow> fresh_tools (h @ es @ ks_pending s') \<Longrightarrow> pull_sound (h @ es) fin"
proof (induction js body s arbitrary: h es fin s' rule: pull.induct)
  case (1 js body s)
  obtain r body1 s1 where n: "next_event js body s = (r, body1, s1)" by (metis prod_cases3)
  note p = next_event_pulled [OF "1.prems"(1) n]
  show ?case
  proof (cases "\<exists>ev. r = Some (Inr (Some ev))")
    case False
    then consider "r = None" | e where "r = Some (Inl e)" | "r = Some (Inr None)"
      by (metis option.exhaust sum.exhaust)
    then show ?thesis using "1.prems"(2,3) n p by cases (auto simp: pull.simps [of js body s] pulled_def)
  next
    case True
    then obtain ev where ev: "r = Some (Inr (Some ev))" by blast
    show ?thesis
    proof (cases "is_stream_error ev")
      case True
      then have "es = [ev]" "fin = StreamFailed" "s' = s1" using "1.prems"(2) n ev by (simp_all add: pull.simps [of js body s])
      moreover obtain x where "ev = StreamError x" using True by (cases ev) (simp_all add: is_stream_error_def)
      ultimately show ?thesis using "1.prems"(3) p ev True by (simp add: pulled_def)
    next
      case False
      obtain es1 where es1: "pull js body1 s1 = (es1, fin, s')" "es = ev # es1"
        using "1.prems"(2) n ev False by (cases "pull js body1 s1") (simp add: pull.simps [of js body s])
      have "source_live (h @ [ev]) s1" using p ev False by (simp add: pulled_def)
      then have "pull_sound ((h @ [ev]) @ es1) fin"
        using "1.IH" [OF n [symmetric] ev refl refl refl False _ es1(1), of "h @ [ev]"] es1(2) "1.prems"(3) by simp
      then show ?thesis using es1(2) by simp
    qed
  qed
qed

lemma source_new_live: "source_live [] (source_new rid)"
  by (auto simp: source_live_def source_new_def source_ok_def)

text \<open>
  C14: Whatever bytes and JSON the upstream sends, and however the body is cut into chunks, as long as it does
  not reuse a tool call id, a consumer of the Kiro event source holds a canonical stream: while it waits, a
  lawful prefix without a terminal event; after a refusal, nothing at all; after a failure in the stream, a
  lawful stream whose only terminal event is the closing \<open>StreamError\<close>; at the end, events that
  \<open>CanonicalResponse::try_new\<close> accepts.
\<close>

theorem kiro_events_canonical:
  assumes "pull js body (source_new rid) = (es, fin, s')"
    and "\<forall>i. tool_starts i (es @ ks_pending s') \<le> 1"
  shows "case fin of
      Waiting \<Rightarrow> lawful es \<and> terminals es = 0
    | Refused _ \<Rightarrow> es = []
    | StreamFailed \<Rightarrow> lawful es \<and> (\<exists>h x. h \<noteq> [] \<and> es = h @ [StreamError x])
    | Ended \<Rightarrow> canonical_response_try_new es = Inr es"
  using pull_pulled [OF source_new_live assms(1)] assms(2) by (cases fin) (simp_all add: fresh_tools_def)

subsection \<open>Samples\<close>

definition sample_headers :: "string \<Rightarrow> (string \<times> header_value) list" where
  "sample_headers t = [('':message-type'', StringValue ''event''), ('':event-type'', StringValue t)]"

definition sample_js :: json_ops where
  "sample_js =
     \<lparr>js_parse = (\<lambda>_. Some (ParsedObject [(''content'', ParsedString ''hi'')])), js_to_string = (\<lambda>_. None),
      js_raw_value = (\<lambda>_. True)\<rparr>"

definition sample_wire :: "string \<Rightarrow> byte list" where
  "sample_wire t = encode_frame (sample_headers t) [1]"

lemma sample_wire_ok:
  "frame_ok (sample_headers ''assistantResponseEvent'') [1]" "frame_ok (sample_headers ''contextUsageEvent'') [1]"
  "frame_ok (sample_headers ''x'') [1]"
  by (simp_all add: frame_ok_def header_ok_def bytes_of_string_def encode_headers_def encode_header_def max_frame_bytes_def
      sample_headers_def)

lemma sample_wire_length: "length (sample_wire t) = length t + 54"
  by (simp add: sample_wire_def encode_frame_def sample_headers_def encode_headers_def encode_header_def)

lemma next_frame_empty [simp]: "\<not> dec_stopped d \<Longrightarrow> dec_buffer d = [] \<Longrightarrow> next_frame d = (Ok None, d)"
  by (simp add: next_frame_def try_prelude_def prelude_bytes_def)

lemma next_frame_sample:
  assumes "frame_ok (sample_headers t) [1]"
  shows "next_frame \<lparr>dec_buffer = sample_wire t @ rest, dec_consecutive_errors = n, dec_stopped = False\<rparr> =
      (Ok (Some \<lparr>fr_headers = headers_of (sample_headers t) [], fr_payload = [1]\<rparr>),
       \<lparr>dec_buffer = rest, dec_consecutive_errors = 0, dec_stopped = False\<rparr>)"
    "next_frame \<lparr>dec_buffer = sample_wire t, dec_consecutive_errors = n, dec_stopped = False\<rparr> =
      (Ok (Some \<lparr>fr_headers = headers_of (sample_headers t) [], fr_payload = [1]\<rparr>),
       \<lparr>dec_buffer = [], dec_consecutive_errors = 0, dec_stopped = False\<rparr>)"
  using next_frame_encoded [of _ "sample_headers t" "[1]" _, OF _ _ assms] by (simp_all add: sample_wire_def)

lemma sample_frame_types:
  "message_type (headers_of (sample_headers t) []) = Some ''event''"
  "event_type (headers_of (sample_headers t) []) = Some t"
  by (simp_all add: message_type_def event_type_def headers_get_string_def headers_of_def sample_headers_def)

lemma sample_payload: "strict_payload_object sample_js [1] = Ok [(''content'', JString ''hi'')]"
  by (simp add: strict_payload_object_def deserialize_strict_json_def sample_js_def max_event_payload_bytes_def ok_or_def)

lemma push_frame_sample:
  assumes "km_started m" "\<not> km_finished m"
  shows "push_frame sample_js \<lparr>fr_headers = headers_of (sample_headers ''assistantResponseEvent'') [], fr_payload = [1]\<rparr> m =
      (Ok [TextDelta \<lparr>td_text = ''hi'', td_extensions = []\<rparr>], m)"
    "push_frame sample_js \<lparr>fr_headers = headers_of (sample_headers ''contextUsageEvent'') [], fr_payload = [1]\<rparr> m = (Ok [], m)"
    "push_frame sample_js \<lparr>fr_headers = headers_of (sample_headers ''x'') [], fr_payload = [1]\<rparr> m = (Err UnsupportedEvent, m)"
  using assms by (simp_all add: push_frame_def sample_frame_types sample_payload text_events_def text_field_def)

definition sample_body :: "body_result list" where
  "sample_body = [Ok (Some (sample_wire ''assistantResponseEvent'')), Ok None]"

lemma feed_sample:
  "length bs \<le> 200 \<Longrightarrow> \<not> dec_stopped d \<Longrightarrow> dec_buffer d = [] \<Longrightarrow> feed bs d = (Ok (), d\<lparr>dec_buffer := bs\<rparr>)"
  by (simp add: feed_def max_buffer_bytes_def max_frame_bytes_def)

lemmas sample_steps = pull.simps source_new_def decoder_new_def mapper_new_def next_event_def next_pending_def feed_sample
  sample_wire_length next_frame_sample sample_wire_ok map_frame_def mapper_start_def push_frame_sample map_available_frames.simps
  finish_stream_def finish_def mapper_finish_def is_stream_error_def terminal_failure_def

lemma sample_pull:
  "pull sample_js sample_body (source_new ''r'') =
     ([ResponseStart \<lparr>rs_response_id = ''r'', rs_extensions = []\<rparr>, MessageStart \<lparr>ms_role = ''assistant'', ms_extensions = []\<rparr>,
       TextDelta \<lparr>td_text = ''hi'', td_extensions = []\<rparr>, MessageEnd \<lparr>me_extensions = []\<rparr>,
       ResponseEnd \<lparr>stop_reason = None, stop_sequence = None, re_extensions = []\<rparr>], Ended,
      (source_new ''r'')\<lparr>ks_semantics := (mapper_new ''r'')\<lparr>km_started := True, km_finished := True\<rparr>,
        ks_lifecycle := Finished, ks_response_started := True\<rparr>)"
  by (simp add: sample_body_def sample_steps)

theorem kiro_events_canonical_witness:
  "\<exists>es s'. pull sample_js sample_body (source_new ''r'') = (es, Ended, s') \<and> length es = 5 \<and>
     canonical_response_try_new es = Inr es"
proof -
  obtain es s' where r: "pull sample_js sample_body (source_new ''r'') = (es, Ended, s')" "length es = 5"
    and "\<forall>i. tool_starts i (es @ ks_pending s') \<le> 1"
    using sample_pull by (simp add: tool_starts_def source_new_def)
  then show ?thesis using kiro_events_canonical [OF r(1)] by auto
qed

text \<open>
  \<open>terminal_failure\<close> leaves \<open>pending\<close> alone: what was mapped from intact frames ahead of the failing one in the
  same chunk is handed out after the \<open>StreamError\<close> when the source is asked again.
\<close>

definition sample_failing_body :: "body_result list" where
  "sample_failing_body =
     [Ok (Some (sample_wire ''contextUsageEvent'')), Ok (Some (sample_wire ''assistantResponseEvent'' @ sample_wire ''x''))]"

lemma kiro_events_after_stream_error:
  "\<exists>es s' s''. pull sample_js sample_failing_body (source_new ''r'') = (es, StreamFailed, s') \<and>
     next_event sample_js [] s' = (Some (Ok (Some (TextDelta \<lparr>td_text = ''hi'', td_extensions = []\<rparr>))), [], s'')"
  by (simp add: sample_failing_body_def sample_steps)

end
