(* ===== verification/Spec2Isabelle.thy ===== *)
theory Spec2Isabelle
  imports Client_Key Runtime_Probe Attempt_Properties Canonical_Stream Kiro_Source
begin

text \<open>
  A verification library for the gateway in \<open>src/\<close>: a Rust service that authenticates client keys,
  routes a request to one of several upstream endpoints and credentials, retries safely, and streams
  the answer back as canonical events.

  \<^bold>\<open>How the parts interact.\<close> A request is authenticated against a published route snapshot
  (\<open>route_snapshot.rs\<close>, \<open>client_key.rs\<close>). The attempt orchestrator (\<open>attempt_orchestrator.rs\<close>) then asks the
  credential scheduler (\<open>credential_scheduler.rs\<close>) for a candidate of the route and a leased credential of
  the candidate's endpoint (\<open>route_scheduler.rs\<close>, \<open>credential_pool.rs\<close>), filtered by the runtime health
  and quota registries (\<open>runtime_health.rs\<close>, \<open>runtime_quota.rs\<close>), starts the driver, records failures in
  those registries, reports each attempt to the event queue (\<open>gateway_event.rs\<close>,
  \<open>gateway-observability/src/lib.rs\<close>) and retries while the budget and the stream's retry gate allow it.
  The driver's output is a sequence of canonical events (\<open>canonical_event.rs\<close>) that travels through the
  bounded stream (\<open>gateway-stream/src/lib.rs\<close>), whose first delivery closes the retry gate.

  \<^bold>\<open>Conventions\<close> (\<open>Gateway_Prelude\<close>). \<open>Result\<close> is a sum with \<open>Err\<close> and \<open>Ok\<close>; a method on \<open>&mut self\<close>, or on
  shared state behind a lock or an atomic, takes the state and returns it with its result, each
  critical section being one step; \<open>i64\<close> is \<open>int\<close> with the checked operations written out, \<open>u64\<close> and
  \<open>usize\<close> are \<open>nat\<close> where the code excludes overflow and \<open>64 word\<close> where it wraps; a \<open>Duration\<close> is its
  nanoseconds; a clock is the sequence of its readings (\<open>None\<close> when it fails); a \<open>BTreeMap\<close> is an
  association list sorted by key, through the interface \<open>ordered_map\<close>. Identifiers and secrets are
  strings. Third-party code (hashers, HMAC, tokio channels, tokens and \<open>Notify\<close>, drivers) is a parameter
  with the laws the code relies on as named hypotheses, each shown satisfiable by an instance.

  \<^bold>\<open>Theories.\<close>
  \<^item> \<open>Gateway_Core\<close>: \<open>error.rs\<close>, \<open>id.rs\<close>, \<open>raw_extension.rs\<close>, \<open>retry_gate.rs\<close>; attempt identities do not collide.
  \<^item> \<open>Canonical_Events\<close>: \<open>canonical_event.rs\<close>; the lifecycle accepts exactly the lawful event sequences, which
    are well bracketed; a rejected event changes nothing.
  \<^item> \<open>Smooth_Weighted\<close>, \<open>Cyclic_Schedule\<close>: the smooth weighted schedule and the cyclic search with a
    wrapping cursor that pools and routes share, with the locales their clients interpret.
  \<^item> \<open>Credential_Pool\<close>: \<open>credential_pool.rs\<close>; leases are conserved and bounded, also under interleaved
    compare-and-exchange loops; the search is complete away from the wrap of the cursor.
  \<^item> \<open>Client_Key\<close>: \<open>gateway-auth\<close>; verification accepts exactly the issued, active, unexpired keys.
  \<^item> \<open>Formats_And_Capabilities\<close>: \<open>api_format.rs\<close>, capability and catalog views, protocol formats.
  \<^item> \<open>Route_Snapshot\<close>: \<open>route_snapshot.rs\<close>, \<open>route_scheduler.rs\<close>; integrity of a built snapshot, schedules, access
    control, publication and rollback, candidate selection.
  \<^item> \<open>Sharded_Registry\<close>, \<open>Runtime_Health\<close>, \<open>Runtime_Quota\<close>, \<open>Runtime_Probe\<close>: \<open>runtime_health.rs\<close>, \<open>runtime_quota.rs\<close>,
    \<open>runtime_probe.rs\<close>; what blocks survive, single-use tickets, isolation, bounds, exact quota evidence,
    fixed-point averages, probe completion across both registries.
  \<^item> \<open>Credential_Scheduler\<close>: \<open>credential_scheduler.rs\<close>; soundness of a selection whatever its clocks read, and
    completeness while the clocks stand still.
  \<^item> \<open>Gateway_Events\<close>: \<open>gateway_event.rs\<close> and the two-lane event queue; nothing admitted is lost or reordered, and an
    event is refused exactly when its own lane is full.
  \<^item> \<open>Attempt_Orchestrator\<close> (the model), \<open>Attempt_Steps\<close> (what one round and the loop do),
    \<open>Attempt_Properties\<close>: \<open>attempt_orchestrator.rs\<close>; bounded, fresh attempts, conserved leases, exact events,
    termination, and the scope a failure blocks.
  \<^item> \<open>Canonical_Stream\<close>: \<open>gateway-stream/src/lib.rs\<close>; exact delivery under interleaving, finality of cancellation
    and first delivery, no lost wake-up.
  \<^item> This theory: the stream as the orchestrator's retry gate.
  \<^item> \<open>Crc32\<close>, \<open>Kiro_Event_Stream\<close> (the model), \<open>Kiro_Decoder\<close>: \<open>provider-kiro/src/event_stream.rs\<close> over bytes; the
    decoder inverts the encoding for every cut into chunks, delivers only frames that stand on the wire,
    detects every change of one byte, and recovers or stops.
  \<^item> \<open>Kiro_Source\<close>: \<open>provider-kiro/src/event_semantics.rs\<close> and the streaming source of \<open>inference.rs\<close>; whatever the
    upstream sends, the events handed out form a canonical stream, up to the reuse of a tool call id.

  \<^bold>\<open>Bounds and hypotheses.\<close> The completeness theorems assume that no 64-bit cursor is within one round of
  its wrap (\<open>scheduler_low\<close>, \<open>pools_low\<close>): \<open>pool_lease_misses_at_wrap\<close> shows that at the wrap the search of
  a pool can miss its only eligible credential. The retry loop needs no fuel: its measure is the
  number of attempts left. Theorems on the orchestrator allow concurrent requests to change the shared
  state while a driver runs, provided they keep its invariants (\<open>well_behaved\<close>) and, for the conservation
  of leases, give back what they leased (\<open>quiet\<close>).
  The theorem on the events of the Kiro source assumes that no tool call id is started twice: the mapper forgets the ids of
  completed tools. The loops of the Kiro decoder and source terminate because each round consumes
  buffered bytes or a chunk.

  \<^bold>\<open>Not modelled.\<close> Redacting \<open>Debug\<close> and serde forms carry no behaviour of their own. The read-only
  reports (\<open>explain\<close>, \<open>route_explain.rs\<close>, \<open>runtime_management_status.rs\<close>) change no state.
  \<open>gateway-store\<close> and the services of \<open>gateway-control\<close> that drive it are SQL statements and transactions
  of a database whose semantics is not in the sources. \<open>gateway-http-actix\<close>, \<open>apps/gateway\<close>,
  \<open>upstream_client.rs\<close> and the OAuth and web providers are glue over HTTP servers and clients, sockets,
  TLS, cookies and JSON libraries.
\<close>

section \<open>The stream as the orchestrator's retry gate\<close>

text \<open>
  \<open>StreamControl\<close> is the \<open>TransparentRetryGate\<close> of a streamed request: its answers are those of the
  stream's configuration at each poll.
\<close>

definition control_gate ::
  "('c, 't) stream_ops \<Rightarrow> (nat \<Rightarrow> ('c, 't) stream_config) \<Rightarrow> retry_gate \<Rightarrow> bool" where
  "control_gate ops hist gate \<longleftrightarrow>
     (\<forall>n. gate_allows_transparent_retry gate n = allows_transparent_retry ops (sc_stream (hist n)))"

lemma retry_closed:
  assumes laws: "stream_laws ops v" and ok: "stream_ok v cap g" and run: "stream_run ops g g'"
    and closed: "sc_delivered g \<noteq> [] \<or> control_is_cancelled ops (sc_stream g)"
  shows "\<not> allows_transparent_retry ops (sc_stream g')"
  using stream_run_ok [OF laws run ok] stream_run_stays [OF laws run ok] closed
  by (auto simp: stream_ok_def Let_def stays_closed_def allows_transparent_retry_def is_uncommitted_def is_committed_def)

text \<open>
  C9: A streamed request is never retried once the client has seen output: if an event has been delivered or
  the request cancelled at any time before the retry poll that follows the start number \<open>n\<close> (counting from
  zero), the driver is not started again after it.
\<close>

theorem no_retry_after_first_delivery:
  assumes laws: "stream_laws ops v" and gate: "control_gate ops hist (env_gate env)"
    and "shared_ok (w_shared w)" "well_behaved env" "start_inner env rid route_id cand_ok w = (r, w')"
    and g: "stream_run ops (stream_start ops cap) g" "stream_run ops g (hist (w_retry_polls w + n))"
    and closed: "sc_delivered g \<noteq> [] \<or> control_is_cancelled ops (sc_stream g)"
  shows "\<exists>starts. w_starts w' = w_starts w @ starts \<and> length starts \<le> Suc n"
  using start_inner_outcome [OF assms(3-5)]
proof (elim disjE exE conjE)
  fix e assume "same_log w w'"
  then show ?thesis by (intro exI [of _ "[]"]) (simp add: same_log_def)
next
  fix b w2 starts evs
  assume w: "same_log w w2" "loop_outcome env rid route_id cand_ok b {} w2 r w' starts evs"
    and polls: "\<forall>i. Suc i < length starts \<longrightarrow> gate_allows_transparent_retry (env_gate env) (w_retry_polls w + i)"
  have "stream_ok v cap g" using stream_run_ok [OF laws g(1)] stream_start_ok [OF laws] by blast
  then have "\<not> gate_allows_transparent_retry (env_gate env) (w_retry_polls w + n)"
    using retry_closed [OF laws _ g(2) closed] gate by (simp add: control_gate_def)
  then have "length starts \<le> Suc n" using polls not_less by blast
  then show ?thesis using w by (intro exI [of _ starts]) (simp add: loop_outcome_def same_log_def)
qed

definition sample_closed_env :: "string attempt_env" where
  "sample_closed_env = sample_attempt_env\<lparr>env_gate := \<lparr>gate_cancelled = \<lambda>_. False, gate_allows_transparent_retry = \<lambda>_. False\<rparr>\<rparr>"

theorem no_retry_after_first_delivery_witness:
  "length (w_starts (snd (start_inner sample_closed_env (Some ''q'') ''r'' (\<lambda>_. True) sample_world))) \<le> 1 \<and>
   sc_delivered sample_abandoned \<noteq> []"
proof -
  let ?run = "start_inner sample_closed_env (Some ''q'') ''r'' (\<lambda>_. True) sample_world"
  have start: "stream_run list_stream (stream_start list_stream 1) sample_abandoned"
    using sample_received_run sample_abandoned_run by (rule rtranclp_trans)
  have d: "sc_delivered sample_abandoned \<noteq> []" by (simp add: sample_abandoned_def)
  have "stream_ok list_view 1 sample_abandoned"
    using stream_run_ok [OF list_stream_laws start] stream_start_ok [OF list_stream_laws] by blast
  then have gate: "control_gate list_stream (\<lambda>_. sample_abandoned) (env_gate sample_closed_env)"
    using retry_closed [OF list_stream_laws _ rtranclp.rtrancl_refl] d by (simp add: control_gate_def sample_closed_env_def)
  have wb: "well_behaved sample_closed_env"
    by (auto simp: well_behaved_def sample_closed_env_def sample_attempt_env_def sample_race_def)
  obtain starts where "w_starts (snd ?run) = w_starts sample_world @ starts" "length starts \<le> Suc 0"
    using no_retry_after_first_delivery [OF list_stream_laws gate sample_shared_ok wb _ start, of "Some ''q''" "''r''" "\<lambda>_. True" "fst ?run" "snd ?run" 0]
      d by auto
  then show ?thesis using d by (simp add: sample_world_def)
qed

end
